(* ===== verification/Kernel_Prelude.thy ===== *)
theory Kernel_Prelude
  imports Main "HOL-Library.Word" "HOL-Library.Signed_Division"
begin

text \<open>
  Shared vocabulary of the development: machine types of the i386 target, the helper
  operations that C's shifts and array accesses need, lemmas on words and lists used by
  several components, and the locale through which state machines obtain their
  reachable-state invariants.
\<close>

unbundle bit_operations_syntax

section \<open>Machine types\<close>

text \<open>On the i386 \<^verbatim>\<open>unsigned long\<close>, \<^verbatim>\<open>unsigned int\<close> and pointers have 32 bits.\<close>

type_synonym u8 = "8 word"
type_synonym u16 = "16 word"
type_synonym u32 = "32 word"

text \<open>The value an \<^verbatim>\<open>int\<close> or \<^verbatim>\<open>long\<close> holds after a two's complement wrap-around.\<close>

definition wrap32 :: "int \<Rightarrow> int" where
  "wrap32 n = sint (word_of_int n :: u32)"

text \<open>A 32-bit shift left: the i386 takes the shift count modulo 32.\<close>

definition shl32 :: "u32 \<Rightarrow> int \<Rightarrow> u32" where
  "shl32 w n = push_bit (nat (n mod 32)) w"

text \<open>
  An array cell updated through a pointer. An access outside the array has no defined
  result in C: it is \<^const>\<open>None\<close>, so that every theorem that concludes
  \<open>Some\<close> also shows memory safety.
\<close>

definition cell_upd :: "'a list \<Rightarrow> int \<Rightarrow> ('a \<Rightarrow> 'a) \<Rightarrow> 'a list option" where
  "cell_upd xs i f =
     (if 0 \<le> i \<and> i < int (length xs) then Some (xs[nat i := f (xs ! nat i)]) else None)"

definition cell_get :: "'a list \<Rightarrow> int \<Rightarrow> 'a option" where
  "cell_get xs i = (if 0 \<le> i \<and> i < int (length xs) then Some (xs ! nat i) else None)"

section \<open>Collections of facts\<close>

named_theorems kspec \<open>functional behaviour of kernel operations\<close>
named_theorems kinv \<open>preservation of component invariants\<close>
named_theorems kconst \<open>values of the source's preprocessor constants\<close>

section \<open>Generic lemmas\<close>

lemma cell_upd_Some [simp]:
  "0 \<le> i \<Longrightarrow> i < int (length xs) \<Longrightarrow> cell_upd xs i f = Some (xs[nat i := f (xs ! nat i)])"
  by (simp add: cell_upd_def)

lemma cell_get_Some [simp]:
  "0 \<le> i \<Longrightarrow> i < int (length xs) \<Longrightarrow> cell_get xs i = Some (xs ! nat i)"
  by (simp add: cell_get_def)

lemma wrap32_id: "- (2 ^ 31) \<le> n \<Longrightarrow> n < 2 ^ 31 \<Longrightarrow> wrap32 n = n"
  by (simp add: wrap32_def sint_sbintrunc' signed_take_bit_int_eq_self)

lemma wrap32_range: "- 2147483648 \<le> wrap32 n" "wrap32 n \<le> 2147483647"
  using sint_range_size[of "word_of_int n :: u32"] by (simp_all add: wrap32_def word_size)

lemma bit_shl32_ones:
  "0 \<le> n \<Longrightarrow> n < 32 \<Longrightarrow> k < 32 \<Longrightarrow> bit (shl32 (- 1) n) k \<longleftrightarrow> n \<le> int k"
  by (auto simp add: shl32_def bit_simps)

lemma u32_nonzero_iff: "(w :: u32) \<noteq> 0 \<longleftrightarrow> (\<exists>j<32. bit w j)"
  by (auto simp: bit_eq_iff)

section \<open>Reachable states\<close>

text \<open>
  A component with several callers is a set of initial states and a step relation. The
  reachable states are the least set closed under both.
\<close>

inductive reach :: "('s \<Rightarrow> bool) \<Rightarrow> ('s \<Rightarrow> 's \<Rightarrow> bool) \<Rightarrow> 's \<Rightarrow> bool"
  for init :: "'s \<Rightarrow> bool" and step :: "'s \<Rightarrow> 's \<Rightarrow> bool" where
  reach_init: "init s \<Longrightarrow> reach init step s"
| reach_step: "reach init step s \<Longrightarrow> step s t \<Longrightarrow> reach init step t"

text \<open>The contract of an inductive invariant, and what it gives for every reachable state.\<close>

locale invariant_system =
  fixes init :: "'s \<Rightarrow> bool" and step :: "'s \<Rightarrow> 's \<Rightarrow> bool" and inv :: "'s \<Rightarrow> bool"
  assumes init_inv: "init s \<Longrightarrow> inv s"
    and step_inv: "inv s \<Longrightarrow> step s t \<Longrightarrow> inv t"
begin

lemma reach_inv: "reach init step s \<Longrightarrow> inv s"
  by (induction rule: reach.induct) (auto intro: init_inv step_inv)

lemma steps_inv: "step\<^sup>*\<^sup>* s t \<Longrightarrow> inv s \<Longrightarrow> inv t"
  by (induction rule: rtranclp_induct) (auto intro: step_inv)

end

section \<open>Counting the elements of a list that have a property\<close>

definition cnt :: "('a \<Rightarrow> bool) \<Rightarrow> 'a list \<Rightarrow> nat" where
  "cnt P xs = length (filter P xs)"

lemma cnt_update:
  "i < length xs \<Longrightarrow> cnt P (xs[i := y]) + (if P (xs ! i) then 1 else 0) = cnt P xs + (if P y then 1 else 0)"
proof (induction xs arbitrary: i)
  case (Cons x xs)
  show ?case
  proof (cases i)
    case 0
    then show ?thesis by (simp add: cnt_def)
  next
    case (Suc j)
    then show ?thesis using Cons.IH[of j] Cons.prems by (simp add: cnt_def)
  qed
qed simp

lemma cnt_remove1: "x \<in> set xs \<Longrightarrow> cnt P xs = cnt P (remove1 x xs) + (if P x then 1 else 0)"
  by (induction xs) (auto simp: cnt_def)

lemma cnt_Cons [simp]: "cnt P (x # xs) = cnt P xs + (if P x then 1 else 0)"
  by (simp add: cnt_def)

lemma cnt_le: "cnt P xs \<le> length xs"
  by (simp add: cnt_def)

lemma cnt_pos: "0 < cnt P xs \<Longrightarrow> \<exists>j<length xs. P (xs ! j)"
  by (simp add: cnt_def filter_empty_conv) (metis in_set_conv_nth)

lemma sum_list_update_nat:
  fixes f :: "'a \<Rightarrow> nat"
  shows "i < length xs \<Longrightarrow> sum_list (map f (xs[i := y])) + f (xs ! i) = sum_list (map f xs) + f y"
proof (induction xs arbitrary: i)
  case (Cons x xs)
  then show ?case by (cases i) simp_all
qed simp

end
