(* ===== verification/Errno.thy ===== *)
theory Errno
  imports Kernel_Prelude
begin

text \<open>
  The error numbers of \<^verbatim>\<open>include/linux/errno.h\<close>. A system call that returns
  \<^verbatim>\<open>-EXXX\<close> is modelled by \<open>Inl EXXX\<close>, a successful one by \<open>Inr\<close>
  of its value, so an error can not be confused with a result. The names are the header's
  macros: abbreviations of the number they stand for.
\<close>

datatype errno = Errno (errno_no: nat)

abbreviation "EPERM \<equiv> Errno 1"
abbreviation "ENOENT \<equiv> Errno 2"
abbreviation "ESRCH \<equiv> Errno 3"
abbreviation "EINTR \<equiv> Errno 4"
abbreviation "EIO \<equiv> Errno 5"
abbreviation "ENXIO \<equiv> Errno 6"
abbreviation "E2BIG \<equiv> Errno 7"
abbreviation "ENOEXEC \<equiv> Errno 8"
abbreviation "EBADF \<equiv> Errno 9"
abbreviation "ECHILD \<equiv> Errno 10"
abbreviation "EAGAIN \<equiv> Errno 11"
abbreviation "ENOMEM \<equiv> Errno 12"
abbreviation "EACCES \<equiv> Errno 13"
abbreviation "EFAULT \<equiv> Errno 14"
abbreviation "ENOTBLK \<equiv> Errno 15"
abbreviation "EBUSY \<equiv> Errno 16"
abbreviation "EEXIST \<equiv> Errno 17"
abbreviation "EXDEV \<equiv> Errno 18"
abbreviation "ENODEV \<equiv> Errno 19"
abbreviation "ENOTDIR \<equiv> Errno 20"
abbreviation "EISDIR \<equiv> Errno 21"
abbreviation "EINVAL \<equiv> Errno 22"
abbreviation "ENFILE \<equiv> Errno 23"
abbreviation "EMFILE \<equiv> Errno 24"
abbreviation "ENOTTY \<equiv> Errno 25"
abbreviation "ETXTBSY \<equiv> Errno 26"
abbreviation "EFBIG \<equiv> Errno 27"
abbreviation "ENOSPC \<equiv> Errno 28"
abbreviation "ESPIPE \<equiv> Errno 29"
abbreviation "EROFS \<equiv> Errno 30"
abbreviation "EMLINK \<equiv> Errno 31"
abbreviation "EPIPE \<equiv> Errno 32"
abbreviation "EDOM \<equiv> Errno 33"
abbreviation "ERANGE \<equiv> Errno 34"
abbreviation "EDEADLK \<equiv> Errno 35"
abbreviation "ENAMETOOLONG \<equiv> Errno 36"
abbreviation "ENOLCK \<equiv> Errno 37"
abbreviation "ENOSYS \<equiv> Errno 38"
abbreviation "ENOTEMPTY \<equiv> Errno 39"
abbreviation "ELOOP \<equiv> Errno 40"
abbreviation "ENOMSG \<equiv> Errno 42"
abbreviation "EIDRM \<equiv> Errno 43"
abbreviation "ECHRNG \<equiv> Errno 44"
abbreviation "EL2NSYNC \<equiv> Errno 45"
abbreviation "EL3HLT \<equiv> Errno 46"
abbreviation "EL3RST \<equiv> Errno 47"
abbreviation "ELNRNG \<equiv> Errno 48"
abbreviation "EUNATCH \<equiv> Errno 49"
abbreviation "ENOCSI \<equiv> Errno 50"
abbreviation "EL2HLT \<equiv> Errno 51"
abbreviation "EBADE \<equiv> Errno 52"
abbreviation "EBADR \<equiv> Errno 53"
abbreviation "EXFULL \<equiv> Errno 54"
abbreviation "ENOANO \<equiv> Errno 55"
abbreviation "EBADRQC \<equiv> Errno 56"
abbreviation "EBADSLT \<equiv> Errno 57"
abbreviation "EDEADLOCK \<equiv> Errno 58"
abbreviation "EBFONT \<equiv> Errno 59"
abbreviation "ENOSTR \<equiv> Errno 60"
abbreviation "ENODATA \<equiv> Errno 61"
abbreviation "ETIME \<equiv> Errno 62"
abbreviation "ENOSR \<equiv> Errno 63"
abbreviation "ENONET \<equiv> Errno 64"
abbreviation "ENOPKG \<equiv> Errno 65"
abbreviation "EREMOTE \<equiv> Errno 66"
abbreviation "ENOLINK \<equiv> Errno 67"
abbreviation "EADV \<equiv> Errno 68"
abbreviation "ESRMNT \<equiv> Errno 69"
abbreviation "ECOMM \<equiv> Errno 70"
abbreviation "EPROTO \<equiv> Errno 71"
abbreviation "EMULTIHOP \<equiv> Errno 72"
abbreviation "EDOTDOT \<equiv> Errno 73"
abbreviation "EBADMSG \<equiv> Errno 74"
abbreviation "EOVERFLOW \<equiv> Errno 75"
abbreviation "ENOTUNIQ \<equiv> Errno 76"
abbreviation "EBADFD \<equiv> Errno 77"
abbreviation "EREMCHG \<equiv> Errno 78"
abbreviation "ELIBACC \<equiv> Errno 79"
abbreviation "ELIBBAD \<equiv> Errno 80"
abbreviation "ELIBSCN \<equiv> Errno 81"
abbreviation "ELIBMAX \<equiv> Errno 82"
abbreviation "ELIBEXEC \<equiv> Errno 83"
abbreviation "EILSEQ \<equiv> Errno 84"
abbreviation "ERESTART \<equiv> Errno 85"
abbreviation "ESTRPIPE \<equiv> Errno 86"
abbreviation "EUSERS \<equiv> Errno 87"
abbreviation "ENOTSOCK \<equiv> Errno 88"
abbreviation "EDESTADDRREQ \<equiv> Errno 89"
abbreviation "EMSGSIZE \<equiv> Errno 90"
abbreviation "EPROTOTYPE \<equiv> Errno 91"
abbreviation "ENOPROTOOPT \<equiv> Errno 92"
abbreviation "EPROTONOSUPPORT \<equiv> Errno 93"
abbreviation "ESOCKTNOSUPPORT \<equiv> Errno 94"
abbreviation "EOPNOTSUPP \<equiv> Errno 95"
abbreviation "EPFNOSUPPORT \<equiv> Errno 96"
abbreviation "EAFNOSUPPORT \<equiv> Errno 97"
abbreviation "EADDRINUSE \<equiv> Errno 98"
abbreviation "EADDRNOTAVAIL \<equiv> Errno 99"
abbreviation "ENETDOWN \<equiv> Errno 100"
abbreviation "ENETUNREACH \<equiv> Errno 101"
abbreviation "ENETRESET \<equiv> Errno 102"
abbreviation "ECONNABORTED \<equiv> Errno 103"
abbreviation "ECONNRESET \<equiv> Errno 104"
abbreviation "ENOBUFS \<equiv> Errno 105"
abbreviation "EISCONN \<equiv> Errno 106"
abbreviation "ENOTCONN \<equiv> Errno 107"
abbreviation "ESHUTDOWN \<equiv> Errno 108"
abbreviation "ETOOMANYREFS \<equiv> Errno 109"
abbreviation "ETIMEDOUT \<equiv> Errno 110"
abbreviation "ECONNREFUSED \<equiv> Errno 111"
abbreviation "EHOSTDOWN \<equiv> Errno 112"
abbreviation "EHOSTUNREACH \<equiv> Errno 113"
abbreviation "EALREADY \<equiv> Errno 114"
abbreviation "EINPROGRESS \<equiv> Errno 115"
abbreviation "ESTALE \<equiv> Errno 116"
abbreviation "EUCLEAN \<equiv> Errno 117"
abbreviation "ENOTNAM \<equiv> Errno 118"
abbreviation "ENAVAIL \<equiv> Errno 119"
abbreviation "EISNAM \<equiv> Errno 120"
abbreviation "EREMOTEIO \<equiv> Errno 121"
abbreviation "EDQUOT \<equiv> Errno 122"
abbreviation "ERESTARTSYS \<equiv> Errno 512"
abbreviation "ERESTARTNOINTR \<equiv> Errno 513"
abbreviation "ERESTARTNOHAND \<equiv> Errno 514"
abbreviation "EWOULDBLOCK \<equiv> EAGAIN"

type_synonym 'a res = "errno + 'a"

text \<open>The \<^verbatim>\<open>int\<close> a system call really returns.\<close>

fun ret_of :: "int res \<Rightarrow> int" where
  "ret_of (Inl e) = - int (errno_no e)"
| "ret_of (Inr v) = v"

instantiation errno :: linorder
begin

definition less_eq_errno :: "errno \<Rightarrow> errno \<Rightarrow> bool" where
  "less_eq_errno a b \<longleftrightarrow> errno_no a \<le> errno_no b"

definition less_errno :: "errno \<Rightarrow> errno \<Rightarrow> bool" where
  "less_errno a b \<longleftrightarrow> errno_no a < errno_no b"

instance
  by standard (auto simp: less_eq_errno_def less_errno_def intro: errno.expand)

end

text \<open>A caller tells an error from a non-negative result by its sign alone.\<close>

lemma ret_of_error: "ret_of r < 0 \<Longrightarrow> (\<And>v. r = Inr v \<Longrightarrow> 0 \<le> v) \<Longrightarrow> \<exists>e. r = Inl e"
  by (cases r) auto

end
