(* ===== verification/Ioport.thy ===== *)
theory Ioport
  imports Errno
begin

text \<open>
  I/O port permissions and the port registrar (\<^verbatim>\<open>kernel/ioport.c\<close>). A bitmap is an
  array of 32-bit words; \<^verbatim>\<open>set_bitmap\<close> and \<^verbatim>\<open>check_bitmap\<close> walk it word by
  word with masks at both ends. The lemmas relate both to the plain set of port numbers a
  bitmap stands for, and show that the system calls never leave their arrays.
\<close>

section \<open>Data\<close>

definition IO_BITMAP_SIZE :: nat where
  [kconst]: "IO_BITMAP_SIZE = 32"

type_synonym bitmap = "u32 list"

text \<open>The fields of the current task that this file uses, and the file's own array.\<close>

record io_state =
  io_euid :: u16
  io_bitmap :: bitmap
  ioport_registrar :: bitmap

section \<open>Bitmap operations\<close>

text \<open>The middle loop of \<^verbatim>\<open>set_bitmap\<close>: whole words, while at least 32 bits are left.\<close>

function set_words :: "bitmap \<Rightarrow> int \<Rightarrow> int \<Rightarrow> u32 \<Rightarrow> (bitmap \<times> int \<times> int) option" where
  "set_words bm bitmap_base len msk =
     (if len \<ge> 32
      then Option.bind (cell_upd bm bitmap_base (\<lambda>_. msk))
             (\<lambda>bm'. set_words bm' (bitmap_base + 1) (len - 32) msk)
      else Some (bm, bitmap_base, len))"
  by pat_completeness auto
termination
  by (relation "measure (\<lambda>(_, _, len, _). nat len)") auto

definition put_mask :: "bool \<Rightarrow> u32 \<Rightarrow> u32 \<Rightarrow> u32" where
  "put_mask new_value msk w = (if new_value then w OR msk else w AND NOT msk)"

text \<open>The mask of the first, partial word.\<close>

definition first_mask :: "int \<Rightarrow> int \<Rightarrow> u32" where
  "first_mask low_index len =
     (if len < 32 then shl32 (- 1) low_index AND NOT (shl32 (- 1) len)
      else shl32 (- 1) low_index)"

definition set_bitmap :: "bitmap \<Rightarrow> u16 \<Rightarrow> u16 \<Rightarrow> bool \<Rightarrow> bitmap option" where
  "set_bitmap bitmap base extent new_value =
     (let bitmap_base = sint base div 32;
          low_index = sint base mod 32;
          len = low_index + sint extent
      in Option.bind
           (if low_index \<noteq> 0
            then map_option (\<lambda>bm. (bm, bitmap_base + 1, len - 32))
                   (cell_upd bitmap bitmap_base (put_mask new_value (first_mask low_index len)))
            else Some (bitmap, bitmap_base, len))
           (\<lambda>(bm, bitmap_base, len).
              Option.bind (set_words bm bitmap_base len (if new_value then - 1 else 0))
                (\<lambda>(bm, bitmap_base, len).
                   if len > 0
                   then cell_upd bm bitmap_base (put_mask new_value (NOT (shl32 (- 1) len)))
                   else Some bm)))"

function check_words :: "bitmap \<Rightarrow> int \<Rightarrow> int \<Rightarrow> bool option" where
  "check_words bm bitmap_base len =
     (if len \<ge> 32
      then Option.bind (cell_get bm bitmap_base)
             (\<lambda>w. if w \<noteq> 0 then Some True else check_words bm (bitmap_base + 1) (len - 32))
      else if len > 0
      then map_option (\<lambda>w. w AND NOT (shl32 (- 1) len) \<noteq> 0) (cell_get bm bitmap_base)
      else Some False)"
  by pat_completeness auto
termination
  by (relation "measure (\<lambda>(_, _, len). nat len)") auto

definition check_bitmap :: "bitmap \<Rightarrow> u16 \<Rightarrow> u16 \<Rightarrow> bool option" where
  "check_bitmap bitmap base extent =
     (let bitmap_base = sint base div 32;
          low_index = sint base mod 32;
          len = low_index + sint extent
      in if low_index \<noteq> 0
         then Option.bind (cell_get bitmap bitmap_base)
                (\<lambda>w. if w AND first_mask low_index len \<noteq> 0 then Some True
                     else check_words bitmap (bitmap_base + 1) (len - 32))
         else check_words bitmap bitmap_base len)"

section \<open>System calls and driver interface\<close>

text \<open>
  \<^verbatim>\<open>from\<close> and \<^verbatim>\<open>num\<close> are truncated to \<^verbatim>\<open>short\<close> at the call of
  \<^verbatim>\<open>set_bitmap\<close>. The outer option is memory safety, the sum the error return.
\<close>

definition sys_ioperm :: "io_state \<Rightarrow> u32 \<Rightarrow> u32 \<Rightarrow> bool \<Rightarrow> io_state res option" where
  "sys_ioperm s from num turn_on =
     (if from + num \<le> from then Some (Inl EINVAL)
      else if from + num > of_nat (IO_BITMAP_SIZE * 32) then Some (Inl EINVAL)
      else if io_euid s \<noteq> 0 then Some (Inl EPERM)
      else map_option (\<lambda>bm. Inr (s\<lparr>io_bitmap := bm\<rparr>))
             (set_bitmap (io_bitmap s) (ucast from) (ucast num) (\<not> turn_on)))"

text \<open>
  \<^verbatim>\<open>sys_iopl\<close> rewrites the saved \<^verbatim>\<open>eflags\<close> on the stack frame of the call:
  the result is the new \<^verbatim>\<open>eflags\<close>.
\<close>

definition sys_iopl :: "io_state \<Rightarrow> u32 \<Rightarrow> u32 \<Rightarrow> u32 res" where
  "sys_iopl s level eflags =
     (if level > 3 then Inl EINVAL
      else if io_euid s \<noteq> 0 then Inl EPERM
      else Inr ((eflags AND 0xffffcfff) OR push_bit 12 level))"

definition clip_region :: "u32 \<Rightarrow> u32 \<Rightarrow> u32" where
  "clip_region from num =
     (if from + num > of_nat (IO_BITMAP_SIZE * 32) then of_nat (IO_BITMAP_SIZE * 32) - from
      else num)"

definition snarf_region :: "io_state \<Rightarrow> u32 \<Rightarrow> u32 \<Rightarrow> io_state option" where
  "snarf_region s from num =
     (if from > of_nat (IO_BITMAP_SIZE * 32) then Some s
      else map_option (\<lambda>bm. s\<lparr>ioport_registrar := bm\<rparr>)
             (set_bitmap (ioport_registrar s) (ucast from) (ucast (clip_region from num)) True))"

definition check_region :: "io_state \<Rightarrow> u32 \<Rightarrow> u32 \<Rightarrow> bool option" where
  "check_region s from num =
     (if from > of_nat (IO_BITMAP_SIZE * 32) then Some False
      else check_bitmap (ioport_registrar s) (ucast from) (ucast (clip_region from num)))"

text \<open>
  \<^verbatim>\<open>reserve_setup\<close> walks the pairs after the count in \<^verbatim>\<open>ints[0]\<close>; reading past
  the array is a failure.
\<close>

function reserve_loop :: "io_state \<Rightarrow> int list \<Rightarrow> int \<Rightarrow> int \<Rightarrow> io_state option" where
  "reserve_loop s ints n i =
     (if i < n
      then Option.bind (cell_get ints i)
             (\<lambda>a. Option.bind (cell_get ints (i + 1))
               (\<lambda>b. Option.bind (snarf_region s (word_of_int a) (word_of_int b))
                 (\<lambda>s'. reserve_loop s' ints n (i + 2))))
      else Some s)"
  by pat_completeness auto
termination
  by (relation "measure (\<lambda>(_, _, n, i). nat (n - i))") auto

definition reserve_setup :: "io_state \<Rightarrow> int list \<Rightarrow> io_state option" where
  "reserve_setup s ints = Option.bind (cell_get ints 0) (\<lambda>n. reserve_loop s ints n 1)"

declare set_words.simps [simp del] check_words.simps [simp del] reserve_loop.simps [simp del]

section \<open>The set of ports a bitmap stands for\<close>

definition port_bit :: "bitmap \<Rightarrow> nat \<Rightarrow> bool" where
  "port_bit bm k \<longleftrightarrow> k < 32 * length bm \<and> bit (bm ! (k div 32)) (k mod 32)"

definition ports :: "bitmap \<Rightarrow> nat set" where
  "ports bm = {k. port_bit bm k}"

text \<open>\<open>fills bm bm' lo hi v\<close>: the bits in \<open>[lo, hi)\<close> became \<open>v\<close>, the others are as before.\<close>

definition fills :: "bitmap \<Rightarrow> bitmap \<Rightarrow> int \<Rightarrow> int \<Rightarrow> bool \<Rightarrow> bool" where
  "fills bm bm' lo hi v \<longleftrightarrow> length bm' = length bm \<and>
     (\<forall>k. port_bit bm' k = (if lo \<le> int k \<and> int k < hi then v else port_bit bm k))"

lemma port_bit_update:
  "i < length bm \<Longrightarrow> port_bit (bm[i := w]) k \<longleftrightarrow>
     (if k div 32 = i then bit w (k mod 32) else port_bit bm k)"
  by (auto simp: port_bit_def nth_list_update)

lemma port_bit_word: "i < length bm \<Longrightarrow> j < 32 \<Longrightarrow> bit (bm ! i) j \<longleftrightarrow> port_bit bm (32 * i + j)"
  by (auto simp: port_bit_def)

lemma bit_put_mask:
  "j < 32 \<Longrightarrow> bit (put_mask v m w) j \<longleftrightarrow> (if bit m j then v else bit w j)"
  by (simp add: put_mask_def bit_simps)

lemma bit_first_mask:
  assumes "0 < l" "l < 32" "l \<le> n" "j < 32"
  shows "bit (first_mask l n) j \<longleftrightarrow> l \<le> int j \<and> int j < n"
  using assms by (auto simp: first_mask_def bit_and_iff bit_not_iff bit_shl32_ones)

lemma bit_last_mask:
  "0 < n \<Longrightarrow> n < 32 \<Longrightarrow> j < 32 \<Longrightarrow> bit (NOT (shl32 (- 1) n)) j \<longleftrightarrow> int j < n"
  by (simp add: bit_not_iff bit_shl32_ones not_le)

lemma fills_refl: "hi \<le> lo \<Longrightarrow> fills bm bm lo hi v"
  by (auto simp: fills_def)

lemma fills_trans:
  "fills a b lo mid v \<Longrightarrow> fills b c mid hi v \<Longrightarrow> lo \<le> mid \<Longrightarrow> mid \<le> hi \<Longrightarrow> fills a c lo hi v"
  by (auto simp: fills_def)

text \<open>One word written: the bits the mask selects take the value, within the word's window.\<close>

lemma fills_word:
  assumes i: "i < length bm"
    and w: "\<And>j. j < 32 \<Longrightarrow> bit w j \<longleftrightarrow> (if l \<le> int j \<and> int j < n then v else bit (bm ! i) j)"
    and l: "0 \<le> l" "n \<le> 32"
  shows "fills bm (bm[i := w]) (32 * int i + l) (32 * int i + n) v"
proof -
  have "port_bit (bm[i := w]) k \<longleftrightarrow>
      (if 32 * int i + l \<le> int k \<and> int k < 32 * int i + n then v else port_bit bm k)" for k
  proof (cases "k div 32 = i")
    case True
    define j where "j = k mod 32"
    have j: "j < 32" and k: "k = 32 * i + j" using True by (auto simp: j_def)
    have "(32 * int i + l \<le> int k \<and> int k < 32 * int i + n) = (l \<le> int j \<and> int j < n)"
      by (auto simp: k)
    then show ?thesis
      using i j True w[OF j] port_bit_word[OF i j] by (simp add: port_bit_update k)
  next
    case False
    then have "int k < 32 * int i \<or> 32 * int i + 32 \<le> int k" by linarith
    with False i l show ?thesis by (auto simp: port_bit_update)
  qed
  then show ?thesis by (simp add: fills_def)
qed

lemma set_words_fills:
  assumes "0 \<le> b" "0 \<le> len" "32 * b + len \<le> 32 * int (length bm)"
  shows "\<exists>bm'. set_words bm b len (if v then - 1 else 0) = Some (bm', b + len div 32, len mod 32)
           \<and> fills bm bm' (32 * b) (32 * (b + len div 32)) v"
  using assms
proof (induction bm b len "(if v then - 1 else 0) :: u32" rule: set_words.induct)
  case (1 bm b len)
  show ?case
  proof (cases "32 \<le> len")
    case False
    with "1.prems" show ?thesis
      by (simp add: set_words.simps[of bm b len] fills_refl)
  next
    case True
    define bm1 where "bm1 = bm[nat b := (if v then - 1 else 0)]"
    have b: "nat b < length bm" using True "1.prems" by linarith
    have upd: "cell_upd bm b (\<lambda>_. if v then - 1 else 0) = Some bm1"
      using b "1.prems" by (simp add: bm1_def)
    have f1: "fills bm bm1 (32 * b) (32 * (b + 1)) v"
      using fills_word[OF b, of "if v then - 1 else 0" 0 32 v] "1.prems"
      by (simp add: bm1_def algebra_simps)
    have dm: "(len - 32) div 32 = len div 32 - 1" "(len - 32) mod 32 = len mod 32"
      by simp_all
    from "1.hyps"[OF True, of bm1] True "1.prems" obtain bm'
      where "set_words bm1 (b + 1) (len - 32) (if v then - 1 else 0)
               = Some (bm', b + len div 32, len mod 32)"
        and f2: "fills bm1 bm' (32 * (b + 1)) (32 * (b + len div 32)) v"
      by (auto simp: bm1_def dm)
    moreover have "fills bm bm' (32 * b) (32 * (b + len div 32)) v"
      by (rule fills_trans[OF f1 f2]) (use True in auto)
    ultimately show ?thesis
      using True upd by (simp add: set_words.simps[of bm b len])
  qed
qed

lemma set_tail_fills:
  assumes b: "0 \<le> b" "0 \<le> len" "32 * b + len \<le> 32 * int (length bm)"
  shows "\<exists>bm'. Option.bind (set_words bm b len (if v then - 1 else 0))
             (\<lambda>(bm, b, len). if len > 0 then cell_upd bm b (put_mask v (NOT (shl32 (- 1) len)))
                             else Some bm) = Some bm'
           \<and> fills bm bm' (32 * b) (32 * b + len) v"
proof -
  from set_words_fills[OF assms, of v] obtain bm1
    where w: "set_words bm b len (if v then - 1 else 0) = Some (bm1, b + len div 32, len mod 32)"
      and f1: "fills bm bm1 (32 * b) (32 * (b + len div 32)) v" by blast
  have len1: "length bm1 = length bm" using f1 by (simp add: fills_def)
  have hi: "32 * (b + len div 32) + len mod 32 = 32 * b + len" by simp
  have m: "0 \<le> len mod 32" by simp
  show ?thesis
  proof (cases "len mod 32 = 0")
    case True
    with hi have "32 * (b + len div 32) = 32 * b + len" by simp
    with f1 have "fills bm bm1 (32 * b) (32 * b + len) v" by metis
    with w True show ?thesis by simp
  next
    case False
    define i where "i = nat (b + len div 32)"
    have i: "int i = b + len div 32" using b by (simp add: i_def pos_imp_zdiv_nonneg_iff)
    have m0: "0 < len mod 32" using False m by simp
    have "32 * int i + len mod 32 = 32 * b + len" unfolding i by (rule hi)
    with m0 b(3) have "32 * int i < 32 * int (length bm)" by linarith
    then have il: "i < length bm1" using len1 by simp
    have f2: "fills bm1 (bm1[i := put_mask v (NOT (shl32 (- 1) (len mod 32))) (bm1 ! i)])
               (32 * int i + 0) (32 * int i + len mod 32) v"
      by (rule fills_word[OF il]) (use False in \<open>auto simp: bit_put_mask bit_last_mask\<close>)
    have "fills bm (bm1[i := put_mask v (NOT (shl32 (- 1) (len mod 32))) (bm1 ! i)])
            (32 * b) (32 * b + len) v"
      using fills_trans[OF f1 f2[unfolded i add_0_right hi]] b hi m
      by (simp add: pos_imp_zdiv_nonneg_iff)
    with w m0 il show ?thesis
      by (simp add: i[symmetric])
  qed
qed

lemma set_bitmap_fills:
  assumes b: "0 \<le> sint base" "0 \<le> sint extent"
    "sint base + sint extent \<le> 32 * int (length bm)"
  shows "\<exists>bm'. set_bitmap bm base extent v = Some bm' \<and>
           fills bm bm' (sint base) (sint base + sint extent) v"
proof -
  define i where "i = nat (sint base div 32)"
  define l where "l = sint base mod 32"
  define n where "n = l + sint extent"
  have i: "int i = sint base div 32" using b by (simp add: i_def pos_imp_zdiv_nonneg_iff)
  have base: "sint base = 32 * int i + l" by (simp add: i l_def)
  have l: "0 \<le> l" "l < 32" by (simp_all add: l_def)
  have eq: "set_bitmap bm base extent v = Option.bind
      (if l \<noteq> 0
       then map_option (\<lambda>bm. (bm, int i + 1, n - 32))
              (cell_upd bm (int i) (put_mask v (first_mask l n)))
       else Some (bm, int i, n))
      (\<lambda>(bm, b, len). Option.bind (set_words bm b len (if v then - 1 else 0))
         (\<lambda>(bm, b, len). if len > 0 then cell_upd bm b (put_mask v (NOT (shl32 (- 1) len)))
                         else Some bm))"
    by (simp only: set_bitmap_def Let_def i l_def n_def)
  have hi: "sint base + sint extent = 32 * int i + n" by (simp add: base n_def)
  have n: "l \<le> n" "32 * int i + n \<le> 32 * int (length bm)" using b hi by (auto simp: n_def)
  show ?thesis
  proof (cases "l = 0")
    case True
    with set_tail_fills[of "int i" n bm v] n show ?thesis
      unfolding eq hi by (simp add: base)
  next
    case False
    have il: "i < length bm" using False n l by linarith
    define bm1 where "bm1 = bm[i := put_mask v (first_mask l n) (bm ! i)]"
    have f1: "fills bm bm1 (32 * int i + l) (32 * int i + min n 32) v"
      unfolding bm1_def
      by (rule fills_word[OF il]) (use False l n in \<open>auto simp: bit_put_mask bit_first_mask\<close>)
    have eq1: "set_bitmap bm base extent v =
        Option.bind (set_words bm1 (int i + 1) (n - 32) (if v then - 1 else 0))
         (\<lambda>(bm, b, len). if len > 0 then cell_upd bm b (put_mask v (NOT (shl32 (- 1) len)))
                         else Some bm)"
      using False il by (simp add: eq bm1_def)
    show ?thesis
    proof (cases "n < 32")
      case True
      with f1 show ?thesis
        unfolding eq1 hi by (simp add: base set_words.simps[of bm1 "int i + 1" "n - 32"])
    next
      case n32: False
      have "length bm1 = length bm" by (simp add: bm1_def)
      with set_tail_fills[of "int i + 1" "n - 32" bm1 v] n n32 obtain bm2
        where bm2: "set_bitmap bm base extent v = Some bm2"
          and f2: "fills bm1 bm2 (32 * (int i + 1)) (32 * (int i + 1) + (n - 32)) v"
        unfolding eq1 by auto
      have "fills bm bm2 (32 * int i + l) (32 * int i + n) v"
        by (rule fills_trans[OF f1]) (use f2 n32 l in auto)
      with bm2 show ?thesis unfolding hi by (simp add: base)
    qed
  qed
qed

lemma check_words_spec:
  assumes "0 \<le> b" "0 \<le> len" "32 * b + len \<le> 32 * int (length bm)"
  shows "check_words bm b len =
           Some (\<exists>k. 32 * b \<le> int k \<and> int k < 32 * b + len \<and> port_bit bm k)"
  using assms
proof (induction bm b len rule: check_words.induct)
  case (1 bm b len)
  have word: "(\<exists>j<32. int j < n \<and> bit (bm ! nat b) j) =
      (\<exists>k. 32 * b \<le> int k \<and> int k < 32 * b + n \<and> port_bit bm k)"
    if "n \<le> 32" "b < int (length bm)" for n
  proof
    assume "\<exists>j<32. int j < n \<and> bit (bm ! nat b) j"
    then obtain j where "j < 32" "int j < n" "bit (bm ! nat b) j" by blast
    then show "\<exists>k. 32 * b \<le> int k \<and> int k < 32 * b + n \<and> port_bit bm k"
      using that "1.prems" port_bit_word[of "nat b" bm j]
      by (intro exI[of _ "32 * nat b + j"]) auto
  next
    assume "\<exists>k. 32 * b \<le> int k \<and> int k < 32 * b + n \<and> port_bit bm k"
    then obtain k where k: "32 * b \<le> int k" "int k < 32 * b + n" "port_bit bm k" by blast
    define j where "j = k - 32 * nat b"
    have "k = 32 * nat b + j" "j < 32" "int j < n" using k that "1.prems" by (auto simp: j_def)
    then show "\<exists>j<32. int j < n \<and> bit (bm ! nat b) j"
      using k that "1.prems" port_bit_word[of "nat b" bm j] by (intro exI[of _ j]) auto
  qed
  show ?case
  proof (cases "32 \<le> len")
    case True
    have b: "b < int (length bm)" using True "1.prems" by linarith
    have nz: "bm ! nat b \<noteq> 0 \<longleftrightarrow> (\<exists>k. 32 * b \<le> int k \<and> int k < 32 * b + 32 \<and> port_bit bm k)"
      using word[of 32] b by (simp add: u32_nonzero_iff)
    show ?thesis
    proof (cases "bm ! nat b = 0")
      case False
      with True b nz "1.prems" show ?thesis
        by (auto simp: check_words.simps[of bm b len])
    next
      case zero: True
      have "check_words bm (b + 1) (len - 32) =
          Some (\<exists>k. 32 * (b + 1) \<le> int k \<and> int k < 32 * (b + 1) + (len - 32) \<and> port_bit bm k)"
        using "1.IH"[OF True] zero True "1.prems" by simp
      moreover have "(32 * (b + 1) \<le> int k \<and> int k < 32 * (b + 1) + (len - 32) \<and> port_bit bm k)
          = (32 * b \<le> int k \<and> int k < 32 * b + len \<and> port_bit bm k)" for k
      proof -
        have "port_bit bm k \<Longrightarrow> \<not> (32 * b \<le> int k \<and> int k < 32 * b + 32)"
          using nz zero by blast
        then show ?thesis by auto
      qed
      ultimately show ?thesis
        using True b zero "1.prems" by (simp add: check_words.simps[of bm b len])
    qed
  next
    case False
    show ?thesis
    proof (cases "len = 0")
      case True
      then show ?thesis by (simp add: check_words.simps[of bm b 0])
    next
      case len: False
      have b: "b < int (length bm)" using len "1.prems" by linarith
      have "(bm ! nat b AND NOT (shl32 (- 1) len) \<noteq> 0) = (\<exists>j<32. int j < len \<and> bit (bm ! nat b) j)"
        using False len "1.prems" by (auto simp: u32_nonzero_iff bit_and_iff bit_last_mask)
      with word[of len] b False len "1.prems" show ?thesis
        by (simp add: check_words.simps[of bm b len])
    qed
  qed
qed

text \<open>
  \<^verbatim>\<open>check_bitmap\<close> answers whether some bit of the range is set.
\<close>

lemma check_bitmap_spec:
  assumes b: "0 \<le> sint base" "0 \<le> sint extent"
    "sint base + sint extent \<le> 32 * int (length bm)"
  shows "check_bitmap bm base extent =
           Some (\<exists>k. sint base \<le> int k \<and> int k < sint base + sint extent \<and> port_bit bm k)"
proof -
  define i where "i = nat (sint base div 32)"
  define l where "l = sint base mod 32"
  define n where "n = l + sint extent"
  have i: "int i = sint base div 32" using b by (simp add: i_def pos_imp_zdiv_nonneg_iff)
  have base: "sint base = 32 * int i + l" by (simp add: i l_def)
  have l: "0 \<le> l" "l < 32" by (simp_all add: l_def)
  have eq: "check_bitmap bm base extent =
      (if l \<noteq> 0 then Option.bind (cell_get bm (int i))
         (\<lambda>w. if w AND first_mask l n \<noteq> 0 then Some True else check_words bm (int i + 1) (n - 32))
       else check_words bm (int i) n)"
    by (simp only: check_bitmap_def Let_def i l_def n_def)
  have hi: "sint base + sint extent = 32 * int i + n" by (simp add: base n_def)
  have n: "l \<le> n" "32 * int i + n \<le> 32 * int (length bm)" using b hi by (auto simp: n_def)
  show ?thesis
  proof (cases "l = 0")
    case True
    with check_words_spec[of "int i" n bm] n show ?thesis
      unfolding eq hi by (simp add: base)
  next
    case False
    have il: "i < length bm" using False n l by linarith
    have w: "(bm ! i AND first_mask l n \<noteq> 0) =
        (\<exists>k. 32 * int i + l \<le> int k \<and> int k < 32 * int i + min n 32 \<and> port_bit bm k)"
    proof -
      have "(bm ! i AND first_mask l n \<noteq> 0) = (\<exists>j<32. l \<le> int j \<and> int j < n \<and> bit (bm ! i) j)"
        using False l n by (auto simp: u32_nonzero_iff bit_and_iff bit_first_mask)
      also have "\<dots> = (\<exists>k. 32 * int i + l \<le> int k \<and> int k < 32 * int i + min n 32 \<and> port_bit bm k)"
        (is "?A = ?B")
      proof
        assume ?A
        then obtain j where "j < 32" "l \<le> int j" "int j < n" "bit (bm ! i) j" by blast
        then show ?B using port_bit_word[OF il, of j] by (intro exI[of _ "32 * i + j"]) auto
      next
        assume ?B
        then obtain k where k: "32 * int i + l \<le> int k" "int k < 32 * int i + min n 32"
          "port_bit bm k" by blast
        define j where "j = k - 32 * i"
        have "k = 32 * i + j" "j < 32" "l \<le> int j" "int j < n" using k l by (auto simp: j_def)
        with k show ?A using port_bit_word[OF il, of j] by blast
      qed
      finally show ?thesis .
    qed
    have rest: "check_words bm (int i + 1) (n - 32) =
        Some (\<exists>k. 32 * int i + 32 \<le> int k \<and> int k < 32 * int i + n \<and> port_bit bm k)"
    proof (cases "n < 32")
      case True
      then show ?thesis by (auto simp: check_words.simps[of bm "int i + 1" "n - 32"])
    next
      case False
      with check_words_spec[of "int i + 1" "n - 32" bm] n show ?thesis by (simp add: add.commute)
    qed
    have "(\<exists>k. 32 * int i + l \<le> int k \<and> int k < 32 * int i + n \<and> port_bit bm k) =
        ((bm ! i AND first_mask l n \<noteq> 0) \<or>
         (\<exists>k. 32 * int i + 32 \<le> int k \<and> int k < 32 * int i + n \<and> port_bit bm k))"
    proof -
      have "32 * int i + l \<le> int k \<and> int k < 32 * int i + n \<longleftrightarrow>
          32 * int i + l \<le> int k \<and> int k < 32 * int i + min n 32 \<or>
          32 * int i + 32 \<le> int k \<and> int k < 32 * int i + n" for k
        using l by auto
      then show ?thesis unfolding w by blast
    qed
    then show ?thesis
      unfolding eq hi using False il rest by (simp add: base)
  qed
qed

section \<open>Permissions and registrar as sets of ports\<close>

definition io_inv :: "io_state \<Rightarrow> bool" where
  "io_inv s \<longleftrightarrow> length (io_bitmap s) = IO_BITMAP_SIZE + 1 \<and>
                length (ioport_registrar s) = IO_BITMAP_SIZE"

definition region :: "u32 \<Rightarrow> u32 \<Rightarrow> nat set" where
  "region from num = {unat from ..< unat from + unat num}"

lemma fills_ports:
  assumes "fills bm bm' lo hi v" "0 \<le> lo"
  shows "ports bm' = (if v then ports bm \<union> {nat lo ..< nat hi} else ports bm - {nat lo ..< nat hi})"
  using assms by (auto simp: fills_def ports_def)

lemma sint_ucast_short:
  assumes "unat (w :: u32) < 2 ^ 15"
  shows "sint (ucast w :: u16) = uint w"
proof -
  have "unat w < 32768" using assms by simp
  then have "uint w < 32768" unfolding uint_nat by linarith
  moreover have "- 32768 \<le> uint w" by (rule order_trans[OF _ uint_ge_0]) simp
  ultimately show ?thesis by (simp add: signed_ucast_eq signed_take_bit_int_eq_self)
qed

lemma uint_sum_le: "unat a + unat b \<le> n \<longleftrightarrow> uint a + uint b \<le> int n"
  unfolding uint_nat by linarith

lemma uint_sum_less: "unat a + unat b < n \<longleftrightarrow> uint a + uint b < int n"
  unfolding uint_nat by linarith

lemma region_iff: "k \<in> region a n \<longleftrightarrow> uint a \<le> int k \<and> int k < uint a + uint n"
  unfolding region_def uint_nat atLeastLessThan_iff by linarith

lemma set_bitmap_ports:
  assumes "unat from + unat num \<le> 32 * length bm" "unat from + unat num < 2 ^ 15"
  shows "\<exists>bm'. set_bitmap bm (ucast (from :: u32)) (ucast (num :: u32)) v = Some bm' \<and>
           length bm' = length bm \<and>
           ports bm' = (if v then ports bm \<union> region from num else ports bm - region from num)"
proof -
  have s: "sint (ucast from :: u16) = uint from" "sint (ucast num :: u16) = uint num"
    using assms(2) by (auto intro!: sint_ucast_short)
  obtain bm' where bm': "set_bitmap bm (ucast from) (ucast num) v = Some bm'"
    "fills bm bm' (uint from) (uint from + uint num) v"
    using set_bitmap_fills[of "ucast from" "ucast num" bm v] assms(1) by (auto simp: s uint_sum_le)
  have "{nat (uint from) ..< nat (uint from + uint num)} = region from num"
    unfolding region_def uint_nat of_nat_add[symmetric] nat_int ..
  with bm' fills_ports[OF bm'(2)] show ?thesis
    by (auto simp: fills_def)
qed

lemma check_bitmap_ports:
  assumes "unat from + unat num \<le> 32 * length bm" "unat from + unat num < 2 ^ 15"
  shows "check_bitmap bm (ucast (from :: u32)) (ucast (num :: u32)) =
           Some (ports bm \<inter> region from num \<noteq> {})"
proof -
  have s: "sint (ucast from :: u16) = uint from" "sint (ucast num :: u16) = uint num"
    using assms(2) by (auto intro!: sint_ucast_short)
  have "check_bitmap bm (ucast from) (ucast num) =
      Some (\<exists>k. uint from \<le> int k \<and> int k < uint from + uint num \<and> port_bit bm k)"
    using check_bitmap_spec[of "ucast from" "ucast num" bm] assms(1) by (simp add: s uint_sum_le)
  then show ?thesis by (auto simp: region_iff ports_def)
qed

lemma unat_add_nowrap:
  "unat (a :: u32) + unat b < 2 ^ 32 \<Longrightarrow> unat (a + b) = unat a + unat b"
  by (simp add: unat_word_ariths)

lemma unat_add_wrap:
  assumes "\<not> unat (a :: u32) + unat b < 2 ^ 32"
  shows "unat (a + b) \<le> unat a"
proof -
  have "unat a < 2 ^ 32" "unat b < 2 ^ 32"
    using unsigned_less[of a] unsigned_less[of b] by simp_all
  with assms show ?thesis by (simp add: unat_word_ariths le_mod_geq)
qed

lemma clip_region_spec:
  assumes "unat fr + unat num < 2 ^ 32" "unat fr \<le> 1024"
  shows "unat fr + unat (clip_region fr num) \<le> 1024"
    and "region fr (clip_region fr num) = region fr num \<inter> {..<1024}"
proof -
  have c: "unat (clip_region fr num) = (if unat fr + unat num > 1024 then 1024 - unat fr else unat num)"
    using assms unat_add_nowrap[OF assms(1)] unat_sub[of fr 1024]
    by (auto simp: clip_region_def IO_BITMAP_SIZE_def word_less_nat_alt word_le_nat_alt)
  show "unat fr + unat (clip_region fr num) \<le> 1024" using assms by (auto simp: c)
  show "region fr (clip_region fr num) = region fr num \<inter> {..<1024}"
    using assms by (auto simp: c region_def)
qed

text \<open>
  The interface drivers use: \<^verbatim>\<open>check_region\<close> before probing, \<^verbatim>\<open>snarf_region\<close>
  once the hardware is found (\<^verbatim>\<open>include/linux/ioport.h\<close>).
\<close>

locale port_registrar =
  fixes snarf :: "'s \<Rightarrow> u32 \<Rightarrow> u32 \<Rightarrow> 's option"
    and busy :: "'s \<Rightarrow> u32 \<Rightarrow> u32 \<Rightarrow> bool option"
    and claimed :: "'s \<Rightarrow> nat set"
    and ok :: "'s \<Rightarrow> bool"
    and limit :: nat
  assumes snarf_spec: "ok s \<Longrightarrow> unat a + unat n < 2 ^ 32 \<Longrightarrow>
      \<exists>s'. snarf s a n = Some s' \<and> ok s' \<and> claimed s' = claimed s \<union> (region a n \<inter> {..<limit})"
    and busy_spec: "ok s \<Longrightarrow> unat a + unat n < 2 ^ 32 \<Longrightarrow>
      busy s a n = Some (claimed s \<inter> region a n \<noteq> {})"
begin

fun snarf_all :: "'s \<Rightarrow> (u32 \<times> u32) list \<Rightarrow> 's option" where
  "snarf_all s [] = Some s"
| "snarf_all s ((a, n) # rs) = Option.bind (snarf s a n) (\<lambda>s'. snarf_all s' rs)"

lemma snarf_all_spec:
  assumes "ok s" "\<forall>(a, n) \<in> set rs. unat a + unat n < 2 ^ 32"
  shows "\<exists>s'. snarf_all s rs = Some s' \<and> ok s' \<and>
           claimed s' = claimed s \<union> (\<Union>(a, n) \<in> set rs. region a n \<inter> {..<limit})"
  using assms
proof (induction rs arbitrary: s)
  case (Cons r rs)
  obtain a n where r: "r = (a, n)" by (cases r)
  from Cons.prems r snarf_spec[of s a n] obtain s1
    where s1: "snarf s a n = Some s1" "ok s1" "claimed s1 = claimed s \<union> (region a n \<inter> {..<limit})"
    by auto
  with Cons.IH[of s1] Cons.prems show ?case by (auto simp: r)
qed simp

text \<open>A reserved region stays visible: any later probe that overlaps it is refused.\<close>

lemma snarf_all_busy:
  assumes "ok s" "\<forall>(a, n) \<in> set rs. unat a + unat n < 2 ^ 32" "snarf_all s rs = Some s'"
    and "(a, n) \<in> set rs" "unat b + unat m < 2 ^ 32" "region a n \<inter> region b m \<inter> {..<limit} \<noteq> {}"
  shows "busy s' b m = Some True"
  using snarf_all_spec[OF assms(1,2)] assms(3-) busy_spec[of s' b m] by auto

end

lemma snarf_region_spec:
  assumes "io_inv s" "unat a + unat n < 2 ^ 32"
  shows "\<exists>s'. snarf_region s a n = Some s' \<and> io_inv s' \<and> io_bitmap s' = io_bitmap s \<and>
    ports (ioport_registrar s') = ports (ioport_registrar s) \<union> (region a n \<inter> {..<1024})"
proof (cases "unat a \<le> 1024")
  case True
  note c = clip_region_spec[OF assms(2) True]
  have "\<exists>bm'. set_bitmap (ioport_registrar s) (ucast a) (ucast (clip_region a n)) True = Some bm' \<and>
      length bm' = length (ioport_registrar s) \<and>
      ports bm' = ports (ioport_registrar s) \<union> (region a n \<inter> {..<1024})"
    using set_bitmap_ports[of a "clip_region a n" "ioport_registrar s" True] c assms(1)
    by (simp add: io_inv_def IO_BITMAP_SIZE_def)
  with True assms(1) show ?thesis
    by (auto simp: snarf_region_def io_inv_def IO_BITMAP_SIZE_def word_less_nat_alt)
next
  case False
  then have "region a n \<inter> {..<1024} = {}" by (auto simp: region_def)
  with False assms(1) show ?thesis
    by (simp add: snarf_region_def IO_BITMAP_SIZE_def word_less_nat_alt)
qed

lemma check_region_spec:
  assumes "io_inv s" "unat a + unat n < 2 ^ 32"
  shows "check_region s a n = Some (ports (ioport_registrar s) \<inter> region a n \<noteq> {})"
proof -
  have lim: "ports (ioport_registrar s) \<subseteq> {..<1024}"
    using assms(1) by (auto simp: ports_def port_bit_def io_inv_def IO_BITMAP_SIZE_def)
  show ?thesis
  proof (cases "unat a \<le> 1024")
    case True
    note c = clip_region_spec[OF assms(2) True]
    have "check_bitmap (ioport_registrar s) (ucast a) (ucast (clip_region a n)) =
        Some (ports (ioport_registrar s) \<inter> region a n \<noteq> {})"
      using check_bitmap_ports[of a "clip_region a n" "ioport_registrar s"] c assms(1) lim
      by (auto simp: io_inv_def IO_BITMAP_SIZE_def)
    with True show ?thesis
      by (simp add: check_region_def IO_BITMAP_SIZE_def word_less_nat_alt)
  next
    case False
    with lim have "ports (ioport_registrar s) \<inter> region a n = {}" by (auto simp: region_def)
    with False show ?thesis
      by (simp add: check_region_def IO_BITMAP_SIZE_def word_less_nat_alt)
  qed
qed

interpretation ioreg: port_registrar snarf_region check_region "\<lambda>s. ports (ioport_registrar s)" io_inv 1024
proof
  fix s a n
  assume "io_inv s" "unat (a :: u32) + unat (n :: u32) < 2 ^ 32"
  then show "\<exists>s'. snarf_region s a n = Some s' \<and> io_inv s' \<and>
      ports (ioport_registrar s') = ports (ioport_registrar s) \<union> (region a n \<inter> {..<1024})"
    using snarf_region_spec by blast
  from \<open>io_inv s\<close> \<open>unat a + unat n < 2 ^ 32\<close>
  show "check_region s a n = Some (ports (ioport_registrar s) \<inter> region a n \<noteq> {})"
    by (rule check_region_spec)
qed

section \<open>Boot-time reservations\<close>

fun flat :: "(int \<times> int) list \<Rightarrow> int list" where
  "flat [] = []"
| "flat ((a, n) # rs) = a # n # flat rs"

lemma length_flat [simp]: "length (flat rs) = 2 * length rs"
  by (induction rs rule: flat.induct) auto

lemma nth_flat:
  "j < length rs \<Longrightarrow> flat rs ! (2 * j) = fst (rs ! j) \<and> flat rs ! Suc (2 * j) = snd (rs ! j)"
proof (induction rs arbitrary: j rule: flat.induct)
  case (2 a n rs)
  then show ?case by (cases j) auto
qed simp

definition word_pair :: "int \<times> int \<Rightarrow> u32 \<times> u32" where
  "word_pair r = (word_of_int (fst r), word_of_int (snd r))"

lemma reserve_loop_snarf_all:
  "j \<le> length rs \<Longrightarrow>
   reserve_loop s (c # flat rs) (int (2 * length rs)) (1 + 2 * int j) =
   ioreg.snarf_all s (map word_pair (drop j rs))"
proof (induction "length rs - j" arbitrary: j s)
  case 0
  then show ?case by (simp add: reserve_loop.simps[of s _ _ "1 + 2 * int j"])
next
  case (Suc d)
  then have j: "j < length rs" by linarith
  have n1: "nat (1 + 2 * int j) = Suc (2 * j)" "nat (2 + 2 * int j) = Suc (Suc (2 * j))" by simp_all
  have step: "cell_get (c # flat rs) (1 + 2 * int j) = Some (fst (rs ! j))"
    "cell_get (c # flat rs) (2 + 2 * int j) = Some (snd (rs ! j))"
    using j nth_flat[OF j] by (simp_all add: n1)
  have IH: "reserve_loop s' (c # flat rs) (int (2 * length rs)) (3 + 2 * int j) =
      ioreg.snarf_all s' (map word_pair (drop (Suc j) rs))" for s'
    using Suc.hyps(1)[of "Suc j" s'] Suc.hyps(2) j by (simp add: algebra_simps)
  show ?case
    using j step IH
    by (simp add: reserve_loop.simps[of s _ _ "1 + 2 * int j"] word_pair_def
          Cons_nth_drop_Suc[OF j, symmetric] add.commute add.left_commute)
qed

lemma region_word_pair:
  "0 \<le> a \<Longrightarrow> 0 \<le> n \<Longrightarrow> a + n < 2 ^ 31 \<Longrightarrow>
   region (word_of_int a) (word_of_int n) = {nat a ..< nat (a + n)} \<and>
   unat (word_of_int a :: u32) + unat (word_of_int n :: u32) < 2 ^ 32"
  by (simp add: region_def unsigned_of_int take_bit_int_eq_self nat_add_distrib)

section \<open>Properties\<close>

text \<open>
  \<^verbatim>\<open>set_bitmap\<close> stays inside the bitmap and gives exactly the \<open>extent\<close> bits from
  \<open>base\<close> the new value, for every alignment of the range with the 32-bit words; no other bit
  changes.
\<close>

lemma set_bitmap_exact:
  assumes "0 \<le> sint base" "0 \<le> sint extent"
    "sint base + sint extent \<le> 32 * int (length bm)"
  shows "\<exists>bm'. set_bitmap bm base extent v = Some bm' \<and> length bm' = length bm \<and>
    (\<forall>k < 32 * length bm. bit (bm' ! (k div 32)) (k mod 32) =
      (if sint base \<le> int k \<and> int k < sint base + sint extent then v
       else bit (bm ! (k div 32)) (k mod 32)))"
proof -
  from set_bitmap_fills[OF assms, of v] obtain bm' where "set_bitmap bm base extent v = Some bm'"
    and f: "fills bm bm' (sint base) (sint base + sint extent) v" by blast
  moreover have "bit (bm' ! (k div 32)) (k mod 32) = port_bit bm' k"
    "bit (bm ! (k div 32)) (k mod 32) = port_bit bm k" if "k < 32 * length bm" for k
    using that f by (simp_all add: port_bit_def fills_def)
  ultimately show ?thesis using f by (simp add: fills_def)
qed

theorem set_bitmap_exact_witness:
  "\<exists>bm'. set_bitmap (replicate 3 0) 30 40 True = Some bm' \<and> length bm' = 3 \<and>
    (\<forall>k < 96. bit (bm' ! (k div 32)) (k mod 32) = (30 \<le> int k \<and> int k < 70))"
proof -
  have "replicate 3 (0 :: u32) ! (k div 32) = 0" if "k < 96" for k
    using that by (intro nth_replicate) simp
  moreover obtain bm' where "set_bitmap (replicate 3 0) 30 40 True = Some bm'" "length bm' = 3"
    "\<forall>k < 96. bit (bm' ! (k div 32)) (k mod 32) =
      (if 30 \<le> int k \<and> int k < 70 then True else bit (replicate 3 (0 :: u32) ! (k div 32)) (k mod 32))"
    using set_bitmap_exact[of 30 40 "replicate 3 0" True] by auto
  ultimately show ?thesis by (intro exI[of _ bm']) auto
qed

text \<open>
  C40. \<^verbatim>\<open>ioperm\<close>: an empty or too high range is \<^verbatim>\<open>EINVAL\<close> (also when
  \<^verbatim>\<open>from + num\<close> wraps around), an unprivileged caller gets \<^verbatim>\<open>EPERM\<close>, and
  otherwise exactly the ports of the range are opened (their bits cleared) or closed (set) in
  the task's bitmap, the registrar being untouched.
\<close>

theorem sys_ioperm_exact:
  assumes "io_inv s"
  shows "if unat num = 0 \<or> unat from + unat num > 1024
         then sys_ioperm s from num turn_on = Some (Inl EINVAL)
         else if io_euid s \<noteq> 0 then sys_ioperm s from num turn_on = Some (Inl EPERM)
         else (\<exists>s'. sys_ioperm s from num turn_on = Some (Inr s') \<and> io_inv s' \<and>
                 ioport_registrar s' = ioport_registrar s \<and>
                 ports (io_bitmap s') = (if turn_on then ports (io_bitmap s) - region from num
                                         else ports (io_bitmap s) \<union> region from num))"
proof (cases "unat num = 0 \<or> unat from + unat num > 1024")
  case True
  then have "from + num \<le> from \<or> from + num > 1024"
    by (cases "unat from + unat num < 2 ^ 32")
       (auto simp: word_le_nat_alt word_less_nat_alt unat_add_nowrap unat_add_wrap)
  with True show ?thesis by (auto simp: sys_ioperm_def IO_BITMAP_SIZE_def)
next
  case False
  then have u: "unat (from + num) = unat from + unat num" by (intro unat_add_nowrap) simp
  with False have c: "\<not> from + num \<le> from" "\<not> from + num > 1024"
    by (auto simp: word_le_nat_alt word_less_nat_alt)
  show ?thesis
    using False c assms set_bitmap_ports[of "from" num "io_bitmap s" "\<not> turn_on"]
    by (auto simp: sys_ioperm_def IO_BITMAP_SIZE_def io_inv_def)
qed

theorem sys_ioperm_exact_witness:
  "\<exists>s'. sys_ioperm \<lparr>io_euid = 0, io_bitmap = replicate 33 (- 1), ioport_registrar = replicate 32 0\<rparr>
           0x3f8 8 True = Some (Inr s') \<and>
         ports (io_bitmap s') = ports (replicate 33 (- 1)) - region 0x3f8 8"
proof -
  define s where "s = \<lparr>io_euid = 0, io_bitmap = replicate 33 (- 1), ioport_registrar = replicate 32 0\<rparr>"
  have s: "io_inv s" "io_euid s = 0" "io_bitmap s = replicate 33 (- 1)"
    by (simp_all add: s_def io_inv_def IO_BITMAP_SIZE_def)
  show ?thesis using sys_ioperm_exact[OF s(1), of 8 "0x3f8" True] s(2,3)
    unfolding s_def[symmetric] by auto
qed

text \<open>
  Reservations given at boot time are honoured: \<^verbatim>\<open>reserve_setup\<close> never leaves its
  arrays, claims exactly the listed regions (as far as they lie below port 0x400), and
  afterwards \<^verbatim>\<open>check_region\<close> reports any range busy that meets a claimed port, and free
  any other.
\<close>

lemma reserve_setup_claims:
  assumes "io_inv s" "\<forall>(a, n) \<in> set rs. 0 \<le> a \<and> 0 \<le> n \<and> a + n < 2 ^ 31"
  shows "\<exists>s'. reserve_setup s (int (2 * length rs) # flat rs) = Some s' \<and>
    ports (ioport_registrar s') = ports (ioport_registrar s) \<union>
      (\<Union>(a, n) \<in> set rs. {nat a ..< nat (a + n)} \<inter> {..<1024}) \<and>
    (\<forall>b m. unat b + unat m < 2 ^ 32 \<longrightarrow>
       check_region s' b m = Some (ports (ioport_registrar s') \<inter> {unat b ..< unat b + unat m} \<noteq> {}))"
proof -
  have w: "\<forall>(a, n) \<in> set (map word_pair rs). unat a + unat n < 2 ^ 32"
    using assms(2) region_word_pair by (fastforce simp: word_pair_def)
  have reg: "(\<Union>(a, n) \<in> set (map word_pair rs). region a n \<inter> {..<1024}) =
      (\<Union>(a, n) \<in> set rs. {nat a ..< nat (a + n)} \<inter> {..<1024})"
    unfolding set_map image_image split_def
    by (rule SUP_cong[OF refl])
       (use assms(2) region_word_pair in \<open>auto simp: word_pair_def split_def\<close>)
  from ioreg.snarf_all_spec[OF assms(1) w] obtain s' where
    "ioreg.snarf_all s (map word_pair rs) = Some s'" and ok: "io_inv s'"
    "ports (ioport_registrar s') = ports (ioport_registrar s) \<union>
      (\<Union>(a, n) \<in> set rs. {nat a ..< nat (a + n)} \<inter> {..<1024})"
    unfolding reg by blast
  moreover have "reserve_setup s (int (2 * length rs) # flat rs) = ioreg.snarf_all s (map word_pair rs)"
    using reserve_loop_snarf_all[of 0 rs s] by (simp add: reserve_setup_def)
  moreover have "\<forall>b m. unat b + unat m < 2 ^ 32 \<longrightarrow>
      check_region s' b m = Some (ports (ioport_registrar s') \<inter> {unat b ..< unat b + unat m} \<noteq> {})"
    using ioreg.busy_spec[OF ok(1)] unfolding region_def by blast
  ultimately show ?thesis by (intro exI[of _ s']) simp
qed

theorem reserve_setup_claims_witness:
  "\<exists>s'. reserve_setup \<lparr>io_euid = 0, io_bitmap = replicate 33 0, ioport_registrar = replicate 32 0\<rparr>
           [2, 0x300, 32] = Some s' \<and> check_region s' 0x31f 4 = Some True"
proof -
  define s where "s = \<lparr>io_euid = 0, io_bitmap = replicate 33 0, ioport_registrar = replicate 32 0\<rparr>"
  have s: "io_inv s" by (simp add: s_def io_inv_def IO_BITMAP_SIZE_def)
  obtain s' where s': "reserve_setup s [2, 0x300, 32] = Some s'"
    "ports (ioport_registrar s') = ports (ioport_registrar s) \<union> {0x300 ..< 0x320} \<inter> {..<1024}"
    "check_region s' 0x31f 4 = Some (ports (ioport_registrar s') \<inter> {0x31f ..< 0x323} \<noteq> {})"
    using reserve_setup_claims[OF s, of "[(0x300, 32)]"] by auto
  have "(0x31f :: nat) \<in> ports (ioport_registrar s') \<inter> {0x31f ..< 0x323}" by (simp add: s'(2))
  then have "ports (ioport_registrar s') \<inter> {0x31f ..< 0x323} \<noteq> {}" by blast
  with s' show ?thesis unfolding s_def[symmetric] by simp
qed

end
