(* ===== verification/Uaccess.thy ===== *)
theory Uaccess
  imports Errno
begin

text \<open>
  What every system call shares: the range check of user addresses
  (\<^verbatim>\<open>verify_area\<close> in \<^verbatim>\<open>include/linux/mm.h\<close>) and the file-mode bits of
  \<^verbatim>\<open>include/linux/stat.h\<close>.
\<close>

section \<open>Address space constants\<close>

definition TASK_SIZE :: u32 where
  [kconst]: "TASK_SIZE = 0xc0000000"

definition PAGE_SHIFT :: nat where
  [kconst]: "PAGE_SHIFT = 12"

definition PAGE_SIZE :: u32 where
  [kconst]: "PAGE_SIZE = push_bit PAGE_SHIFT 1"

definition PAGE_MASK :: u32 where
  "PAGE_MASK = NOT (PAGE_SIZE - 1)"

definition PAGE_ALIGN :: "u32 \<Rightarrow> u32" where
  "PAGE_ALIGN addr = (addr + PAGE_SIZE - 1) AND PAGE_MASK"

datatype verify_type = VERIFY_READ | VERIFY_WRITE

text \<open>
  \<^verbatim>\<open>wp_works_ok\<close> says whether the processor honours write protection in kernel mode;
  where it does not, \<^verbatim>\<open>__verify_write\<close> walks the page tables: it is the argument
  \<open>verify_write\<close>. The result is \<^const>\<open>None\<close> for \<^verbatim>\<open>0\<close>.
\<close>

definition verify_area ::
  "bool \<Rightarrow> (u32 \<Rightarrow> u32 \<Rightarrow> errno option) \<Rightarrow> verify_type \<Rightarrow> u32 \<Rightarrow> u32 \<Rightarrow> errno option" where
  "verify_area wp_works_ok verify_write type addr sz =
     (if TASK_SIZE \<le> addr then Some EFAULT
      else if sz > TASK_SIZE - addr then Some EFAULT
      else if wp_works_ok \<or> type = VERIFY_READ \<or> sz = 0 then None
      else verify_write addr sz)"

text \<open>An accepted range lies below the kernel: no wrap-around lets it reach kernel memory.\<close>

lemma verify_area_range:
  assumes "verify_area wp vw t addr sz = None"
  shows "unat addr + unat sz \<le> unat TASK_SIZE"
proof -
  have a: "addr < TASK_SIZE" "\<not> sz > TASK_SIZE - addr"
    using assms by (auto simp: verify_area_def not_le split: if_splits)
  then have "unat (TASK_SIZE - addr) = unat TASK_SIZE - unat addr"
    by (intro unat_sub) simp
  with a show ?thesis by (simp add: word_less_nat_alt)
qed

section \<open>File modes\<close>

definition S_IFMT :: u16 where [kconst]: "S_IFMT = 0xf000"
definition S_IFREG :: u16 where [kconst]: "S_IFREG = 0x8000"
definition S_IRWXUGO :: u16 where [kconst]: "S_IRWXUGO = 0x1ff"
definition S_IRUGO :: u16 where [kconst]: "S_IRUGO = 0x124"
definition S_IWUGO :: u16 where [kconst]: "S_IWUGO = 0x92"

definition S_ISREG :: "u16 \<Rightarrow> bool" where
  "S_ISREG m \<longleftrightarrow> m AND S_IFMT = S_IFREG"

end
