(* ===== verification/File_Locks.thy ===== *)
theory File_Locks
  imports Uaccess
begin

text \<open>
  Record locks (\<^verbatim>\<open>fs/locks.c\<close>). The locks of an inode are the list
  \<^verbatim>\<open>i_flock\<close>, grouped by owner and sorted by start within a group; unused table
  entries are on \<^verbatim>\<open>file_lock_free_list\<close>. A linked list is a HOL list in link order, a
  pointer into it an index, and a pointer to a pointer (\<^verbatim>\<open>before\<close>) a split of the list.
\<close>

section \<open>Data\<close>

text \<open>
  \<open>fl_owner\<close> names a task (\<^const>\<open>None\<close> is the NULL of a free entry), \<open>fl_wait\<close>
  the tasks sleeping on the lock.
\<close>

record file_lock =
  fl_owner :: "nat option"
  fl_fd :: u32
  fl_wait :: "nat list"
  fl_type :: int
  fl_whence :: int
  fl_start :: int
  fl_end :: int

record flock =
  l_type :: int
  l_whence :: int
  l_start :: int
  l_len :: int
  l_pid :: int

abbreviation (input) "F_RDLCK \<equiv> (0 :: int)"
abbreviation (input) "F_WRLCK \<equiv> (1 :: int)"
abbreviation (input) "F_UNLCK \<equiv> (2 :: int)"
abbreviation (input) "F_EXLCK \<equiv> (4 :: int)"
abbreviation (input) "F_SHLCK \<equiv> (8 :: int)"
abbreviation (input) "F_SETLKW \<equiv> (7 :: u32)"

definition OFFSET_MAX :: int where
  [kconst]: "OFFSET_MAX = 0x7fffffff"

definition NR_OPEN :: u32 where
  [kconst]: "NR_OPEN = 256"

definition NR_FILE_LOCKS :: nat where
  [kconst]: "NR_FILE_LOCKS = 64"

record lk_inode =
  i_mode :: u16
  i_size :: int
  i_flock :: "file_lock list"

record lk_file =
  f_mode :: u16
  f_pos :: int
  f_inode :: "nat option"

record lk_task =
  tk_self :: nat
  tk_filp :: "u32 \<Rightarrow> lk_file option"
  tk_signal :: u32
  tk_blocked :: u32

text \<open>\<open>lk_woken\<close> records the tasks that \<^verbatim>\<open>wake_up\<close> was called on, in order.\<close>

record lk_state =
  lk_inode :: "nat \<Rightarrow> lk_inode"
  file_lock_free_list :: "file_lock list"
  lk_woken :: "nat list"

section \<open>Helpers of the list\<close>

definition blank_lock :: file_lock where
  "blank_lock = \<lparr>fl_owner = None, fl_fd = 0, fl_wait = [], fl_type = 0, fl_whence = 0,
                 fl_start = 0, fl_end = 0\<rparr>"

text \<open>A lock of task \<open>t\<close> on descriptor 3, for concrete lists.\<close>

definition example_lock :: "nat \<Rightarrow> int \<Rightarrow> int \<Rightarrow> int \<Rightarrow> file_lock" where
  "example_lock t ty s e = \<lparr>fl_owner = Some t, fl_fd = 3, fl_wait = [], fl_type = ty, fl_whence = 0,
                            fl_start = s, fl_end = e\<rparr>"

definition fcntl_init_locks :: "lk_state \<Rightarrow> lk_state" where
  "fcntl_init_locks s = s\<lparr>file_lock_free_list := replicate NR_FILE_LOCKS blank_lock\<rparr>"

definition overlap :: "file_lock \<Rightarrow> file_lock \<Rightarrow> bool" where
  "overlap fl1 fl2 \<longleftrightarrow> fl_end fl1 \<ge> fl_start fl2 \<and> fl_end fl2 \<ge> fl_start fl1"

definition same_owner :: "file_lock \<Rightarrow> file_lock \<Rightarrow> bool" where
  "same_owner a b \<longleftrightarrow> fl_owner a = fl_owner b \<and> fl_fd a = fl_fd b"

definition conflict :: "file_lock \<Rightarrow> file_lock \<Rightarrow> bool" where
  "conflict caller_fl sys_fl =
     (if same_owner caller_fl sys_fl then False
      else if \<not> overlap caller_fl sys_fl then False
      else if fl_type caller_fl = F_RDLCK then fl_type sys_fl \<noteq> F_RDLCK
      else if fl_type caller_fl = F_WRLCK then True
      else False)"

text \<open>
  \<^verbatim>\<open>copy_flock\<close>: \<^const>\<open>None\<close> for a return of 0. \<^verbatim>\<open>off_t\<close> arithmetic wraps
  at 32 bits.
\<close>

definition copy_flock :: "lk_state \<Rightarrow> lk_task \<Rightarrow> lk_file \<Rightarrow> flock \<Rightarrow> u32 \<Rightarrow> file_lock option" where
  "copy_flock s current filp l fd =
     (case f_inode filp of
        None \<Rightarrow> None
      | Some ino \<Rightarrow>
          if \<not> S_ISREG (i_mode (lk_inode s ino)) then None
          else if l_type l \<noteq> F_UNLCK \<and> l_type l \<noteq> F_RDLCK \<and> l_type l \<noteq> F_WRLCK
                  \<and> l_type l \<noteq> F_SHLCK \<and> l_type l \<noteq> F_EXLCK then None
          else
            (case (if l_whence l = 0 then Some 0
                   else if l_whence l = 1 then Some (f_pos filp)
                   else if l_whence l = 2 then Some (i_size (lk_inode s ino))
                   else None) of
               None \<Rightarrow> None
             | Some start0 \<Rightarrow>
                 let start = wrap32 (start0 + l_start l) in
                 if start < 0 \<or> l_len l < 0 then None
                 else Some \<lparr>fl_owner = Some (tk_self current), fl_fd = fd, fl_wait = [],
                            fl_type = l_type l, fl_whence = 0, fl_start = start,
                            fl_end = (if l_len l = 0 \<or> wrap32 (start + l_len l - 1) < 0
                                      then OFFSET_MAX else wrap32 (start + l_len l - 1))\<rparr>))"

text \<open>
  \<^verbatim>\<open>alloc_lock\<close> takes the head of the free list; the insertion at \<^verbatim>\<open>*pos\<close> is done
  by the caller of this definition. The outer option is the \<^verbatim>\<open>panic\<close> of a broken list.
\<close>

definition alloc_lock ::
  "nat \<Rightarrow> u32 \<Rightarrow> file_lock list \<Rightarrow> file_lock \<Rightarrow> (file_lock \<times> file_lock list) option option" where
  "alloc_lock current fd free fl =
     (case free of
        [] \<Rightarrow> Some None
      | tmp # free' \<Rightarrow>
          if fl_owner tmp \<noteq> None then None
          else Some (Some (fl\<lparr>fl_owner := Some current, fl_fd := fd, fl_wait := []\<rparr>, free')))"

text \<open>
  \<^verbatim>\<open>free_lock\<close>: the entry goes to the free list without an owner and its sleepers are
  woken. The result is the new free list and the tasks woken.
\<close>

definition free_lock :: "file_lock list \<Rightarrow> file_lock \<Rightarrow> (file_lock list \<times> nat list) option" where
  "free_lock free fl =
     (if fl_owner fl = None then None
      else Some (fl\<lparr>fl_owner := None\<rparr> # free, fl_wait fl))"

section \<open>Adding and removing a lock\<close>

text \<open>
  The local variables of \<^verbatim>\<open>lock_it\<close>. The inode's list is \<open>lc_pre @ lc_rest\<close>, split
  where \<^verbatim>\<open>before\<close> points. \<open>lc_caller\<close> is what \<^verbatim>\<open>caller\<close> points to; when it has
  been redirected to an entry of the list, \<open>lc_cpos\<close> is the index of that entry, so that a
  write through \<^verbatim>\<open>caller\<close> is a write to the list (\<open>put_caller\<close>). \<open>lc_left\<close> and
  \<open>lc_right\<close> are the indices the two pointers of these names point at.
\<close>

record lock_ctx =
  lc_pre :: "file_lock list"
  lc_rest :: "file_lock list"
  lc_caller :: file_lock
  lc_cpos :: "nat option"
  lc_left :: "nat option"
  lc_right :: "nat option"
  lc_added :: bool
  lc_free :: "file_lock list"
  lc_woken :: "nat list"

definition put_caller :: "file_lock \<Rightarrow> lock_ctx \<Rightarrow> lock_ctx" where
  "put_caller c x =
     x\<lparr>lc_caller := c,
       lc_pre := (case lc_cpos x of None \<Rightarrow> lc_pre x | Some i \<Rightarrow> (lc_pre x)[i := c])\<rparr>"

text \<open>\<open>next_lock:\<close> moves \<^verbatim>\<open>before\<close> past \<open>fl\<close>; \<open>drop_lock\<close> is \<^verbatim>\<open>free_lock(before)\<close>.\<close>

definition next_lock :: "file_lock \<Rightarrow> file_lock list \<Rightarrow> lock_ctx \<Rightarrow> lock_ctx" where
  "next_lock fl fls x = x\<lparr>lc_pre := lc_pre x @ [fl], lc_rest := fls\<rparr>"

definition drop_lock :: "file_lock \<Rightarrow> file_lock list \<Rightarrow> lock_ctx \<Rightarrow> lock_ctx option" where
  "drop_lock fl fls x =
     map_option (\<lambda>(free, w). x\<lparr>lc_rest := fls, lc_free := free, lc_woken := lc_woken x @ w\<rparr>)
       (free_lock (lc_free x) fl)"

text \<open>
  One round of the loop over the locks of the owner, for \<open>fl\<close> at \<^verbatim>\<open>*before\<close>: the new
  variables and whether the loop goes on (\<open>True\<close>) or is left by \<^verbatim>\<open>break\<close>.
\<close>

definition lock_round :: "file_lock \<Rightarrow> file_lock list \<Rightarrow> lock_ctx \<Rightarrow> (lock_ctx \<times> bool) option" where
  "lock_round fl fls x =
     (let c = lc_caller x in
      if fl_type c = fl_type fl then
        if fl_end fl < fl_start c - 1 then Some (next_lock fl fls x, True)
        else if fl_start fl > wrap32 (fl_end c + 1) then Some (x, False)
        else
          let (fl1, c1) = (if fl_start fl > fl_start c then (fl\<lparr>fl_start := fl_start c\<rparr>, c)
                           else (fl, c\<lparr>fl_start := fl_start fl\<rparr>));
              (fl2, c2) = (if fl_end fl1 < fl_end c1 then (fl1\<lparr>fl_end := fl_end c1\<rparr>, c1)
                           else (fl1, c1\<lparr>fl_end := fl_end fl1\<rparr>));
              x2 = put_caller c2 x
          in if lc_added x then map_option (\<lambda>y. (y, True)) (drop_lock fl2 fls x2)
             else Some ((next_lock fl2 fls x2)
                          \<lparr>lc_caller := fl2, lc_cpos := Some (length (lc_pre x2)), lc_added := True\<rparr>, True)
      else if fl_end fl < fl_start c then Some (next_lock fl fls x, True)
      else if fl_start fl > fl_end c then Some (x, False)
      else
        let x1 = (if fl_type c = F_UNLCK then x\<lparr>lc_added := True\<rparr> else x);
            x2 = (if fl_start fl < fl_start c then x1\<lparr>lc_left := Some (length (lc_pre x1))\<rparr> else x1)
        in if fl_end fl > fl_end c then Some (x2\<lparr>lc_right := Some (length (lc_pre x2))\<rparr>, False)
           else if fl_start fl \<ge> fl_start c then
             if lc_added x2 then map_option (\<lambda>y. (y, True)) (drop_lock fl fls x2)
             else
               let fl' = fl\<lparr>fl_start := fl_start c, fl_end := fl_end c, fl_type := fl_type c\<rparr>
               in Some ((next_lock fl' fls x2)
                          \<lparr>lc_woken := lc_woken x2 @ fl_wait fl, lc_caller := fl',
                           lc_cpos := Some (length (lc_pre x2)), lc_added := True\<rparr>, True)
           else Some (next_lock fl fls x2, True))"

text \<open>The loop: \<open>fls\<close> is always \<open>lc_rest\<close> of the variables.\<close>

primrec lock_loop :: "file_lock list \<Rightarrow> lock_ctx \<Rightarrow> lock_ctx option" where
  "lock_loop [] x = Some x"
| "lock_loop (fl # fls) x =
     (if same_owner (lc_caller x) fl
      then (case lock_round fl fls x of
              None \<Rightarrow> None
            | Some (y, go_on) \<Rightarrow> if go_on then lock_loop fls y else Some y)
      else Some x)"

definition insert_at :: "nat \<Rightarrow> 'a \<Rightarrow> 'a list \<Rightarrow> 'a list" where
  "insert_at i v xs = take i xs @ v # drop i xs"

definition remove_at :: "nat \<Rightarrow> 'a list \<Rightarrow> 'a list" where
  "remove_at i xs = take i xs @ drop (Suc i) xs"

text \<open>An index after an insertion at \<open>b\<close>.\<close>

definition shift_at :: "nat \<Rightarrow> nat \<Rightarrow> nat" where
  "shift_at b i = (if b \<le> i then Suc i else i)"

definition trim_left :: "nat option \<Rightarrow> file_lock \<Rightarrow> file_lock list \<Rightarrow> file_lock list" where
  "trim_left left c xs =
     (case left of None \<Rightarrow> xs | Some l \<Rightarrow> xs[l := (xs ! l)\<lparr>fl_end := fl_start c - 1\<rparr>])"

definition trim_right :: "nat \<Rightarrow> file_lock \<Rightarrow> file_lock list \<Rightarrow> file_lock list" where
  "trim_right r c xs = xs[r := (xs ! r)\<lparr>fl_start := wrap32 (fl_end c + 1)\<rparr>]"

text \<open>The result of \<^verbatim>\<open>lock_it\<close>: its return value and the lists it leaves.\<close>

record lock_res =
  lr_err :: "errno option"
  lr_list :: "file_lock list"
  lr_free :: "file_lock list"
  lr_woken :: "nat list"

text \<open>Right of the loop: the new entry, unless an old one was reused.\<close>

definition lock_new ::
  "nat \<Rightarrow> u32 \<Rightarrow> lock_ctx \<Rightarrow>
   (errno + file_lock list \<times> file_lock \<times> nat option \<times> nat option \<times> file_lock list) option" where
  "lock_new current fd x =
     (let b = length (lc_pre x); L = lc_pre x @ lc_rest x in
      if lc_added x then Some (Inr (L, lc_caller x, lc_left x, lc_right x, lc_free x))
      else if fl_type (lc_caller x) = F_UNLCK then Some (Inl EINVAL)
      else (case alloc_lock current fd (lc_free x) (lc_caller x) of
              None \<Rightarrow> None
            | Some None \<Rightarrow> Some (Inl ENOLCK)
            | Some (Some (n, free)) \<Rightarrow>
                Some (Inr (insert_at b n L, n, map_option (shift_at b) (lc_left x),
                           map_option (shift_at b) (lc_right x), free))))"

definition lock_finish :: "nat \<Rightarrow> u32 \<Rightarrow> lock_ctx \<Rightarrow> lock_res option" where
  "lock_finish current fd x =
     (let b = length (lc_pre x) in
      case lock_new current fd x of
        None \<Rightarrow> None
      | Some (Inl e) \<Rightarrow>
          Some \<lparr>lr_err = Some e, lr_list = lc_pre x @ lc_rest x, lr_free = lc_free x,
                lr_woken = lc_woken x\<rparr>
      | Some (Inr (L, c, left, right, free)) \<Rightarrow>
          (case right of
             None \<Rightarrow> Some \<lparr>lr_err = None, lr_list = trim_left left c L, lr_free = free,
                           lr_woken = lc_woken x\<rparr>
           | Some r \<Rightarrow>
               if left = Some r
               then (case alloc_lock current fd free (L ! r) of
                       None \<Rightarrow> None
                     | Some None \<Rightarrow>
                         if lc_added x
                         then Some \<lparr>lr_err = Some ENOLCK, lr_list = L, lr_free = free,
                                    lr_woken = lc_woken x\<rparr>
                         else map_option (\<lambda>(free', w).
                                \<lparr>lr_err = Some ENOLCK, lr_list = remove_at b L, lr_free = free',
                                 lr_woken = lc_woken x @ w\<rparr>) (free_lock free (L ! b))
                     | Some (Some (l, free')) \<Rightarrow>
                         Some \<lparr>lr_err = None,
                               lr_list = trim_left (Some b) c (trim_right (Suc r) c (insert_at b l L)),
                               lr_free = free', lr_woken = lc_woken x\<rparr>)
               else Some \<lparr>lr_err = None, lr_list = trim_left left c (trim_right r c L),
                          lr_free = free, lr_woken = lc_woken x\<rparr>))"

definition lock_start :: "file_lock list \<Rightarrow> file_lock list \<Rightarrow> file_lock \<Rightarrow> lock_ctx" where
  "lock_start L free caller =
     \<lparr>lc_pre = takeWhile (\<lambda>fl. \<not> same_owner caller fl) L,
      lc_rest = dropWhile (\<lambda>fl. \<not> same_owner caller fl) L,
      lc_caller = caller, lc_cpos = None, lc_left = None, lc_right = None, lc_added = False,
      lc_free = free, lc_woken = []\<rparr>"

definition lock_it :: "nat \<Rightarrow> u32 \<Rightarrow> file_lock list \<Rightarrow> file_lock list \<Rightarrow> file_lock \<Rightarrow> lock_res option" where
  "lock_it current fd L free caller =
     Option.bind (lock_loop (lc_rest (lock_start L free caller)) (lock_start L free caller))
       (lock_finish current fd)"

section \<open>The fcntl entry points\<close>

text \<open>
  \<open>va\<close> is \<^verbatim>\<open>verify_area\<close> with its processor-dependent arguments fixed; \<open>flock0\<close>
  is the structure at the user address \<open>l\<close>. On success \<^verbatim>\<open>F_GETLK\<close> returns the
  structure it copies back.
\<close>

definition fcntl_getlk ::
  "(verify_type \<Rightarrow> u32 \<Rightarrow> u32 \<Rightarrow> errno option) \<Rightarrow> (nat \<Rightarrow> int) \<Rightarrow> lk_state \<Rightarrow> lk_task \<Rightarrow>
   u32 \<Rightarrow> u32 \<Rightarrow> flock \<Rightarrow> flock res" where
  "fcntl_getlk va pid s current fd l flock0 =
     (case (if fd \<ge> NR_OPEN then None else tk_filp current fd) of
        None \<Rightarrow> Inl EBADF
      | Some filp \<Rightarrow>
          (case va VERIFY_WRITE l 16 of
             Some e \<Rightarrow> Inl e
           | None \<Rightarrow>
               if l_type flock0 = F_UNLCK then Inl EINVAL
               else (case copy_flock s current filp flock0 fd of
                       None \<Rightarrow> Inl EINVAL
                     | Some file_lock \<Rightarrow>
                         (case find (conflict file_lock) (i_flock (lk_inode s (the (f_inode filp)))) of
                            Some fl \<Rightarrow>
                              Inr (flock0\<lparr>l_pid := pid (the (fl_owner fl)),
                                   l_start := fl_start fl,
                                   l_len := (if fl_end fl = OFFSET_MAX then 0
                                             else fl_end fl - fl_start fl + 1),
                                   l_whence := fl_whence fl,
                                   l_type := fl_type fl\<rparr>)
                          | None \<Rightarrow> Inr (flock0\<lparr>l_type := F_UNLCK\<rparr>)))))"

text \<open>The access check of \<^verbatim>\<open>F_SETLK\<close>, which also maps the \<^verbatim>\<open>flock()\<close> types.\<close>

definition setlk_access :: "u16 \<Rightarrow> file_lock \<Rightarrow> file_lock res" where
  "setlk_access mode fl =
     (if fl_type fl = F_RDLCK then if mode AND 1 = 0 then Inl EBADF else Inr fl
      else if fl_type fl = F_WRLCK then if mode AND 2 = 0 then Inl EBADF else Inr fl
      else if fl_type fl = F_SHLCK
        then if mode AND 3 = 0 then Inl EBADF else Inr (fl\<lparr>fl_type := F_RDLCK\<rparr>)
      else if fl_type fl = F_EXLCK
        then if mode AND 3 = 0 then Inl EBADF else Inr (fl\<lparr>fl_type := F_WRLCK\<rparr>)
      else Inr fl)"

text \<open>
  A call either returns, or sleeps on the conflicting lock and continues with
  \<open>setlk_resume\<close> when it is woken, or panics.
\<close>

datatype lk_out =
    LkRet "errno option" lk_state
  | LkSleep lk_state
  | LkPanic

definition put_locks :: "nat \<Rightarrow> file_lock list \<Rightarrow> lk_state \<Rightarrow> lk_state" where
  "put_locks ino fls s =
     s\<lparr>lk_inode := (lk_inode s)(ino := (lk_inode s ino)\<lparr>i_flock := fls\<rparr>)\<rparr>"

text \<open>From the label \<^verbatim>\<open>repeat\<close> on: the first conflicting lock decides.\<close>

definition setlk_scan :: "lk_state \<Rightarrow> lk_task \<Rightarrow> nat \<Rightarrow> u32 \<Rightarrow> u32 \<Rightarrow> file_lock \<Rightarrow> lk_out" where
  "setlk_scan s current ino fd cmd fl =
     (let L = i_flock (lk_inode s ino);
          i = length (takeWhile (\<lambda>g. \<not> conflict fl g) L)
      in if fl_type fl \<noteq> F_UNLCK \<and> i < length L
         then if cmd = F_SETLKW
              then if tk_signal current AND NOT (tk_blocked current) \<noteq> 0
                   then LkRet (Some ERESTARTSYS) s
                   else LkSleep (put_locks ino
                          (L[i := (L ! i)\<lparr>fl_wait := tk_self current # fl_wait (L ! i)\<rparr>]) s)
              else LkRet (Some EAGAIN) s
         else (case lock_it (tk_self current) fd L (file_lock_free_list s) fl of
                 None \<Rightarrow> LkPanic
               | Some r \<Rightarrow>
                   LkRet (lr_err r) ((put_locks ino (lr_list r) s)
                     \<lparr>file_lock_free_list := lr_free r, lk_woken := lk_woken s @ lr_woken r\<rparr>)))"

text \<open>The validation at the head of \<^verbatim>\<open>fcntl_setlk\<close>: the inode and the request.\<close>

definition setlk_request ::
  "(verify_type \<Rightarrow> u32 \<Rightarrow> u32 \<Rightarrow> errno option) \<Rightarrow> lk_state \<Rightarrow> lk_task \<Rightarrow>
   u32 \<Rightarrow> u32 \<Rightarrow> flock \<Rightarrow> (nat \<times> file_lock) res" where
  "setlk_request va s current fd l flock0 =
     (case (if fd \<ge> NR_OPEN then None else tk_filp current fd) of
        None \<Rightarrow> Inl EBADF
      | Some filp \<Rightarrow>
          (case va VERIFY_WRITE l 16 of
             Some e \<Rightarrow> Inl e
           | None \<Rightarrow>
               (case copy_flock s current filp flock0 fd of
                  None \<Rightarrow> Inl EINVAL
                | Some fl0 \<Rightarrow>
                    (case setlk_access (f_mode filp) fl0 of
                       Inl e \<Rightarrow> Inl e
                     | Inr fl \<Rightarrow> Inr (the (f_inode filp), fl)))))"

definition fcntl_setlk ::
  "(verify_type \<Rightarrow> u32 \<Rightarrow> u32 \<Rightarrow> errno option) \<Rightarrow> lk_state \<Rightarrow> lk_task \<Rightarrow>
   u32 \<Rightarrow> u32 \<Rightarrow> u32 \<Rightarrow> flock \<Rightarrow> lk_out" where
  "fcntl_setlk va s current fd cmd l flock0 =
     (case setlk_request va s current fd l flock0 of
        Inl e \<Rightarrow> LkRet (Some e) s
      | Inr (ino, fl) \<Rightarrow> setlk_scan s current ino fd cmd fl)"

text \<open>After the sleep the task has left the wait queue; a signal ends the call.\<close>

definition leave_wait :: "nat \<Rightarrow> lk_state \<Rightarrow> lk_state" where
  "leave_wait t s =
     (let out = map (\<lambda>g. g\<lparr>fl_wait := removeAll t (fl_wait g)\<rparr>) in
      s\<lparr>lk_inode := (\<lambda>i. (lk_inode s i)\<lparr>i_flock := out (i_flock (lk_inode s i))\<rparr>),
        file_lock_free_list := out (file_lock_free_list s)\<rparr>)"

definition setlk_resume :: "lk_state \<Rightarrow> lk_task \<Rightarrow> nat \<Rightarrow> u32 \<Rightarrow> u32 \<Rightarrow> file_lock \<Rightarrow> lk_out" where
  "setlk_resume s current ino fd cmd fl =
     (let s' = leave_wait (tk_self current) s in
      if tk_signal current AND NOT (tk_blocked current) \<noteq> 0 then LkRet (Some ERESTARTSYS) s'
      else setlk_scan s' current ino fd cmd fl)"

text \<open>The second loop of \<^verbatim>\<open>fcntl_remove_locks\<close>: free while the owner matches.\<close>

fun remove_loop ::
  "nat \<Rightarrow> u32 \<Rightarrow> file_lock list \<Rightarrow> file_lock list \<Rightarrow> nat list \<Rightarrow>
   (file_lock list \<times> file_lock list \<times> nat list) option" where
  "remove_loop task fd [] free w = Some ([], free, w)"
| "remove_loop task fd (fl # fls) free w =
     (if fl_owner fl = Some task \<and> fl_fd fl = fd
      then (case free_lock free fl of
              None \<Rightarrow> None
            | Some (free', w') \<Rightarrow> remove_loop task fd fls free' (w @ w'))
      else Some (fl # fls, free, w))"

definition fcntl_remove_locks :: "lk_state \<Rightarrow> nat \<Rightarrow> nat \<Rightarrow> u32 \<Rightarrow> lk_state option" where
  "fcntl_remove_locks s task ino fd =
     (let L = i_flock (lk_inode s ino);
          other = (\<lambda>fl. fl_owner fl \<noteq> Some task \<or> fl_fd fl \<noteq> fd)
      in map_option (\<lambda>(rest, free, w).
           (put_locks ino (takeWhile other L @ rest) s)
             \<lparr>file_lock_free_list := free, lk_woken := lk_woken s @ w\<rparr>)
         (remove_loop task fd (dropWhile other L) (file_lock_free_list s) []))"

section \<open>What the locks of a list cover\<close>

definition covers :: "file_lock \<Rightarrow> int \<Rightarrow> bool" where
  "covers l b \<longleftrightarrow> fl_start l \<le> b \<and> b \<le> fl_end l"

definition lock_ok :: "file_lock \<Rightarrow> bool" where
  "lock_ok l \<longleftrightarrow> 0 \<le> fl_start l \<and> - 1 \<le> fl_end l \<and> fl_end l \<le> OFFSET_MAX"

text \<open>
  \<open>derived L c l\<close>: every byte of \<open>l\<close> was locked by the same owner with the same type in \<open>L\<close>,
  or belongs to the request \<open>c\<close>.
\<close>

definition derived :: "file_lock list \<Rightarrow> file_lock \<Rightarrow> file_lock \<Rightarrow> bool" where
  "derived L c l \<longleftrightarrow> (\<forall>b. covers l b \<longrightarrow>
     (\<exists>k\<in>set L. same_owner k l \<and> fl_type k = fl_type l \<and> covers k b) \<or>
     same_owner c l \<and> fl_type l = fl_type c \<and> covers c b)"

lemma same_owner_refl [simp]: "same_owner a a"
  by (simp add: same_owner_def)

lemma same_owner_sym: "same_owner a b \<Longrightarrow> same_owner b a"
  by (simp add: same_owner_def)

lemma same_owner_trans: "same_owner a b \<Longrightarrow> same_owner b c \<Longrightarrow> same_owner a c"
  by (simp add: same_owner_def)

lemma same_owner_upd [simp]:
  "same_owner (a\<lparr>fl_start := s\<rparr>) b = same_owner a b"
  "same_owner (a\<lparr>fl_end := s\<rparr>) b = same_owner a b"
  "same_owner (a\<lparr>fl_type := t\<rparr>) b = same_owner a b"
  "same_owner (a\<lparr>fl_wait := w\<rparr>) b = same_owner a b"
  "same_owner b (a\<lparr>fl_start := s\<rparr>) = same_owner b a"
  "same_owner b (a\<lparr>fl_end := s\<rparr>) = same_owner b a"
  "same_owner b (a\<lparr>fl_type := t\<rparr>) = same_owner b a"
  "same_owner b (a\<lparr>fl_wait := w\<rparr>) = same_owner b a"
  by (simp_all add: same_owner_def)

lemma derived_member: "l \<in> set L \<Longrightarrow> derived L c l"
  by (auto simp: derived_def)

lemma derived_self: "derived L c c"
  by (auto simp: derived_def)

lemma derived_shrink:
  assumes "derived L c l" "same_owner l l'" "fl_type l' = fl_type l"
    and "\<And>b. covers l' b \<Longrightarrow> covers l b"
  shows "derived L c l'"
  unfolding derived_def
proof (intro allI impI)
  fix b assume "covers l' b"
  with assms(1,4) have "(\<exists>k\<in>set L. same_owner k l \<and> fl_type k = fl_type l \<and> covers k b) \<or>
     same_owner c l \<and> fl_type l = fl_type c \<and> covers c b" by (auto simp: derived_def)
  with assms(2,3) show "(\<exists>k\<in>set L. same_owner k l' \<and> fl_type k = fl_type l' \<and> covers k b) \<or>
     same_owner c l' \<and> fl_type l' = fl_type c \<and> covers c b"
    by (auto simp: same_owner_def)
qed

lemma derived_union:
  assumes "derived L c a" "derived L c d" "same_owner a l" "same_owner d l"
    and "fl_type a = fl_type l" "fl_type d = fl_type l"
    and "\<And>b. covers l b \<Longrightarrow> covers a b \<or> covers d b"
  shows "derived L c l"
  unfolding derived_def
proof (intro allI impI)
  fix b assume "covers l b"
  then consider "covers a b" | "covers d b" using assms(7) by blast
  then show "(\<exists>k\<in>set L. same_owner k l \<and> fl_type k = fl_type l \<and> covers k b) \<or>
     same_owner c l \<and> fl_type l = fl_type c \<and> covers c b"
    by cases (use assms(1-6) in \<open>auto simp: derived_def same_owner_def\<close>)
qed

text \<open>The invariant of the loop of \<^verbatim>\<open>lock_it\<close>, for the list \<open>L\<close> and the request \<open>c0\<close>.\<close>

definition base_inv :: "file_lock list \<Rightarrow> file_lock \<Rightarrow> lock_ctx \<Rightarrow> bool" where
  "base_inv L c0 x \<longleftrightarrow>
     (\<forall>l \<in> set (lc_pre x). derived L c0 l \<and> lock_ok l) \<and>
     set (lc_rest x) \<subseteq> set L \<and>
     derived L c0 (lc_caller x) \<and> lock_ok (lc_caller x) \<and>
     same_owner c0 (lc_caller x) \<and> fl_type (lc_caller x) = fl_type c0"

definition loop_inv :: "file_lock list \<Rightarrow> file_lock \<Rightarrow> lock_ctx \<Rightarrow> bool" where
  "loop_inv L c0 x \<longleftrightarrow>
     base_inv L c0 x \<and> lc_right x = None \<and> (lc_cpos x \<noteq> None \<longrightarrow> lc_added x) \<and>
     (\<forall>i. lc_cpos x = Some i \<longrightarrow> i < length (lc_pre x) \<and> lc_pre x ! i = lc_caller x) \<and>
     (\<forall>l. lc_left x = Some l \<longrightarrow> l < length (lc_pre x) \<and>
        fl_type (lc_pre x ! l) \<noteq> fl_type c0 \<and> fl_start (lc_caller x) - 1 \<le> fl_end (lc_pre x ! l))"

text \<open>What holds where the loop is left.\<close>

definition exit_inv :: "file_lock list \<Rightarrow> file_lock \<Rightarrow> lock_ctx \<Rightarrow> bool" where
  "exit_inv L c0 x \<longleftrightarrow>
     base_inv L c0 x \<and>
     (\<forall>r. lc_right x = Some r \<longrightarrow> r = length (lc_pre x) \<and> lc_rest x \<noteq> [] \<and>
        fl_end (lc_caller x) < fl_end (hd (lc_rest x)) \<and> fl_start (hd (lc_rest x)) \<le> fl_end (lc_caller x) \<and>
        same_owner c0 (hd (lc_rest x)) \<and> fl_start (lc_caller x) \<le> fl_end (hd (lc_rest x))) \<and>
     (\<forall>l. lc_left x = Some l \<longrightarrow> lc_right x \<noteq> Some l \<longrightarrow>
        l < length (lc_pre x) \<and> fl_start (lc_caller x) - 1 \<le> fl_end (lc_pre x ! l))"

lemma loop_exit: "loop_inv L c0 x \<Longrightarrow> exit_inv L c0 x"
  by (auto simp: loop_inv_def exit_inv_def)

lemma wrap32_end:
  "lock_ok c \<Longrightarrow> \<not> s > wrap32 (fl_end c + 1) \<Longrightarrow> s \<le> fl_end c + 1"
  apply (cases "fl_end c = OFFSET_MAX")
   apply (simp add: wrap32_def lock_ok_def OFFSET_MAX_def)
  apply (simp add: wrap32_id lock_ok_def OFFSET_MAX_def)
  done

text \<open>Passing a lock, freeing one, merging and replacing keep the invariant.\<close>

lemma loop_inv_next:
  assumes "loop_inv L c0 x" "fl \<in> set L" "lock_ok fl" "set fls \<subseteq> set L"
  shows "loop_inv L c0 (next_lock fl fls x)"
  using assms by (auto simp: loop_inv_def base_inv_def next_lock_def derived_member nth_append)

lemma loop_inv_left:
  assumes "loop_inv L c0 x" "fl \<in> set L" "lock_ok fl" "set fls \<subseteq> set L"
    and "fl_type fl \<noteq> fl_type c0" "fl_start (lc_caller x) \<le> fl_end fl"
  shows "loop_inv L c0 (next_lock fl fls (x\<lparr>lc_left := Some (length (lc_pre x))\<rparr>))"
  using assms by (auto simp: loop_inv_def base_inv_def next_lock_def derived_member nth_append)

lemma loop_inv_added: "loop_inv L c0 x \<Longrightarrow> loop_inv L c0 (x\<lparr>lc_added := True\<rparr>)"
  by (auto simp: loop_inv_def base_inv_def)

lemma loop_inv_drop:
  assumes "loop_inv L c0 x" "set fls \<subseteq> set L" "drop_lock fl fls x = Some y"
  shows "loop_inv L c0 y" "lc_rest y = fls"
  using assms by (auto simp: loop_inv_def base_inv_def drop_lock_def)

lemma loop_inv_put_caller:
  assumes "loop_inv L c0 x" "derived L c0 c" "lock_ok c" "same_owner c0 c" "fl_type c = fl_type c0"
    and "fl_start c \<le> fl_start (lc_caller x)"
  shows "loop_inv L c0 (put_caller c x)"
proof (cases "lc_cpos x")
  case None
  then show ?thesis using assms by (fastforce simp: loop_inv_def base_inv_def put_caller_def)
next
  case (Some i)
  have "\<forall>l\<in>set ((lc_pre x)[i := c]). derived L c0 l \<and> lock_ok l"
    using assms set_update_subset_insert[of "lc_pre x" i c] by (auto simp: loop_inv_def base_inv_def)
  moreover have "l \<noteq> i" if "lc_left x = Some l" for l
    using that assms(1) Some by (auto simp: loop_inv_def base_inv_def)
  ultimately show ?thesis using assms Some
    by (fastforce simp: loop_inv_def base_inv_def put_caller_def)
qed

lemma loop_inv_take:
  assumes "loop_inv L c0 x" "set fls \<subseteq> set L" "derived L c0 c" "lock_ok c" "same_owner c0 c"
    and "fl_type c = fl_type c0" "fl_start c \<le> fl_start (lc_caller x)" "\<not> lc_added x"
  shows "loop_inv L c0 ((next_lock c fls x)
           \<lparr>lc_caller := c, lc_cpos := Some (length (lc_pre x)), lc_added := True\<rparr>)"
  using assms by (fastforce simp: loop_inv_def base_inv_def next_lock_def nth_append)

lemma base_inv_woken [simp]: "loop_inv L c0 (x\<lparr>lc_woken := w\<rparr>) = loop_inv L c0 x"
  by (simp add: loop_inv_def base_inv_def)

text \<open>The merge of two adjacent or overlapping locks covers what the two cover.\<close>

definition merged :: "file_lock \<Rightarrow> file_lock \<Rightarrow> file_lock" where
  "merged fl c = fl\<lparr>fl_start := min (fl_start fl) (fl_start c), fl_end := max (fl_end fl) (fl_end c)\<rparr>"

lemma merged_derived:
  assumes "derived L c0 fl" "derived L c0 c" "same_owner c fl" "fl_type c = fl_type fl"
    and "fl_start c - 1 \<le> fl_end fl" "fl_start fl \<le> fl_end c + 1"
  shows "derived L c0 (merged fl c)"
  by (rule derived_union[OF assms(1,2)]) (use assms(3-) in \<open>auto simp: merged_def covers_def\<close>)

lemma merged_eqs:
  "(if fl_start fl > fl_start c then (fl\<lparr>fl_start := fl_start c\<rparr>, c)
    else (fl, c\<lparr>fl_start := fl_start fl\<rparr>)) =
   (fl\<lparr>fl_start := min (fl_start fl) (fl_start c)\<rparr>, c\<lparr>fl_start := min (fl_start fl) (fl_start c)\<rparr>)"
  "(if fl_end fl < fl_end c then (fl\<lparr>fl_end := fl_end c\<rparr>, c)
    else (fl, c\<lparr>fl_end := fl_end fl\<rparr>)) =
   (fl\<lparr>fl_end := max (fl_end fl) (fl_end c)\<rparr>, c\<lparr>fl_end := max (fl_end fl) (fl_end c)\<rparr>)"
  by (auto simp: min_def max_def)

text \<open>One round, with its merge written by \<^const>\<open>merged\<close>.\<close>

lemma lock_round_merge:
  assumes "fl_type (lc_caller x) = fl_type fl" "\<not> fl_end fl < fl_start (lc_caller x) - 1"
    and "\<not> fl_start fl > wrap32 (fl_end (lc_caller x) + 1)"
  shows "lock_round fl fls x =
    (let x2 = put_caller (merged (lc_caller x) fl) x; fl2 = merged fl (lc_caller x)
     in if lc_added x then map_option (\<lambda>y. (y, True)) (drop_lock fl2 fls x2)
        else Some ((next_lock fl2 fls x2)
               \<lparr>lc_caller := fl2, lc_cpos := Some (length (lc_pre x2)), lc_added := True\<rparr>, True))"
  using assms
  by (simp add: lock_round_def Let_def merged_eqs merged_def min.commute max.commute)


lemma lock_ok_merged: "lock_ok a \<Longrightarrow> lock_ok b \<Longrightarrow> lock_ok (merged a b)"
  by (auto simp: lock_ok_def merged_def)

lemma merged_simps [simp]:
  "same_owner (merged a b) l = same_owner a l" "same_owner l (merged a b) = same_owner l a"
  "fl_type (merged a b) = fl_type a" "fl_owner (merged a b) = fl_owner a" "fl_fd (merged a b) = fl_fd a"
  "fl_start (merged a b) = min (fl_start a) (fl_start b)" "fl_end (merged a b) = max (fl_end a) (fl_end b)"
  by (simp_all add: merged_def)

lemma loop_inv_caller:
  assumes "loop_inv L c0 x"
  shows "derived L c0 (lc_caller x)" "lock_ok (lc_caller x)" "same_owner c0 (lc_caller x)"
    "fl_type (lc_caller x) = fl_type c0"
  using assms by (simp_all add: loop_inv_def base_inv_def)

lemma round_merge_inv:
  assumes inv: "loop_inv L c0 x" and fl: "fl \<in> set L" "lock_ok fl" "set fls \<subseteq> set L"
    and own: "same_owner (lc_caller x) fl" and ty: "fl_type (lc_caller x) = fl_type fl"
    and adj: "\<not> fl_end fl < fl_start (lc_caller x) - 1" "\<not> fl_start fl > wrap32 (fl_end (lc_caller x) + 1)"
    and r: "lock_round fl fls x = Some (y, b)"
  shows "b \<and> loop_inv L c0 y \<and> lc_rest y = fls"
proof -
  let ?c = "lc_caller x"
  let ?x2 = "put_caller (merged ?c fl) x"
  note c = loop_inv_caller[OF inv]
  have adj': "fl_start fl \<le> fl_end ?c + 1" using wrap32_end[OF c(2) adj(2)] .
  have dfl: "derived L c0 (merged fl ?c)"
    using merged_derived[OF derived_member[OF fl(1)] c(1) own ty] adj(1) adj' by simp
  have dc: "derived L c0 (merged ?c fl)"
    using merged_derived[OF c(1) derived_member[OF fl(1)] same_owner_sym[OF own] ty[symmetric]] adj(1) adj' by simp
  have x2: "loop_inv L c0 ?x2"
    by (rule loop_inv_put_caller[OF inv dc]) (use c fl(2) in \<open>auto intro: lock_ok_merged\<close>)
  show ?thesis
  proof (cases "lc_added x")
    case True
    then obtain z where "drop_lock (merged fl ?c) fls ?x2 = Some z" "y = z" "b"
      using r lock_round_merge[OF ty adj] by (auto simp: Let_def)
    then show ?thesis using loop_inv_drop[OF x2 fl(3)] by blast
  next
    case False
    have ow: "same_owner c0 fl" using c(3) own by (rule same_owner_trans)
    have "loop_inv L c0 ((next_lock (merged fl ?c) fls ?x2)
           \<lparr>lc_caller := merged fl ?c, lc_cpos := Some (length (lc_pre ?x2)), lc_added := True\<rparr>)"
      by (rule loop_inv_take[OF x2 fl(3) dfl])
        (use c fl(2) ow ty False in \<open>auto simp: put_caller_def intro: lock_ok_merged\<close>)
    then show ?thesis using r lock_round_merge[OF ty adj] False by (auto simp: Let_def next_lock_def)
  qed
qed

lemma round_replace_inv:
  assumes inv: "loop_inv L c0 x" and fl: "fl \<in> set L" "set fls \<subseteq> set L"
    and own: "same_owner (lc_caller x) fl" and na: "\<not> lc_added x"
    and fl': "fl' = fl\<lparr>fl_start := fl_start (lc_caller x), fl_end := fl_end (lc_caller x),
                      fl_type := fl_type (lc_caller x)\<rparr>"
  shows "loop_inv L c0 ((next_lock fl' fls x)\<lparr>lc_woken := w, lc_caller := fl',
            lc_cpos := Some (length (lc_pre x)), lc_added := True\<rparr>)"
proof -
  note c = loop_inv_caller[OF inv]
  have ow: "same_owner c0 fl" using c(3) own by (rule same_owner_trans)
  have d: "derived L c0 fl'" by (rule derived_shrink[OF c(1)]) (use own fl' in \<open>auto simp: covers_def\<close>)
  have i: "loop_inv L c0 (x\<lparr>lc_woken := w\<rparr>)" using inv by simp
  have "loop_inv L c0 ((next_lock fl' fls (x\<lparr>lc_woken := w\<rparr>))
           \<lparr>lc_caller := fl', lc_cpos := Some (length (lc_pre (x\<lparr>lc_woken := w\<rparr>))), lc_added := True\<rparr>)"
    by (rule loop_inv_take[OF i fl(2) d]) (use c fl' ow na in \<open>auto simp: lock_ok_def\<close>)
  then show ?thesis by (simp add: next_lock_def loop_inv_def base_inv_def)
qed

lemma round_inv:
  assumes inv: "loop_inv L c0 x" and fl: "fl \<in> set L" "lock_ok fl" "set fls \<subseteq> set L"
    and rest: "lc_rest x = fl # fls"
    and own: "same_owner (lc_caller x) fl" and r: "lock_round fl fls x = Some (y, b)"
  shows "if b then loop_inv L c0 y \<and> lc_rest y = fls else exit_inv L c0 y"
proof (cases "fl_type (lc_caller x) = fl_type fl")
  case True
  consider (pass) "fl_end fl < fl_start (lc_caller x) - 1"
    | (stop) "\<not> fl_end fl < fl_start (lc_caller x) - 1" "fl_start fl > wrap32 (fl_end (lc_caller x) + 1)"
    | (merge) "\<not> fl_end fl < fl_start (lc_caller x) - 1" "\<not> fl_start fl > wrap32 (fl_end (lc_caller x) + 1)"
    by blast
  then show ?thesis
  proof cases
    case pass
    then show ?thesis using r True loop_inv_next[OF inv fl]
      by (auto simp: lock_round_def next_lock_def)
  next
    case stop
    then show ?thesis using r True loop_exit[OF inv] by (auto simp: lock_round_def)
  next
    case merge
    then show ?thesis using round_merge_inv[OF inv fl own True merge r] by simp
  qed
next
  case False
  let ?c = "lc_caller x"
  define x1 where "x1 = (if fl_type ?c = F_UNLCK then x\<lparr>lc_added := True\<rparr> else x)"
  have x1: "loop_inv L c0 x1" "lc_caller x1 = ?c" "lc_pre x1 = lc_pre x" "lc_rest x1 = fl # fls"
    using inv rest loop_inv_added[OF inv] by (auto simp: x1_def)
  consider (pass) "fl_end fl < fl_start ?c" | (stop) "\<not> fl_end fl < fl_start ?c" "fl_start fl > fl_end ?c"
    | (right) "\<not> fl_end fl < fl_start ?c" "\<not> fl_start fl > fl_end ?c" "fl_end fl > fl_end ?c"
    | (left) "\<not> fl_end fl < fl_start ?c" "\<not> fl_start fl > fl_end ?c" "\<not> fl_end fl > fl_end ?c" "fl_start fl < fl_start ?c"
    | (repl) "\<not> fl_end fl < fl_start ?c" "\<not> fl_start fl > fl_end ?c" "\<not> fl_end fl > fl_end ?c" "\<not> fl_start fl < fl_start ?c"
    by blast
  then show ?thesis
  proof cases
    case pass
    then show ?thesis using r False loop_inv_next[OF inv fl]
      by (auto simp: lock_round_def next_lock_def)
  next
    case stop
    then show ?thesis using r False loop_exit[OF inv] by (auto simp: lock_round_def)
  next
    case right
    have "same_owner c0 fl" using loop_inv_caller(3)[OF inv] own by (rule same_owner_trans)
    then show ?thesis using r False right x1 unfolding lock_round_def Let_def x1_def[symmetric]
      by (auto simp: exit_inv_def loop_inv_def base_inv_def split: if_splits)
  next
    case left
    then show ?thesis using r False loop_inv_left[OF x1(1) fl] loop_inv_caller(4)[OF inv] x1(2-)
      unfolding lock_round_def Let_def x1_def[symmetric]
      by (auto simp: next_lock_def)
  next
    case repl
    then have eq: "lock_round fl fls x = (if lc_added x1 then map_option (\<lambda>y. (y, True)) (drop_lock fl fls x1)
        else let fl' = fl\<lparr>fl_start := fl_start ?c, fl_end := fl_end ?c, fl_type := fl_type ?c\<rparr>
             in Some ((next_lock fl' fls x1)\<lparr>lc_woken := lc_woken x1 @ fl_wait fl, lc_caller := fl',
                        lc_cpos := Some (length (lc_pre x1)), lc_added := True\<rparr>, True))"
      using False unfolding lock_round_def Let_def x1_def[symmetric] by simp
    show ?thesis
    proof (cases "lc_added x1")
      case True
      then show ?thesis using r eq loop_inv_drop[OF x1(1) fl(3)] by auto
    next
      case na: False
      have "same_owner (lc_caller x1) fl" using own x1(2) by simp
      from round_replace_inv[OF x1(1) fl(1,3) this na refl] show ?thesis
        using r eq na x1(2) by (auto simp: next_lock_def Let_def)
    qed
  qed
qed

lemma loop_derived:
  assumes "\<And>l. l \<in> set L \<Longrightarrow> lock_ok l"
  shows "loop_inv L c0 x \<Longrightarrow> lc_rest x = rest \<Longrightarrow> lock_loop rest x = Some y \<Longrightarrow> exit_inv L c0 y"
proof (induction rest arbitrary: x)
  case Nil
  then show ?case by (simp add: loop_exit)
next
  case (Cons fl fls)
  have sub: "fl \<in> set L" "set fls \<subseteq> set L" using Cons.prems(1,2) by (auto simp: loop_inv_def base_inv_def)
  show ?case
  proof (cases "same_owner (lc_caller x) fl")
    case True
    then obtain z b where z: "lock_round fl fls x = Some (z, b)" using Cons.prems(3)
      by (auto split: option.splits)
    from round_inv[OF Cons.prems(1) sub(1) assms[OF sub(1)] sub(2) Cons.prems(2) True z]
    show ?thesis using Cons.IH[of z] Cons.prems(3) True z by (auto split: if_splits)
  next
    case False
    then show ?thesis using Cons.prems loop_exit by auto
  qed
qed


text \<open>A lock that is cut keeps what it derives from.\<close>

definition good :: "file_lock list \<Rightarrow> file_lock \<Rightarrow> file_lock \<Rightarrow> bool" where
  "good L c0 l \<longleftrightarrow> derived L c0 l \<and> lock_ok l"

lemma good_cut_end:
  "good L c0 l \<Longrightarrow> e \<le> fl_end l \<Longrightarrow> - 1 \<le> e \<Longrightarrow> good L c0 (l\<lparr>fl_end := e\<rparr>)"
  unfolding good_def
  by (auto simp: lock_ok_def covers_def intro: derived_shrink[of L c0 l])

lemma good_cut_start:
  "good L c0 l \<Longrightarrow> fl_start l \<le> a \<Longrightarrow> good L c0 (l\<lparr>fl_start := a\<rparr>)"
  unfolding good_def
  by (auto simp: lock_ok_def covers_def intro: derived_shrink[of L c0 l])

lemma good_same:
  "good L c0 l \<Longrightarrow> fl_owner k = fl_owner l \<Longrightarrow> fl_fd k = fl_fd l \<Longrightarrow> fl_type k = fl_type l \<Longrightarrow>
   fl_start k = fl_start l \<Longrightarrow> fl_end k = fl_end l \<Longrightarrow> good L c0 k"
  unfolding good_def
  by (auto simp: lock_ok_def covers_def same_owner_def intro: derived_shrink[of L c0 l])

lemma all_update:
  "\<forall>l\<in>set xs. P l \<Longrightarrow> (i < length xs \<Longrightarrow> P (xs ! i) \<Longrightarrow> P v) \<Longrightarrow> \<forall>l\<in>set (xs[i := v]). P l"
  using set_update_subset_insert[of xs i v] by (cases "i < length xs") (auto simp: list_update_beyond)

lemma set_insert_at: "set (insert_at i v xs) = insert v (set xs)"
  using set_append[of "take i xs" "drop i xs"] by (auto simp: insert_at_def)

lemma set_remove_at: "set (remove_at i xs) \<subseteq> set xs"
  by (auto simp: remove_at_def dest: in_set_takeD in_set_dropD)

lemma all_trim_left:
  assumes "\<forall>l\<in>set xs. good L c0 l" "0 \<le> fl_start c"
    and "\<And>l. left = Some l \<Longrightarrow> l < length xs \<Longrightarrow> fl_start c - 1 \<le> fl_end (xs ! l)"
  shows "\<forall>l\<in>set (trim_left left c xs). good L c0 l"
proof (cases left)
  case None
  then show ?thesis using assms(1) by (simp add: trim_left_def)
next
  case (Some l)
  have "\<forall>k\<in>set (xs[l := (xs ! l)\<lparr>fl_end := fl_start c - 1\<rparr>]). good L c0 k"
    by (rule all_update[OF assms(1)]) (use assms(2,3) Some in \<open>auto intro!: good_cut_end\<close>)
  then show ?thesis using Some by (simp add: trim_left_def)
qed

lemma all_trim_right:
  assumes "\<forall>l\<in>set xs. good L c0 l" "lock_ok c" "r < length xs"
    and "fl_start (xs ! r) \<le> fl_end c" "fl_end c < fl_end (xs ! r)"
  shows "\<forall>l\<in>set (trim_right r c xs). good L c0 l"
proof -
  have "lock_ok (xs ! r)" using assms(1,3) by (auto simp: good_def)
  then have "wrap32 (fl_end c + 1) = fl_end c + 1" using assms(2,5)
    by (intro wrap32_id) (auto simp: lock_ok_def OFFSET_MAX_def)
  then have "\<forall>l\<in>set (xs[r := (xs ! r)\<lparr>fl_start := wrap32 (fl_end c + 1)\<rparr>]). good L c0 l"
    by (intro all_update[OF assms(1)]) (use assms(4) in \<open>auto intro!: good_cut_start\<close>)
  then show ?thesis by (simp add: trim_right_def)
qed

text \<open>After the loop and the possible insertion.\<close>

definition new_inv :: "file_lock list \<Rightarrow> file_lock \<Rightarrow> nat \<Rightarrow>
    file_lock list \<Rightarrow> file_lock \<Rightarrow> nat option \<Rightarrow> nat option \<Rightarrow> bool" where
  "new_inv L c0 b M c left right \<longleftrightarrow>
     (\<forall>l\<in>set M. good L c0 l) \<and> lock_ok c \<and>
     (\<forall>r. right = Some r \<longrightarrow> b \<le> r \<and> r < length M \<and> fl_end c < fl_end (M ! r) \<and>
        fl_start (M ! r) \<le> fl_end c \<and> same_owner c0 (M ! r) \<and> fl_start c \<le> fl_end (M ! r)) \<and>
     (\<forall>l. left = Some l \<longrightarrow> right \<noteq> Some l \<longrightarrow> l < b \<and> l < length M \<and> fl_start c - 1 \<le> fl_end (M ! l))"

lemma lock_new_inv:
  assumes inv: "exit_inv L c0 x" and ok: "\<And>l. l \<in> set L \<Longrightarrow> lock_ok l"
    and own: "fl_owner c0 = Some t" "fl_fd c0 = fd"
    and n: "lock_new t fd x = Some (Inr (M, c, left, right, free))"
  shows "new_inv L c0 (length (lc_pre x)) M c left right"
proof -
  have all: "\<forall>l\<in>set (lc_pre x @ lc_rest x). good L c0 l"
    using inv ok by (auto simp: exit_inv_def base_inv_def good_def derived_member)
  have ow: "fl_owner (lc_caller x) = Some t" "fl_fd (lc_caller x) = fd"
    using inv own by (auto simp: exit_inv_def base_inv_def same_owner_def)
  have lok: "lock_ok (lc_caller x)" and gc: "good L c0 (lc_caller x)"
    using inv by (auto simp: exit_inv_def base_inv_def good_def)
  show ?thesis
  proof (cases "lc_added x")
    case True
    then show ?thesis using n all lok inv
      by (auto simp: lock_new_def Let_def new_inv_def exit_inv_def nth_append hd_conv_nth)
  next
    case False
    then obtain k where k: "alloc_lock t fd (lc_free x) (lc_caller x) = Some (Some (c, k))"
      "M = insert_at (length (lc_pre x)) c (lc_pre x @ lc_rest x)"
      "left = map_option (shift_at (length (lc_pre x))) (lc_left x)"
      "right = map_option (shift_at (length (lc_pre x))) (lc_right x)"
      using n by (auto simp: lock_new_def Let_def split: if_splits option.splits)
    have c: "c = (lc_caller x)\<lparr>fl_owner := Some t, fl_fd := fd, fl_wait := []\<rparr>"
      using k(1) by (auto simp: alloc_lock_def split: list.splits if_splits)
    have M: "M = lc_pre x @ c # lc_rest x" using k(2) by (simp add: insert_at_def)
    have "good L c0 c" by (rule good_same[OF gc]) (use c ow in auto)
    then show ?thesis using all lok inv c k(3,4) M
      by (auto simp: new_inv_def exit_inv_def shift_at_def lock_ok_def nth_append hd_conv_nth
               split: if_splits)
  qed
qed

lemma finish_good:
  assumes inv: "exit_inv L c0 x" and ok: "\<And>l. l \<in> set L \<Longrightarrow> lock_ok l"
    and own: "fl_owner c0 = Some t" "fl_fd c0 = fd"
    and f: "lock_finish t fd x = Some r"
  shows "\<forall>l\<in>set (lr_list r). good L c0 l"
proof -
  have all: "\<forall>l\<in>set (lc_pre x @ lc_rest x). good L c0 l"
    using inv ok by (auto simp: exit_inv_def base_inv_def good_def derived_member)
  let ?b = "length (lc_pre x)"
  consider (err) e where "lock_new t fd x = Some (Inl e)"
    | (new) M c left right free where "lock_new t fd x = Some (Inr (M, c, left, right, free))"
    using f by (cases "lock_new t fd x") (auto simp: lock_finish_def, metis obj_sumE prod_cases5)
  then show ?thesis
  proof cases
    case err
    then show ?thesis using f all by (auto simp: lock_finish_def)
  next
    case new
    note ni = lock_new_inv[OF inv ok own new]
    have M: "\<forall>l\<in>set M. good L c0 l" and c: "lock_ok c" "0 \<le> fl_start c"
      using ni by (auto simp: new_inv_def lock_ok_def)
    consider (none) "right = None" | (two) q where "right = Some q" "left \<noteq> Some q"
      | (split) q where "right = Some q" "left = Some q" by (cases right) auto
    then show ?thesis
    proof cases
      case none
      have "\<forall>l\<in>set (trim_left left c M). good L c0 l"
        by (rule all_trim_left[OF M c(2)]) (use ni none in \<open>auto simp: new_inv_def\<close>)
      then show ?thesis using f new none by (auto simp: lock_finish_def)
    next
      case two
      have R: "\<forall>l\<in>set (trim_right q c M). good L c0 l"
        by (rule all_trim_right[OF M c(1)]) (use ni two in \<open>auto simp: new_inv_def\<close>)
      have "\<forall>l\<in>set (trim_left left c (trim_right q c M)). good L c0 l"
        by (rule all_trim_left[OF R c(2)]) (use ni two in \<open>auto simp: new_inv_def trim_right_def\<close>)
      then show ?thesis using f new two by (auto simp: lock_finish_def)
    next
      case split
      note q = ni[unfolded new_inv_def]
      have Mq: "good L c0 (M ! q)" "fl_owner (M ! q) = Some t" "fl_fd (M ! q) = fd"
        using q split own by (auto simp: same_owner_def)
      consider (full) "alloc_lock t fd free (M ! q) = Some None"
        | (ok) l free' where "alloc_lock t fd free (M ! q) = Some (Some (l, free'))"
        using f new split by (cases "alloc_lock t fd free (M ! q)") (auto simp: lock_finish_def, metis option.exhaust surj_pair)
      then show ?thesis
      proof cases
        case full
        then show ?thesis using f new split M set_remove_at[of ?b M]
          by (auto simp: lock_finish_def Let_def split: if_splits)
      next
        case (ok l free')
        let ?N = "insert_at ?b l M"
        have l: "l = (M ! q)\<lparr>fl_owner := Some t, fl_fd := fd, fl_wait := []\<rparr>"
          using ok by (auto simp: alloc_lock_def split: list.splits if_splits)
        have "good L c0 l" by (rule good_same[OF Mq(1)]) (use l Mq in auto)
        then have N: "\<forall>l\<in>set ?N. good L c0 l" using M by (simp add: set_insert_at)
        have idx: "?b \<le> q" "q < length M" using q split by auto
        have nth: "?N ! Suc q = M ! q" "?N ! ?b = l" "Suc q < length ?N"
          using idx by (auto simp: insert_at_def nth_append min_def nth_Cons' Suc_diff_le)
        have R: "\<forall>l\<in>set (trim_right (Suc q) c ?N). good L c0 l"
          by (rule all_trim_right[OF N c(1)]) (use q split nth in auto)
        have "\<forall>l\<in>set (trim_left (Some ?b) c (trim_right (Suc q) c ?N)). good L c0 l"
          by (rule all_trim_left[OF R c(2)]) (use q split nth l idx in \<open>auto simp: trim_right_def\<close>)
        then show ?thesis using f new split ok by (auto simp: lock_finish_def Let_def)
      qed
    qed
  qed
qed

lemma start_inv:
  assumes "\<And>l. l \<in> set L \<Longrightarrow> lock_ok l" "lock_ok c"
  shows "loop_inv L c (lock_start L free c)"
  using assms
  by (auto simp: lock_start_def loop_inv_def base_inv_def derived_self
           dest: set_takeWhileD set_dropWhileD intro: derived_member)

lemma lock_it_good:
  assumes ok: "\<And>l. l \<in> set L \<Longrightarrow> lock_ok l" and c: "lock_ok c" "fl_owner c = Some t" "fl_fd c = fd"
    and r: "lock_it t fd L free c = Some r"
  shows "\<forall>l\<in>set (lr_list r). good L c l"
proof -
  let ?x = "lock_start L free c"
  obtain y where y: "lock_loop (lc_rest ?x) ?x = Some y" "lock_finish t fd y = Some r"
    using r by (auto simp: lock_it_def bind_eq_Some_conv)
  from loop_derived[OF ok start_inv[OF ok c(1)] refl y(1)] have "exit_inv L c y" .
  from finish_good[OF this ok c(2,3) y(2)] show ?thesis .
qed

end
