(* ===== verification/Lock_Table.thy ===== *)
theory Lock_Table
  imports File_Locks
begin

text \<open>
  The table of locks of \<^verbatim>\<open>fs/locks.c\<close>: entries move between the lists of the inodes and
  the free list without being lost, and no call ends in one of the panics.
\<close>

section \<open>The table of locks\<close>

text \<open>
  Entries on a list have an owner and are read or write locks, free entries have no owner, and
  entries are neither lost nor made: \<open>n\<close> is the number of them in the list and in the free
  list.
\<close>

definition listed :: "file_lock \<Rightarrow> bool" where
  "listed l \<longleftrightarrow> fl_owner l \<noteq> None \<and> (fl_type l = F_RDLCK \<or> fl_type l = F_WRLCK)"

definition table_inv :: "nat \<Rightarrow> file_lock list \<Rightarrow> file_lock list \<Rightarrow> bool" where
  "table_inv n fls free \<longleftrightarrow>
     (\<forall>l\<in>set fls. listed l) \<and> (\<forall>l\<in>set free. fl_owner l = None) \<and>
     length fls + length free = n"

definition ctx_table :: "nat \<Rightarrow> lock_ctx \<Rightarrow> bool" where
  "ctx_table n x \<longleftrightarrow> table_inv n (lc_pre x @ lc_rest x) (lc_free x) \<and>
     (listed (lc_caller x) \<or> fl_owner (lc_caller x) \<noteq> None \<and> fl_type (lc_caller x) = F_UNLCK)"

lemma owners_update: "\<forall>l\<in>set xs. listed l \<Longrightarrow> listed v \<Longrightarrow>
    \<forall>l\<in>set (xs[i := v]). listed l"
  by (erule all_update) simp

lemma table_put_caller:
  assumes "ctx_table n x" "listed c"
  shows "ctx_table n (put_caller c x)"
proof (cases "lc_cpos x")
  case None
  then show ?thesis using assms by (simp add: ctx_table_def put_caller_def)
next
  case (Some i)
  have "\<forall>l\<in>set ((lc_pre x)[i := c]). listed l"
    by (rule owners_update) (use assms in \<open>auto simp: ctx_table_def table_inv_def\<close>)
  then show ?thesis using assms Some by (simp add: ctx_table_def table_inv_def put_caller_def ball_Un)
qed

lemma table_drop:
  assumes "ctx_table n x" "lc_rest x = fl0 # fls" "listed fl"
  shows "\<exists>y. drop_lock fl fls x = Some y \<and> ctx_table n y \<and> lc_rest y = fls"
  using assms by (auto simp: ctx_table_def table_inv_def drop_lock_def free_lock_def listed_def)

lemma table_next:
  "ctx_table n x \<Longrightarrow> lc_rest x = fl0 # fls \<Longrightarrow> listed fl \<Longrightarrow> ctx_table n (next_lock fl fls x)"
  by (auto simp: ctx_table_def table_inv_def next_lock_def)

lemma ctx_table_upd [simp]:
  "ctx_table n (x\<lparr>lc_left := i\<rparr>) = ctx_table n x" "ctx_table n (x\<lparr>lc_right := i\<rparr>) = ctx_table n x"
  "ctx_table n (x\<lparr>lc_cpos := i\<rparr>) = ctx_table n x" "ctx_table n (x\<lparr>lc_added := b\<rparr>) = ctx_table n x"
  "ctx_table n (x\<lparr>lc_woken := w\<rparr>) = ctx_table n x"
  by (simp_all add: ctx_table_def)

lemma ctx_table_caller:
  "ctx_table n x \<Longrightarrow> listed c \<Longrightarrow> ctx_table n (x\<lparr>lc_caller := c\<rparr>)"
  by (simp add: ctx_table_def)

lemma put_caller_rest [simp]: "lc_rest (put_caller c x) = lc_rest x" "lc_added (put_caller c x) = lc_added x"
  by (simp_all add: put_caller_def)

text \<open>The rounds without a merge.\<close>

lemma lock_round_far:
  assumes "fl_type (lc_caller x) = fl_type fl"
    and "fl_end fl < fl_start (lc_caller x) - 1 \<or> fl_start fl > wrap32 (fl_end (lc_caller x) + 1)"
  shows "lock_round fl fls x =
    (if fl_end fl < fl_start (lc_caller x) - 1 then Some (next_lock fl fls x, True) else Some (x, False))"
  using assms by (auto simp: lock_round_def Let_def)

definition mark_left :: "file_lock \<Rightarrow> lock_ctx \<Rightarrow> lock_ctx" where
  "mark_left fl x =
     (let x1 = (if fl_type (lc_caller x) = F_UNLCK then x\<lparr>lc_added := True\<rparr> else x)
      in if fl_start fl < fl_start (lc_caller x) then x1\<lparr>lc_left := Some (length (lc_pre x1))\<rparr> else x1)"

definition retyped :: "file_lock \<Rightarrow> file_lock \<Rightarrow> file_lock" where
  "retyped fl c = fl\<lparr>fl_start := fl_start c, fl_end := fl_end c, fl_type := fl_type c\<rparr>"

lemma lock_round_other:
  assumes "fl_type (lc_caller x) \<noteq> fl_type fl"
  shows "lock_round fl fls x =
    (if fl_end fl < fl_start (lc_caller x) then Some (next_lock fl fls x, True)
     else if fl_start fl > fl_end (lc_caller x) then Some (x, False)
     else let x2 = mark_left fl x; fl' = retyped fl (lc_caller x) in
       if fl_end fl > fl_end (lc_caller x) then Some (x2\<lparr>lc_right := Some (length (lc_pre x2))\<rparr>, False)
       else if fl_start fl < fl_start (lc_caller x) then Some (next_lock fl fls x2, True)
       else if lc_added x2 then map_option (\<lambda>y. (y, True)) (drop_lock fl fls x2)
       else Some ((next_lock fl' fls x2)\<lparr>lc_woken := lc_woken x2 @ fl_wait fl, lc_caller := fl',
                    lc_cpos := Some (length (lc_pre x2)), lc_added := True\<rparr>, True))"
  using assms by (simp add: lock_round_def mark_left_def retyped_def Let_def)

lemma next_lock_rest [simp]: "lc_rest (next_lock fl fls x) = fls"
  by (simp add: next_lock_def)

lemma table_round:
  assumes x: "ctx_table n x" and rest: "lc_rest x = fl # fls"
  shows "case lock_round fl fls x of None \<Rightarrow> False
         | Some (y, b) \<Rightarrow> ctx_table n y \<and> (b \<longrightarrow> lc_rest y = fls)"
proof -
  have o: "listed fl" "fl_owner (lc_caller x) \<noteq> None"
    "fl_type (lc_caller x) = F_UNLCK \<or> listed (lc_caller x)"
    using x rest by (auto simp: ctx_table_def table_inv_def listed_def)
  note nx = table_next[OF x rest o(1)]
  consider (far) "fl_type (lc_caller x) = fl_type fl"
      "fl_end fl < fl_start (lc_caller x) - 1 \<or> fl_start fl > wrap32 (fl_end (lc_caller x) + 1)"
    | (merge) "fl_type (lc_caller x) = fl_type fl" "\<not> fl_end fl < fl_start (lc_caller x) - 1"
      "\<not> fl_start fl > wrap32 (fl_end (lc_caller x) + 1)"
    | (other) "fl_type (lc_caller x) \<noteq> fl_type fl" by blast
  then show ?thesis
  proof cases
    case far
    show ?thesis unfolding lock_round_far[OF far] using x nx by simp
  next
    case merge
    let ?x2 = "put_caller (merged (lc_caller x) fl) x" and ?fl2 = "merged fl (lc_caller x)"
    have x2: "ctx_table n ?x2" "lc_rest ?x2 = fl # fls" 
      using table_put_caller[OF x, of "merged (lc_caller x) fl"] o merge(1) rest by (simp_all add: listed_def)
    have o2: "listed ?fl2" using o by (simp add: listed_def)
    obtain d where d: "drop_lock ?fl2 fls ?x2 = Some d" "ctx_table n d" "lc_rest d = fls"
      using table_drop[OF x2 o2] by blast
    show ?thesis unfolding lock_round_merge[OF merge]
      using d ctx_table_caller[OF table_next[OF x2 o2] o2] by (simp add: Let_def)
  next
    case other
    let ?x2 = "mark_left fl x" and ?fl' = "retyped fl (lc_caller x)"
    have x2: "ctx_table n ?x2" "lc_rest ?x2 = fl # fls" using x rest by (simp_all add: mark_left_def Let_def)
    have o2: "listed ?fl'" if "\<not> lc_added ?x2"
      using o that by (auto simp: retyped_def listed_def mark_left_def Let_def split: if_splits)
    obtain d where d: "drop_lock fl fls ?x2 = Some d" "ctx_table n d" "lc_rest d = fls"
      using table_drop[OF x2 o(1)] by blast
    have t: "ctx_table n ((next_lock ?fl' fls ?x2)\<lparr>lc_woken := w, lc_caller := ?fl'\<rparr>)" if "\<not> lc_added ?x2" for w
      by (rule ctx_table_caller) (use table_next[OF x2 o2[OF that]] o2[OF that] in simp_all)
    show ?thesis unfolding lock_round_other[OF other]
      using d x nx x2(1) table_next[OF x2 o(1)] t
      by (simp add: Let_def)
  qed
qed

lemma table_loop:
  "ctx_table n x \<Longrightarrow> lc_rest x = rest \<Longrightarrow> \<exists>y. lock_loop rest x = Some y \<and> ctx_table n y"
proof (induction rest arbitrary: x)
  case (Cons fl fls)
  obtain y b where y: "lock_round fl fls x = Some (y, b)" "ctx_table n y" "b \<longrightarrow> lc_rest y = fls"
    using table_round[OF Cons.prems] by (auto split: option.splits)
  have "\<exists>z. lock_loop fls y = Some z \<and> ctx_table n z" if b using Cons.IH[OF y(2)] y(3) that by blast
  then show ?case using y(1,2) Cons.prems(1) by simp
qed simp

lemma alloc_lock_table:
  assumes "\<forall>l\<in>set free. fl_owner l = None"
  shows "alloc_lock t fd free fl =
    (case free of [] \<Rightarrow> Some None
     | _ # free' \<Rightarrow> Some (Some (fl\<lparr>fl_owner := Some t, fl_fd := fd, fl_wait := []\<rparr>, free')))"
  using assms by (auto simp: alloc_lock_def split: list.splits)

lemma owners_trim:
  assumes "\<forall>l\<in>set xs. listed l"
  shows "\<forall>l\<in>set (trim_left left c xs). listed l"
    and "\<forall>l\<in>set (trim_right r c xs). listed l"
proof -
  have upd: "\<forall>l\<in>set (xs[i := v]). listed l" if "fl_owner v = fl_owner (xs ! i)" "fl_type v = fl_type (xs ! i)" for i v
    by (rule all_update[OF assms]) (use that in \<open>simp add: listed_def\<close>)
  show "\<forall>l\<in>set (trim_right r c xs). listed l"
    unfolding trim_right_def by (rule upd) simp_all
  show "\<forall>l\<in>set (trim_left left c xs). listed l"
  proof (cases left)
    case None
    then show ?thesis using assms by (simp add: trim_left_def)
  next
    case (Some l)
    have "\<forall>k\<in>set (xs[l := (xs ! l)\<lparr>fl_end := fl_start c - 1\<rparr>]). listed k" by (rule upd) simp_all
    then show ?thesis using Some by (simp add: trim_left_def)
  qed
qed

lemma length_trim [simp]:
  "length (trim_left left c xs) = length xs" "length (trim_right r c xs) = length xs"
  by (simp_all add: trim_left_def trim_right_def split: option.split)

lemma length_insert_at [simp]: "length (insert_at i v xs) = Suc (length xs)"
  by (simp add: insert_at_def)

lemma owners_insert_at:
  "\<forall>l\<in>set xs. listed l \<Longrightarrow> listed v \<Longrightarrow>
   \<forall>l\<in>set (insert_at i v xs). listed l"
  by (simp add: set_insert_at)

text \<open>The entries after the possible insertion.\<close>

lemma table_new:
  assumes "ctx_table n x"
  shows "\<exists>r. lock_new t fd x = Some r \<and>
    (\<forall>M c left right free. r = Inr (M, c, left, right, free) \<longrightarrow> table_inv n M free \<and>
      (\<not> lc_added x \<longrightarrow> (\<exists>k. M = insert_at (length (lc_pre x)) k (lc_pre x @ lc_rest x))))"
proof -
  have f: "\<forall>l\<in>set (lc_free x). fl_owner l = None" using assms by (simp add: ctx_table_def table_inv_def)
  show ?thesis using assms
    by (auto simp: lock_new_def Let_def ctx_table_def alloc_lock_table[OF f] table_inv_def set_insert_at listed_def
             split: list.split)
qed

lemma table_split:
  assumes "table_inv n M free" "table_inv n (N @ K) F" "\<not> a \<longrightarrow> M = insert_at (length N) k (N @ K)"
    and l: "listed l"
  shows "\<exists>r. (case alloc_lock t fd free l of
           None \<Rightarrow> None
         | Some None \<Rightarrow>
             if a then Some \<lparr>lr_err = Some ENOLCK, lr_list = M, lr_free = free, lr_woken = w\<rparr>
             else map_option (\<lambda>(free', w').
                    \<lparr>lr_err = Some ENOLCK, lr_list = remove_at (length N) M, lr_free = free',
                     lr_woken = w @ w'\<rparr>) (free_lock free (M ! length N))
         | Some (Some (l, free')) \<Rightarrow>
             Some \<lparr>lr_err = None,
                   lr_list = trim_left (Some b) c (trim_right q c (insert_at b l M)),
                   lr_free = free', lr_woken = w\<rparr>) = Some r \<and> table_inv n (lr_list r) (lr_free r)"
proof -
  have f: "\<forall>l\<in>set free. fl_owner l = None" and M: "\<forall>l\<in>set M. listed l"
    using assms(1) by (simp_all add: table_inv_def)
  show ?thesis
  proof (cases free)
    case Nil
    show ?thesis
    proof (cases a)
      case True
      then show ?thesis using Nil assms(1) by (simp add: alloc_lock_def)
    next
      case False
      then have M': "M = N @ k # K" using assms(3) by (simp add: insert_at_def)
      moreover obtain u where "fl_owner k = Some u" using M M' by (auto simp: listed_def)
      ultimately show ?thesis using Nil False assms(1)
        by (simp add: alloc_lock_def free_lock_def remove_at_def table_inv_def ball_Un)
    qed
  next
    case (Cons h t)
    have "\<forall>k\<in>set (trim_left (Some b) c (trim_right q c (insert_at b (l\<lparr>fl_owner := Some u, fl_fd := d, fl_wait := []\<rparr>) M))). listed k" for u d
      by (intro owners_trim owners_insert_at M) (use l in \<open>simp add: listed_def\<close>)
    then show ?thesis using Cons assms(1) f unfolding alloc_lock_table[OF f]
      by (simp add: table_inv_def)
  qed
qed

lemma table_finish:
  assumes x: "ctx_table n x" and inv: "exit_inv L c0 x" and ok: "\<And>l. l \<in> set L \<Longrightarrow> lock_ok l"
    and own: "fl_owner c0 = Some t" "fl_fd c0 = fd"
  shows "\<exists>r. lock_finish t fd x = Some r \<and> table_inv n (lr_list r) (lr_free r)"
proof -
  obtain r where r: "lock_new t fd x = Some r"
    "\<And>M c left right free. r = Inr (M, c, left, right, free) \<Longrightarrow> table_inv n M free \<and>
      (\<not> lc_added x \<longrightarrow> (\<exists>k. M = insert_at (length (lc_pre x)) k (lc_pre x @ lc_rest x)))"
    using table_new[OF x] by blast
  have L: "table_inv n (lc_pre x @ lc_rest x) (lc_free x)" using x by (simp add: ctx_table_def)
  show ?thesis
  proof (cases r)
    case (Inl e)
    then show ?thesis using r(1) L by (simp add: lock_finish_def Let_def)
  next
    case (Inr z)
    obtain M c left right free where z: "z = (M, c, left, right, free)" by (cases z)
    have M: "table_inv n M free" using r(2) Inr z by blast
    then have Mo: "\<forall>l\<in>set M. listed l" by (simp add: table_inv_def)
    obtain k where k: "\<not> lc_added x \<longrightarrow> M = insert_at (length (lc_pre x)) k (lc_pre x @ lc_rest x)"
      using r(2) Inr z by blast
    have T: "table_inv n (trim_left lf c M) free" "table_inv n (trim_left lf c (trim_right q c M)) free" for lf q
      using M owners_trim(1)[OF Mo] owners_trim(1)[OF owners_trim(2)[OF Mo]]
      by (simp_all add: table_inv_def)
    show ?thesis
    proof (cases "\<exists>q. right = Some q \<and> left = Some q")
      case True
      then obtain q where q: "right = Some q" "left = Some q" by blast
      have "listed (M ! q)"
        using lock_new_inv[OF inv ok own] r(1) Inr z q Mo by (simp add: new_inv_def)
      from table_split[OF M L k this, where q = "Suc q" and t = t and fd = fd
          and w = "lc_woken x" and b = "length (lc_pre x)" and c = c]
      show ?thesis using r(1) Inr z q
        by (simp add: lock_finish_def Let_def)
    next
      case False
      then show ?thesis using r(1) Inr z T by (auto simp: lock_finish_def Let_def split: option.split)
    qed
  qed
qed

lemma lock_it_table:
  assumes tb: "table_inv n L free" and ok: "\<And>l. l \<in> set L \<Longrightarrow> lock_ok l"
    and c: "lock_ok c" "fl_owner c = Some t" "fl_fd c = fd" "fl_type c = F_UNLCK \<or> listed c"
  shows "\<exists>r. lock_it t fd L free c = Some r \<and> table_inv n (lr_list r) (lr_free r)"
proof -
  let ?x = "lock_start L free c"
  have "ctx_table n ?x" using tb c by (auto simp: lock_start_def ctx_table_def)
  from table_loop[OF this refl]
  obtain y where y: "lock_loop (lc_rest ?x) ?x = Some y" "ctx_table n y" by blast
  from loop_derived[OF ok start_inv[OF ok c(1)] refl y(1)] have "exit_inv L c y" .
  from table_finish[OF y(2) this ok c(2,3)] y(1) show ?thesis by (simp add: lock_it_def)
qed

end
