(* ===== verification/Lock_Map.thy ===== *)
theory Lock_Map
  imports Lock_Table
begin

text \<open>
  What \<^verbatim>\<open>lock_it\<close> does to the bytes of a file: on a well-formed list it changes the
  bytes of the request and no other byte, and leaves the list well-formed.
\<close>

section \<open>Well-formed lists\<close>

text \<open>The locks of one owner are sorted and disjoint, and stand together in the list.\<close>

definition sorted_disj :: "file_lock list \<Rightarrow> bool" where
  "sorted_disj B \<longleftrightarrow> sorted_wrt (\<lambda>a b. fl_end a < fl_start b) B \<and> (\<forall>l\<in>set B. fl_start l \<le> fl_end l)"

definition block_ok :: "file_lock \<Rightarrow> file_lock list \<Rightarrow> bool" where
  "block_ok c B \<longleftrightarrow> sorted_disj B \<and> (\<forall>l\<in>set B. same_owner c l \<and> listed l \<and> lock_ok l)"

definition held :: "file_lock set \<Rightarrow> int \<Rightarrow> int \<Rightarrow> bool" where
  "held S b t \<longleftrightarrow> (\<exists>l\<in>S. covers l b \<and> fl_type l = t)"

text \<open>The locks \<open>S\<close> with the request \<open>c\<close> laid over them.\<close>

definition overlay :: "file_lock \<Rightarrow> file_lock set \<Rightarrow> int \<Rightarrow> int \<Rightarrow> bool" where
  "overlay c S b t = (if covers c b then t = fl_type c else held S b t)"

lemma sorted_disj_append:
  "sorted_disj (A @ B) \<longleftrightarrow> sorted_disj A \<and> sorted_disj B \<and> (\<forall>a\<in>set A. \<forall>b\<in>set B. fl_end a < fl_start b)"
  by (auto simp: sorted_disj_def sorted_wrt_append)

lemma sorted_disj_Cons:
  "sorted_disj (a # B) \<longleftrightarrow> fl_start a \<le> fl_end a \<and> sorted_disj B \<and> (\<forall>b\<in>set B. fl_end a < fl_start b)"
  by (auto simp: sorted_disj_def)

lemma sorted_disj_Nil [simp]: "sorted_disj []"
  by (simp add: sorted_disj_def)

text \<open>Dropping a lock under the request, and merging one of its type.\<close>

lemma overlay_drop:
  assumes "\<And>b. covers fl b \<Longrightarrow> covers c b"
  shows "overlay c (insert fl S) b t = overlay c S b t"
  using assms by (auto simp: overlay_def held_def)

lemma overlay_merge:
  assumes "fl_type fl = fl_type c" "fl_type c' = fl_type c" "\<And>b. covers c' b = (covers c b \<or> covers fl b)"
    and "\<And>l. l \<in> S \<Longrightarrow> fl_end l < fl_start fl \<or> fl_end fl < fl_start l"
  shows "overlay c' S b t = overlay c (insert fl S) b t"
proof (cases "covers fl b")
  case True
  then have "\<not> covers l b" if "l \<in> S" for l using assms(4)[OF that] by (auto simp: covers_def)
  then show ?thesis using True assms(1-3) by (auto simp: overlay_def held_def)
next
  case False
  then show ?thesis using assms(1-3) by (auto simp: overlay_def held_def)
qed

lemma overlay_same:
  "fl_type c' = fl_type c \<Longrightarrow> fl_start c' = fl_start c \<Longrightarrow> fl_end c' = fl_end c \<Longrightarrow>
   overlay c' S = overlay c S"
  by (auto simp: overlay_def covers_def fun_eq_iff)

section \<open>The loop\<close>

text \<open>
  The list is \<open>P @ Q @ [c] @ R @ K\<close>: the locks of other owners before, those of the owner passed,
  the entry the request took over (if one), those of the owner to come, and the rest.
\<close>

definition map_inv ::
  "file_lock list \<Rightarrow> file_lock \<Rightarrow> file_lock list \<Rightarrow> file_lock list \<Rightarrow> file_lock list \<Rightarrow> file_lock list \<Rightarrow>
   lock_ctx \<Rightarrow> bool" where
  "map_inv B c0 P K Q R x \<longleftrightarrow>
     (let c = lc_caller x in
       lc_pre x = P @ Q @ (if lc_cpos x = None then [] else [c]) \<and> lc_rest x = R @ K \<and>
       lc_right x = None \<and> (lc_cpos x = None \<or> lc_cpos x = Some (length P + length Q)) \<and>
       lc_left x = (if \<exists>l\<in>set Q. fl_start c \<le> fl_end l then Some (length P + length Q - 1) else None) \<and>
       (\<forall>l\<in>set Q. fl_start l < fl_start c \<and> fl_end l \<le> fl_end c) \<and>
       block_ok c0 (Q @ R) \<and>
       (lc_cpos x \<noteq> None \<longrightarrow> (\<forall>l\<in>set R. fl_start c \<le> fl_start l)) \<and>
       same_owner c0 c \<and> fl_type c = fl_type c0 \<and> fl_start c \<le> fl_end c \<and> lock_ok c \<and>
       (fl_end c < OFFSET_MAX \<or> R = []) \<and>
       (lc_added x \<longrightarrow> lc_cpos x \<noteq> None \<or> fl_type c0 = F_UNLCK) \<and>
       (lc_cpos x \<noteq> None \<longrightarrow> lc_added x \<and> fl_type c0 \<noteq> F_UNLCK) \<and>
       (fl_type c0 = F_UNLCK \<longrightarrow> c = c0) \<and>
       (\<forall>b t. overlay c (set Q \<union> set R) b t = overlay c0 (set B) b t))"

text \<open>The two ways out: beyond the request, or in the middle of a lock of another type.\<close>

definition map_exit ::
  "file_lock list \<Rightarrow> file_lock \<Rightarrow> file_lock list \<Rightarrow> file_lock list \<Rightarrow> lock_ctx \<Rightarrow> bool" where
  "map_exit B c0 P K y \<longleftrightarrow> (\<exists>Q R.
     (map_inv B c0 P K Q R y \<and> (\<forall>l\<in>set R. fl_end (lc_caller y) < fl_start l)) \<or>
     (\<exists>x fl R'. map_inv B c0 P K Q R x \<and> R = fl # R' \<and>
        fl_start (lc_caller x) \<le> fl_end fl \<and> fl_start fl \<le> fl_end (lc_caller x) \<and>
        fl_end (lc_caller x) < fl_end fl \<and> fl_type fl \<noteq> fl_type c0 \<and>
        y = (mark_left fl x)\<lparr>lc_right := Some (length (lc_pre x))\<rparr>))"

lemma map_round_pass:
  assumes inv: "map_inv B c0 P K Q (fl # R) x" and lt: "fl_end fl < fl_start (lc_caller x)"
  shows "map_inv B c0 P K (Q @ [fl]) R (next_lock fl (R @ K) x)"
proof -
  have s: "fl_start fl \<le> fl_end fl" "\<forall>l\<in>set Q. fl_end l < fl_start fl"
    using inv by (auto simp: map_inv_def Let_def block_ok_def sorted_disj_append sorted_disj_Cons)
  have c: "lc_cpos x = None" using inv lt s by (auto simp: map_inv_def Let_def)
  have q: "\<not> (\<exists>l\<in>set Q. fl_start (lc_caller x) \<le> fl_end l)" using s lt by force
  show ?thesis using inv c q lt s by (auto simp: map_inv_def Let_def next_lock_def)
qed

lemma sorted_disj_le: "sorted_disj B \<Longrightarrow> l \<in> set B \<Longrightarrow> fl_start l \<le> fl_end l"
  by (simp add: sorted_disj_def)

lemma map_inv_block:
  assumes "map_inv B c0 P K Q (fl # R) x"
  shows "fl_start fl \<le> fl_end fl" "\<forall>l\<in>set Q. fl_start l \<le> fl_end l \<and> fl_end l < fl_start fl"
    "\<forall>l\<in>set R. fl_start l \<le> fl_end l \<and> fl_end fl < fl_start l" "lock_ok fl" "listed fl" "same_owner c0 fl"
    "\<forall>l\<in>set R. fl_end l \<le> OFFSET_MAX" "fl_end (lc_caller x) < OFFSET_MAX"
proof -
  have b: "block_ok c0 (Q @ fl # R)" and "fl_end (lc_caller x) < OFFSET_MAX"
    using assms by (simp_all add: map_inv_def Let_def)
  then show "fl_start fl \<le> fl_end fl" "\<forall>l\<in>set Q. fl_start l \<le> fl_end l \<and> fl_end l < fl_start fl"
    "\<forall>l\<in>set R. fl_start l \<le> fl_end l \<and> fl_end fl < fl_start l" "lock_ok fl" "listed fl" "same_owner c0 fl"
    "\<forall>l\<in>set R. fl_end l \<le> OFFSET_MAX" "fl_end (lc_caller x) < OFFSET_MAX"
    using sorted_disj_le[of "Q @ fl # R"]
    by (simp_all add: block_ok_def sorted_disj_append sorted_disj_Cons lock_ok_def)
qed

lemma map_round_left:
  assumes inv: "map_inv B c0 P K Q (fl # R) x"
    and g: "fl_start (lc_caller x) \<le> fl_end fl" "fl_end fl \<le> fl_end (lc_caller x)"
      "fl_start fl < fl_start (lc_caller x)"
  shows "map_inv B c0 P K (Q @ [fl]) R (next_lock fl (R @ K) (mark_left fl x))"
proof -
  have c: "lc_cpos x = None" using inv g by (auto simp: map_inv_def Let_def)
  have q: "\<not> (\<exists>l\<in>set Q. fl_start (lc_caller x) \<le> fl_end l)" using map_inv_block(2)[OF inv] g(3) by force
  show ?thesis using inv c g q
    by (cases "fl_type c0 = F_UNLCK") (simp_all add: map_inv_def Let_def next_lock_def mark_left_def, auto)
qed

lemma map_inv_drop:
  assumes inv: "map_inv B c0 P K Q (fl # R) x"
    and "\<And>b. covers fl b \<Longrightarrow> covers (lc_caller x) b"
    and "drop_lock k (R @ K) x = Some y"
  shows "map_inv B c0 P K Q R y"
proof -
  have "overlay (lc_caller x) (set Q \<union> set R) b t = overlay (lc_caller x) (set Q \<union> set (fl # R)) b t" for b t
    using overlay_drop[OF assms(2), where S = "set Q \<union> set R"] by simp
  moreover have "block_ok c0 (Q @ R)" using inv
    by (auto simp: map_inv_def Let_def block_ok_def sorted_disj_append sorted_disj_Cons)
  moreover obtain fr w where "y = x\<lparr>lc_rest := R @ K, lc_free := fr, lc_woken := w\<rparr>"
    using assms(3) by (auto simp: drop_lock_def)
  ultimately show ?thesis using inv by (simp add: map_inv_def Let_def)
qed

lemma map_inv_added_unlck:
  "map_inv B c0 P K Q R x \<Longrightarrow> fl_type (lc_caller x) = F_UNLCK \<Longrightarrow> map_inv B c0 P K Q R (x\<lparr>lc_added := True\<rparr>)"
  by (auto simp: map_inv_def Let_def)

lemma map_round_take:
  assumes inv: "map_inv B c0 P K Q (fl # R) x" and na: "\<not> lc_added x" and nu: "fl_type c0 \<noteq> F_UNLCK"
    and fl': "fl_type fl' = fl_type c0" "same_owner c0 fl'"
      "fl_start fl' = min (fl_start fl) (fl_start (lc_caller x))"
      "fl_end fl' = max (fl_end fl) (fl_end (lc_caller x))"
    and adj: "fl_start (lc_caller x) - 1 \<le> fl_end fl" "fl_start fl \<le> fl_end (lc_caller x) + 1"
    and ty: "fl_type fl = fl_type c0 \<or> fl_start (lc_caller x) \<le> fl_start fl \<and> fl_end fl \<le> fl_end (lc_caller x)"
  shows "map_inv B c0 P K Q R ((next_lock fl' (R @ K) x)\<lparr>lc_woken := w, lc_caller := fl',
            lc_cpos := Some (length (lc_pre x)), lc_added := True\<rparr>)"
proof -
  let ?c = "lc_caller x"
  note bl = map_inv_block[OF inv]
  have x: "lc_cpos x = None" "lc_pre x = P @ Q" "fl_type ?c = fl_type c0" "lock_ok ?c" "fl_start ?c \<le> fl_end ?c"
    using inv na by (auto simp: map_inv_def Let_def)
  have cov: "covers fl' b = (covers ?c b \<or> covers fl b)" for b
    using fl' adj x(5) bl(1) by (auto simp: covers_def min_def max_def)
  have ov: "overlay fl' (set Q \<union> set R) b t = overlay ?c (set Q \<union> set (fl # R)) b t" for b t
  proof (cases "fl_type fl = fl_type c0")
    case True
    have "overlay fl' (set Q \<union> set R) b t = overlay ?c (insert fl (set Q \<union> set R)) b t"
      by (rule overlay_merge) (use True fl'(1) x(3) cov bl in auto)
    then show ?thesis by simp
  next
    case False
    then have sub: "covers fl b \<Longrightarrow> covers ?c b" for b using ty by (auto simp: covers_def)
    have "overlay ?c (insert fl (set Q \<union> set R)) b t = overlay ?c (set Q \<union> set R) b t"
      by (rule overlay_drop) (rule sub)
    moreover have "overlay fl' (set Q \<union> set R) = overlay ?c (set Q \<union> set R)"
      using cov sub fl'(1) x(3) by (auto simp: overlay_def fun_eq_iff)
    ultimately show ?thesis by simp
  qed
  have left: "(\<exists>l\<in>set Q. fl_start fl' \<le> fl_end l) = (\<exists>l\<in>set Q. fl_start ?c \<le> fl_end l)"
    by (rule bex_cong) (use bl(2) fl'(3) in \<open>auto simp: min_def\<close>)
  have Q: "\<forall>l\<in>set Q. fl_start l < fl_start fl' \<and> fl_end l \<le> fl_end fl'"
    using inv bl(1,2) fl'(3,4) by (fastforce simp: map_inv_def Let_def)
  have R: "\<forall>l\<in>set R. fl_start fl' \<le> fl_start l"
    using bl(1,3) fl'(3) adj(1) by fastforce
  have mx: "fl_end fl' < OFFSET_MAX \<or> R = []"
  proof (cases R)
    case (Cons r R')
    then have "fl_end fl < OFFSET_MAX" using bl(3,7) by fastforce
    then show ?thesis using bl(8) fl'(4) by simp
  qed simp
  have "block_ok c0 (Q @ R)" using inv
    by (auto simp: map_inv_def Let_def block_ok_def sorted_disj_append sorted_disj_Cons)
  moreover have "fl_start fl' \<le> fl_end fl'" "lock_ok fl'" using fl' x(4,5) bl(1,4) by (auto simp: lock_ok_def)
  ultimately show ?thesis using inv x(1,2) left Q R mx ov fl'(1,2) nu
    by (simp add: map_inv_def Let_def next_lock_def)
qed

text \<open>Merging into the entry the request has taken over.\<close>

lemma map_round_merge:
  assumes inv: "map_inv B c0 P K Q (fl # R) x" and cp: "lc_cpos x \<noteq> None" and ty: "fl_type fl = fl_type c0"
    and adj: "fl_start fl \<le> fl_end (lc_caller x) + 1"
    and d: "drop_lock k (R @ K) (put_caller (merged (lc_caller x) fl) x) = Some y"
  shows "map_inv B c0 P K Q R y"
proof -
  let ?c = "lc_caller x" and ?c' = "merged (lc_caller x) fl"
  note bl = map_inv_block[OF inv]
  have x: "lc_cpos x = Some (length P + length Q)" "lc_pre x = P @ Q @ [?c]" "fl_type ?c = fl_type c0"
      "lock_ok ?c" "fl_start ?c \<le> fl_end ?c" "fl_start ?c \<le> fl_start fl"
    using inv cp by (auto simp: map_inv_def Let_def)
  have st: "fl_start ?c' = fl_start ?c" using x(6) by simp
  have cov: "covers ?c' b = (covers ?c b \<or> covers fl b)" for b
    using adj x(5,6) bl(1) by (auto simp: covers_def min_def max_def)
  have "overlay ?c' (set Q \<union> set R) b t = overlay ?c (insert fl (set Q \<union> set R)) b t" for b t
    by (rule overlay_merge) (use ty x(3) cov bl in auto)
  moreover have mx: "max (fl_end ?c) (fl_end fl) < OFFSET_MAX \<or> R = []"
  proof (cases R)
    case (Cons r R')
    then have "fl_end fl < OFFSET_MAX" using bl(3,7) by fastforce
    then show ?thesis using bl(8) by simp
  qed simp
  moreover have "block_ok c0 (Q @ R)" using inv
    by (auto simp: map_inv_def Let_def block_ok_def sorted_disj_append sorted_disj_Cons)
  moreover have "lock_ok ?c'" using lock_ok_merged x(4) bl(4) by blast
  moreover obtain fr w where y: "y = x\<lparr>lc_caller := ?c', lc_pre := P @ Q @ [?c'], lc_rest := R @ K,
      lc_free := fr, lc_woken := w\<rparr>"
    using d x(1,2) by (auto simp: drop_lock_def put_caller_def list_update_append)
  moreover have "\<forall>l\<in>set Q. fl_start l < fl_start ?c \<and> fl_end l \<le> max (fl_end ?c) (fl_end fl)"
    "\<forall>l\<in>set R. fl_start ?c \<le> fl_start l" "fl_start ?c \<le> max (fl_end ?c) (fl_end fl)" "fl_type c0 \<noteq> F_UNLCK"
    using inv cp by (auto simp: map_inv_def Let_def)
  ultimately show ?thesis using inv x(1) st
    by (simp add: map_inv_def Let_def)
qed

lemma map_exit_stop:
  assumes inv: "map_inv B c0 P K Q (fl # R) x" and "fl_end (lc_caller x) < fl_start fl"
  shows "map_exit B c0 P K x"
proof -
  have "\<forall>l\<in>set (fl # R). fl_end (lc_caller x) < fl_start l"
    using assms(2) map_inv_block(1,3)[OF inv] by auto
  then show ?thesis using inv unfolding map_exit_def by blast
qed

lemma map_exit_right:
  assumes "map_inv B c0 P K Q (fl # R) x" "fl_start (lc_caller x) \<le> fl_end fl"
    "fl_start fl \<le> fl_end (lc_caller x)" "fl_end (lc_caller x) < fl_end fl" "fl_type fl \<noteq> fl_type c0"
  shows "map_exit B c0 P K ((mark_left fl x)\<lparr>lc_right := Some (length (lc_pre x))\<rparr>)"
  unfolding map_exit_def using assms by blast

lemma map_round:
  assumes inv: "map_inv B c0 P K Q (fl # R) x" and r: "lock_round fl (R @ K) x = Some (y, b)"
  shows "if b then \<exists>Q'. map_inv B c0 P K Q' R y else map_exit B c0 P K y"
proof -
  let ?c = "lc_caller x"
  note bl = map_inv_block[OF inv]
  have c: "fl_type ?c = fl_type c0" "same_owner c0 ?c" "- 1 \<le> fl_end ?c" "fl_start ?c \<le> fl_end ?c"
    using inv by (auto simp: map_inv_def Let_def lock_ok_def)
  have w: "wrap32 (fl_end ?c + 1) = fl_end ?c + 1"
    using bl(8) c(3) by (intro wrap32_id) (auto simp: OFFSET_MAX_def)
  show ?thesis
  proof (cases "fl_type ?c = fl_type fl")
    case same: True
    then have nu: "fl_type c0 \<noteq> F_UNLCK" using bl(5) c(1) by (auto simp: listed_def)
    consider (far) "fl_end fl < fl_start ?c - 1 \<or> fl_start fl > wrap32 (fl_end ?c + 1)"
      | (merge) "\<not> fl_end fl < fl_start ?c - 1" "\<not> fl_start fl > wrap32 (fl_end ?c + 1)" by blast
    then show ?thesis
    proof cases
      case far
      show ?thesis using r map_round_pass[OF inv] map_exit_stop[OF inv] far w
        unfolding lock_round_far[OF same far] by (auto split: if_splits)
    next
      case merge
      show ?thesis
      proof (cases "lc_added x")
        case True
        then have "lc_cpos x \<noteq> None" using inv nu by (auto simp: map_inv_def Let_def)
        from map_round_merge[OF inv this] show ?thesis using r True same c(1) merge w
          unfolding lock_round_merge[OF same merge] by (auto simp: Let_def)
      next
        case False
        let ?x2 = "put_caller (merged ?c fl) x"
        have cp: "lc_cpos x = None" using inv False by (auto simp: map_inv_def Let_def)
        have "map_inv B c0 P K Q R ((next_lock (merged fl ?c) (R @ K) x)\<lparr>lc_woken := lc_woken x, lc_caller := merged fl ?c,
            lc_cpos := Some (length (lc_pre x)), lc_added := True\<rparr>)"
          by (rule map_round_take[OF inv False nu]) (use same c bl(6) merge w in auto)
        then show ?thesis using r False cp unfolding lock_round_merge[OF same merge]
          by (auto simp: Let_def put_caller_def next_lock_def)
      qed
    qed
  next
    case other: False
    consider (pass) "fl_end fl < fl_start ?c" | (stop) "\<not> fl_end fl < fl_start ?c" "fl_start fl > fl_end ?c"
      | (right) "\<not> fl_end fl < fl_start ?c" "\<not> fl_start fl > fl_end ?c" "fl_end fl > fl_end ?c"
      | (left) "\<not> fl_end fl < fl_start ?c" "\<not> fl_start fl > fl_end ?c" "\<not> fl_end fl > fl_end ?c" "fl_start fl < fl_start ?c"
      | (repl) "\<not> fl_end fl < fl_start ?c" "\<not> fl_start fl > fl_end ?c" "\<not> fl_end fl > fl_end ?c" "\<not> fl_start fl < fl_start ?c"
      by blast
    then show ?thesis
    proof cases
      case pass
      then show ?thesis using r map_round_pass[OF inv pass] unfolding lock_round_other[OF other] by auto
    next
      case stop
      then show ?thesis using r map_exit_stop[OF inv] unfolding lock_round_other[OF other] by auto
    next
      case right
      have y: "y = (mark_left fl x)\<lparr>lc_right := Some (length (lc_pre x))\<rparr>" "\<not> b"
        using r right unfolding lock_round_other[OF other] by (auto simp: Let_def mark_left_def split: if_splits)
      show ?thesis using y map_exit_right[OF inv] right other c(1) by auto
    next
      case left
      then show ?thesis using r map_round_left[OF inv] unfolding lock_round_other[OF other]
        by (auto simp: Let_def)
    next
      case repl
      let ?x2 = "if fl_type ?c = F_UNLCK then x\<lparr>lc_added := True\<rparr> else x"
      have x2: "mark_left fl x = ?x2" using repl by (simp add: mark_left_def)
      have inv2: "map_inv B c0 P K Q (fl # R) ?x2" using inv map_inv_added_unlck[OF inv] by simp
      have c2: "lc_caller ?x2 = ?c" by simp
      have sub: "\<And>b. covers fl b \<Longrightarrow> covers (lc_caller ?x2) b" using repl by (auto simp: covers_def)
      show ?thesis
      proof (cases "lc_added ?x2")
        case True
        then obtain d where "drop_lock fl (R @ K) ?x2 = Some d" "y = d" b
          using r repl unfolding lock_round_other[OF other] x2 by (auto simp: Let_def)
        then show ?thesis using map_inv_drop[OF inv2 sub] by auto
      next
        case False
        then have nu: "fl_type c0 \<noteq> F_UNLCK" using c(1) by (auto split: if_splits)
        have "map_inv B c0 P K Q R ((next_lock (retyped fl ?c) (R @ K) ?x2)\<lparr>lc_woken := w, lc_caller := retyped fl ?c,
            lc_cpos := Some (length (lc_pre ?x2)), lc_added := True\<rparr>)" for w
          by (rule map_round_take[OF inv2 False nu]) (use c bl(6) repl c2 in \<open>auto simp: retyped_def\<close>)
        then show ?thesis using r repl False unfolding lock_round_other[OF other] x2 Let_def by auto
      qed
    qed
  qed
qed

lemma map_loop:
  assumes K: "\<forall>l\<in>set K. \<not> same_owner c0 l"
  shows "map_inv B c0 P K Q R x \<Longrightarrow> lock_loop (R @ K) x = Some y \<Longrightarrow> map_exit B c0 P K y"
proof (induction R arbitrary: Q x)
  case Nil
  have "y = x"
  proof (cases K)
    case (Cons k K')
    have "same_owner c0 (lc_caller x)" using Nil.prems(1) by (simp add: map_inv_def Let_def)
    then have "\<not> same_owner (lc_caller x) k" using K Cons same_owner_trans by auto
    then show ?thesis using Nil.prems(2) Cons by simp
  qed (use Nil.prems(2) in simp)
  then show ?case using Nil.prems(1) unfolding map_exit_def by fastforce
next
  case (Cons fl R)
  have "same_owner (lc_caller x) fl" using Cons.prems(1) map_inv_block(6)[OF Cons.prems(1)]
    by (auto simp: map_inv_def Let_def same_owner_def)
  then obtain z b where z: "lock_round fl (R @ K) x = Some (z, b)" "if b then lock_loop (R @ K) z = Some y else z = y"
    using Cons.prems(2) by (auto split: option.splits if_splits)
  then show ?case using map_round[OF Cons.prems(1) z(1)] Cons.IH by (auto split: if_splits)
qed

section \<open>After the loop\<close>

definition cut_end :: "file_lock \<Rightarrow> file_lock \<Rightarrow> file_lock" where
  "cut_end c l = (if fl_start c \<le> fl_end l then l\<lparr>fl_end := fl_start c - 1\<rparr> else l)"

lemma cut_end_id: "\<forall>l\<in>set Q. fl_end l < fl_start c \<Longrightarrow> map (cut_end c) Q = Q"
  by (induction Q) (auto simp: cut_end_def)

lemma trim_left_block:
  assumes "sorted_disj Q" "\<forall>l\<in>set Q. fl_start l < fl_start c"
    and "left = (if \<exists>l\<in>set Q. fl_start c \<le> fl_end l then Some (length P + length Q - 1) else None)"
  shows "trim_left left c (P @ Q @ X) = P @ map (cut_end c) Q @ X"
proof (cases Q rule: rev_cases)
  case Nil
  then show ?thesis using assms(3) by (simp add: trim_left_def)
next
  case (snoc Q0 q)
  have Q0: "\<forall>l\<in>set Q0. fl_end l < fl_start c"
    using assms(1,2) snoc by (force simp: sorted_disj_append)
  show ?thesis
  proof (cases "fl_start c \<le> fl_end q")
    case True
    then show ?thesis using assms(3) snoc Q0 cut_end_id[OF Q0]
      by (simp add: trim_left_def list_update_append nth_append cut_end_def)
  next
    case False
    then have "left = None" using assms(3) snoc Q0 by force
    then show ?thesis using snoc Q0 cut_end_id[OF Q0] False by (simp add: trim_left_def cut_end_def)
  qed
qed

text \<open>The pieces of the result: \<open>A\<close> below the request, \<open>C\<close> its entry, \<open>D\<close> above it.\<close>

lemma pieces_block:
  assumes "block_ok c0 A" "block_ok c0 D" "\<forall>l\<in>set A. fl_end l < fl_start c" "\<forall>l\<in>set D. fl_end c < fl_start l"
    and "fl_start c \<le> fl_end c"
    and "C = [] \<or> C = [k] \<and> fl_start k = fl_start c \<and> fl_end k = fl_end c \<and> same_owner c0 k \<and> listed k \<and> lock_ok k"
  shows "block_ok c0 (A @ C @ D)"
  using assms by (fastforce simp: block_ok_def sorted_disj_append sorted_disj_Cons)

lemma pieces_held:
  assumes "\<forall>l\<in>set A. fl_end l < fl_start c" "\<forall>l\<in>set D. fl_end c < fl_start l"
    and "C = [] \<or> C = [k] \<and> fl_start k = fl_start c \<and> fl_end k = fl_end c \<and> fl_type k = fl_type c"
    and A: "\<And>b t. b < fl_start c \<Longrightarrow> held (set A) b t = held S b t"
    and D: "\<And>b t. fl_end c < b \<Longrightarrow> held (set D) b t = held S b t"
    and "fl_start c \<le> fl_end c"
  shows "held (set (A @ C @ D)) b t = (if covers c b then C \<noteq> [] \<and> t = fl_type c else held S b t)"
proof -
  have un: "held (set (A @ C @ D)) b t \<longleftrightarrow> held (set A) b t \<or> held (set C) b t \<or> held (set D) b t"
    by (auto simp: held_def)
  have a: "\<not> held (set A) b t" if "fl_start c \<le> b" using assms(1) that by (auto simp: held_def covers_def)
  have d: "\<not> held (set D) b t" if "b \<le> fl_end c" using assms(2) that by (auto simp: held_def covers_def)
  have C: "held (set C) b t \<longleftrightarrow> C \<noteq> [] \<and> covers c b \<and> t = fl_type c"
    using assms(3) by (auto simp: held_def covers_def)
  consider "b < fl_start c" | "covers c b" | "fl_end c < b" by (force simp: covers_def)
  then show ?thesis
  proof cases
    case 1
    then show ?thesis using un d A C assms(6) by (simp add: covers_def)
  next
    case 2
    then show ?thesis using un a d C by (simp add: covers_def)
  next
    case 3
    then show ?thesis using un a D C assms(6) by (simp add: covers_def)
  qed
qed

text \<open>The list with the entry of the request.\<close>

lemma map_new:
  assumes inv: "map_inv B c0 P K Q R x" and own: "fl_owner c0 = Some t" "fl_fd c0 = fd"
    and y: "y = x\<lparr>lc_added := a, lc_left := lf, lc_right := rt\<rparr>"
    and a: "lc_added x \<longrightarrow> a" "a \<longrightarrow> lc_added x \<or> fl_type c0 = F_UNLCK"
    and ty: "fl_type c0 = F_UNLCK \<or> listed c0"
    and n: "lock_new t fd y = Some (Inr (M, c, left, right, free))"
  shows "\<exists>C. M = P @ Q @ C @ R @ K \<and> length (lc_pre x @ lc_rest x) + (if a then 0 else 1) = length M \<and>
    (C = [] \<longleftrightarrow> fl_type c0 = F_UNLCK) \<and>
    (C = [] \<or> C = [c] \<and> same_owner c0 c \<and> listed c \<and> lock_ok c) \<and>
    fl_start c = fl_start (lc_caller x) \<and> fl_end c = fl_end (lc_caller x) \<and> fl_type c = fl_type c0 \<and>
    left = (if a then lf else map_option (shift_at (length (lc_pre x))) lf) \<and>
    right = (if a then rt else map_option (shift_at (length (lc_pre x))) rt) \<and>
    length (P @ Q @ C) = length (lc_pre x) + (if a then 0 else 1)"
proof (cases a)
  case True
  have x: "lc_pre x = P @ Q @ (if lc_cpos x = None then [] else [lc_caller x])" "lc_rest x = R @ K"
      "same_owner c0 (lc_caller x)" "fl_type (lc_caller x) = fl_type c0" "lock_ok (lc_caller x)"
      "lc_cpos x = None \<longleftrightarrow> fl_type c0 = F_UNLCK"
    using inv a True by (auto simp: map_inv_def Let_def)
  have M: "M = lc_pre x @ lc_rest x" "c = lc_caller x" "left = lf" "right = rt"
    using n y True by (auto simp: lock_new_def Let_def)
  have "fl_type c0 = F_UNLCK \<or> listed c" using ty x(3,4) M(2) by (auto simp: listed_def same_owner_def)
  then show ?thesis using True x M
    by (intro exI[of _ "if fl_type c0 = F_UNLCK then [] else [c]"]) auto
next
  case False
  let ?k = "(lc_caller x)\<lparr>fl_owner := Some t, fl_fd := fd, fl_wait := []\<rparr>"
  have x: "lc_cpos x = None" "lc_pre x = P @ Q" "lc_rest x = R @ K" "same_owner c0 (lc_caller x)"
      "fl_type (lc_caller x) = fl_type c0" "lock_ok (lc_caller x)"
    using inv a(1) False by (auto simp: map_inv_def Let_def)
  obtain fr where k: "alloc_lock t fd (lc_free x) (lc_caller x) = Some (Some (c, fr))" "fl_type c0 \<noteq> F_UNLCK"
      "M = insert_at (length (lc_pre x)) c (lc_pre x @ lc_rest x)"
      "left = map_option (shift_at (length (lc_pre x))) lf" "right = map_option (shift_at (length (lc_pre x))) rt"
    using n y False x(5) by (auto simp: lock_new_def Let_def split: if_splits option.splits)
  have c: "c = ?k" using k(1) by (auto simp: alloc_lock_def split: list.splits if_splits)
  have "listed c" "same_owner c0 c" "lock_ok c"
    using c x(4-6) ty k(2) own by (auto simp: listed_def same_owner_def lock_ok_def)
  then show ?thesis using False k x c by (intro exI[of _ "[c]"]) (simp add: insert_at_def)
qed

text \<open>The outcome: the block of the owner is replaced, every other lock keeps its place.\<close>

definition outcome :: "file_lock list \<Rightarrow> file_lock \<Rightarrow> file_lock list \<Rightarrow> file_lock list \<Rightarrow> file_lock list \<Rightarrow> bool" where
  "outcome B c0 P K L \<longleftrightarrow> (\<exists>F. L = P @ F @ K \<and> block_ok c0 F \<and>
     (\<forall>b t. held (set F) b t =
        (if covers c0 b then fl_type c0 \<noteq> F_UNLCK \<and> t = fl_type c0 else held (set B) b t)))"

lemma outcome_pieces:
  assumes inv: "map_inv B c0 P K Q R x"
    and A: "block_ok c0 A" "\<forall>l\<in>set A. fl_end l < fl_start (lc_caller x)"
      "\<And>b t. b < fl_start (lc_caller x) \<Longrightarrow> held (set A) b t = held (set Q \<union> set R) b t"
    and D: "block_ok c0 D" "\<forall>l\<in>set D. fl_end (lc_caller x) < fl_start l"
      "\<And>b t. fl_end (lc_caller x) < b \<Longrightarrow> held (set D) b t = held (set Q \<union> set R) b t"
    and C: "C = [] \<longleftrightarrow> fl_type c0 = F_UNLCK" "C = [] \<or> C = [c] \<and> same_owner c0 c \<and> listed c \<and> lock_ok c"
      "fl_start c = fl_start (lc_caller x)" "fl_end c = fl_end (lc_caller x)" "fl_type c = fl_type c0"
  shows "outcome B c0 P K (P @ (A @ C @ D) @ K)"
proof -
  let ?c = "lc_caller x"
  have x: "fl_start ?c \<le> fl_end ?c" "fl_type ?c = fl_type c0" "fl_type c0 = F_UNLCK \<longrightarrow> ?c = c0"
      "\<And>b t. overlay ?c (set Q \<union> set R) b t = overlay c0 (set B) b t"
    using inv by (auto simp: map_inv_def Let_def)
  have bl: "block_ok c0 (A @ C @ D)"
    by (rule pieces_block[OF A(1) D(1) A(2) D(2) x(1), of _ c]) (use C in auto)
  have h: "held (set (A @ C @ D)) b t = (if covers ?c b then C \<noteq> [] \<and> t = fl_type ?c else held (set Q \<union> set R) b t)" for b t
    by (rule pieces_held[OF A(2) D(2) _ A(3) D(3) x(1), of _ c]) (use C x(2) in auto)
  have "held (set (A @ C @ D)) b t =
      (if covers c0 b then fl_type c0 \<noteq> F_UNLCK \<and> t = fl_type c0 else held (set B) b t)" for b t
    using h[of b t] x(4)[of b t] x(2,3) C(1) by (auto simp: overlay_def split: if_splits)
  with bl show ?thesis unfolding outcome_def by blast
qed

lemma block_ok_append: "block_ok c0 (A @ B) \<Longrightarrow> block_ok c0 A \<and> block_ok c0 B"
  by (auto simp: block_ok_def sorted_disj_append)

lemma block_ok_cut_end:
  assumes "block_ok c0 Q" "\<forall>l\<in>set Q. fl_start l < fl_start c"
  shows "block_ok c0 (map (cut_end c) Q)" "\<forall>l\<in>set (map (cut_end c) Q). fl_end l < fl_start c"
    "b < fl_start c \<Longrightarrow> held (set (map (cut_end c) Q)) b t = held (set Q) b t"
proof -
  have e: "fl_end (cut_end c l) \<le> fl_end l" "fl_start (cut_end c l) = fl_start l" for l
    by (auto simp: cut_end_def)
  have "sorted_wrt (\<lambda>a b. fl_end a < fl_start b) (map (cut_end c) Q)"
    using assms(1) e unfolding block_ok_def sorted_disj_def sorted_wrt_map
    by (auto elim!: sorted_wrt_mono_rel[rotated] dest: le_less_trans)
  moreover have "\<forall>l\<in>set Q. fl_start (cut_end c l) \<le> fl_end (cut_end c l) \<and> same_owner c0 (cut_end c l)
      \<and> listed (cut_end c l) \<and> lock_ok (cut_end c l)"
    using assms by (fastforce simp: cut_end_def block_ok_def sorted_disj_def listed_def lock_ok_def)
  ultimately show "block_ok c0 (map (cut_end c) Q)" by (simp add: block_ok_def sorted_disj_def)
  show "\<forall>l\<in>set (map (cut_end c) Q). fl_end l < fl_start c" by (auto simp: cut_end_def)
  show "b < fl_start c \<Longrightarrow> held (set (map (cut_end c) Q)) b t = held (set Q) b t"
    unfolding held_def set_map bex_simps(7)
    by (rule bex_cong) (auto simp: cut_end_def covers_def)
qed

lemma held_Un: "held (S \<union> T) b t \<longleftrightarrow> held S b t \<or> held T b t"
  by (auto simp: held_def)

lemma not_held_above: "\<forall>l\<in>S. a \<le> fl_start l \<Longrightarrow> b < a \<Longrightarrow> \<not> held S b t"
  by (auto simp: held_def covers_def)

lemma not_held_below: "\<forall>l\<in>S. fl_end l \<le> e \<Longrightarrow> e < b \<Longrightarrow> \<not> held S b t"
  by (auto simp: held_def covers_def)

lemma map_finish_plain:
  assumes inv: "map_inv B c0 P K Q R y" and R: "\<forall>l\<in>set R. fl_end (lc_caller y) < fl_start l"
    and own: "fl_owner c0 = Some t" "fl_fd c0 = fd" and ty: "fl_type c0 = F_UNLCK \<or> listed c0"
    and f: "lock_finish t fd y = Some r" "lr_err r = None"
  shows "outcome B c0 P K (lr_list r)"
proof -
  let ?c = "lc_caller y"
  have x: "lc_right y = None" "fl_start ?c \<le> fl_end ?c" "\<forall>l\<in>set Q. fl_start l < fl_start ?c \<and> fl_end l \<le> fl_end ?c"
    "block_ok c0 (Q @ R)" "length P + length Q \<le> length (lc_pre y)"
    "lc_left y = (if \<exists>l\<in>set Q. fl_start ?c \<le> fl_end l then Some (length P + length Q - 1) else None)"
    using inv by (auto simp: map_inv_def Let_def)
  obtain M c left free where n: "lock_new t fd y = Some (Inr (M, c, left, None, free))" "lr_list r = trim_left left c M"
    using f x(1) by (auto simp: lock_finish_def lock_new_def Let_def split: option.splits sum.splits if_splits)
  have yy: "y = y\<lparr>lc_added := lc_added y, lc_left := lc_left y, lc_right := lc_right y\<rparr>" by simp
  obtain C where C: "M = P @ Q @ C @ R @ K" "C = [] \<longleftrightarrow> fl_type c0 = F_UNLCK"
    "C = [] \<or> C = [c] \<and> same_owner c0 c \<and> listed c \<and> lock_ok c"
    "fl_start c = fl_start ?c" "fl_end c = fl_end ?c" "fl_type c = fl_type c0"
    "left = (if lc_added y then lc_left y else map_option (shift_at (length (lc_pre y))) (lc_left y))"
    using map_new[OF inv own yy _ _ ty n(1)] by blast
  have "left = lc_left y" using C(7) x(5,6) by (cases Q) (auto simp: shift_at_def)
  then have L: "lr_list r = P @ (map (cut_end c) Q @ C @ R) @ K"
    unfolding n(2) C(1) using trim_left_block[of Q c left P "C @ R @ K"] x C(4)
    by (simp add: block_ok_def sorted_disj_append)
  have Qb: "block_ok c0 Q" "block_ok c0 R" using block_ok_append[OF x(4)] by auto
  have Qs: "\<forall>l\<in>set Q. fl_start l < fl_start c" using x(3) C(4) by simp
  note cut = block_ok_cut_end[OF Qb(1) Qs]
  show ?thesis unfolding L
  proof (rule outcome_pieces[OF inv cut(1) _ _ Qb(2) R _ C(2-6)])
    show "\<forall>l\<in>set (map (cut_end c) Q). fl_end l < fl_start ?c" using cut(2) C(4) by simp
    show "held (set (map (cut_end c) Q)) b t = held (set Q \<union> set R) b t" if "b < fl_start ?c" for b t
      using cut(3)[of b t] that C(4) not_held_above[of "set R" "fl_start ?c" b t] R x(2) by (force simp: held_Un)
    show "held (set R) b t = held (set Q \<union> set R) b t" if "fl_end ?c < b" for b t
      using not_held_below[of "set Q" "fl_end ?c" b t] x(3) that by (auto simp: held_Un)
  qed
qed

text \<open>The piece of a cut lock that lies above the request.\<close>

lemma above_piece:
  assumes inv: "map_inv B c0 P K Q (fl # R) x" and lt: "fl_end (lc_caller x) < fl_end fl"
  defines "D \<equiv> fl\<lparr>fl_start := wrap32 (fl_end (lc_caller x) + 1)\<rparr> # R"
  shows "block_ok c0 D" "\<forall>l\<in>set D. fl_end (lc_caller x) < fl_start l"
    "fl_end (lc_caller x) < b \<Longrightarrow> fl_start fl \<le> fl_end (lc_caller x) \<Longrightarrow>
     held (set D) b t = held (set Q \<union> set (fl # R)) b t"
proof -
  let ?c = "lc_caller x"
  note bl = map_inv_block[OF inv]
  have c: "lock_ok ?c" "block_ok c0 (Q @ fl # R)" "fl_start ?c \<le> fl_end ?c" "\<forall>l\<in>set Q. fl_end l \<le> fl_end ?c"
    using inv by (auto simp: map_inv_def Let_def)
  have w: "wrap32 (fl_end ?c + 1) = fl_end ?c + 1"
    using bl(8) c(1) by (intro wrap32_id) (auto simp: OFFSET_MAX_def lock_ok_def)
  show "block_ok c0 D" using c(1,2) lt w
    by (auto simp: D_def block_ok_def sorted_disj_append sorted_disj_Cons lock_ok_def listed_def)
  show "\<forall>l\<in>set D. fl_end ?c < fl_start l" using bl(3) lt w by (auto simp: D_def)
  show "held (set D) b t = held (set Q \<union> set (fl # R)) b t" if "fl_end ?c < b" "fl_start fl \<le> fl_end ?c"
  proof -
    have "\<not> held (set Q) b t" using not_held_below[OF c(4) that(1)] .
    then show ?thesis using that w by (auto simp: D_def held_def covers_def)
  qed
qed

lemma map_finish_cut:
  assumes inv: "map_inv B c0 P K Q (fl # R) x"
    and g: "fl_start (lc_caller x) \<le> fl_start fl" "fl_start fl \<le> fl_end (lc_caller x)" "fl_end (lc_caller x) < fl_end fl"
    and own: "fl_owner c0 = Some t" "fl_fd c0 = fd" and ty: "fl_type c0 = F_UNLCK \<or> listed c0"
    and f: "lock_finish t fd ((mark_left fl x)\<lparr>lc_right := Some (length (lc_pre x))\<rparr>) = Some r" "lr_err r = None"
  shows "outcome B c0 P K (lr_list r)"
proof -
  let ?c = "lc_caller x" and ?b = "length (lc_pre x)"
  define y where "y = (mark_left fl x)\<lparr>lc_right := Some ?b\<rparr>"
  have x: "\<forall>l\<in>set Q. fl_start l < fl_start ?c \<and> fl_end l \<le> fl_end ?c" "fl_type ?c = fl_type c0"
    "block_ok c0 (Q @ fl # R)" "length P + length Q \<le> ?b"
    "lc_left x = (if \<exists>l\<in>set Q. fl_start ?c \<le> fl_end l then Some (length P + length Q - 1) else None)"
    using inv by (auto simp: map_inv_def Let_def)
  define a where "a = (lc_added x \<or> fl_type c0 = F_UNLCK)"
  have y: "y = x\<lparr>lc_added := a, lc_left := lc_left x, lc_right := Some ?b\<rparr>"
    using g(1) x(2) by (auto simp: y_def mark_left_def a_def)
  have lft: "\<forall>l. lc_left x = Some l \<longrightarrow> l < ?b" using x(4,5) by (cases Q) auto
  then have ne: "lc_left x \<noteq> Some ?b" by auto
  obtain M c left right free where n: "lock_new t fd y = Some (Inr (M, c, left, right, free))"
    using f unfolding y_def[symmetric]
    by (auto simp: lock_finish_def lock_new_def Let_def split: option.splits sum.splits if_splits)
  obtain C where C: "M = P @ Q @ C @ (fl # R) @ K" "C = [] \<longleftrightarrow> fl_type c0 = F_UNLCK"
    "C = [] \<or> C = [c] \<and> same_owner c0 c \<and> listed c \<and> lock_ok c"
    "fl_start c = fl_start ?c" "fl_end c = fl_end ?c" "fl_type c = fl_type c0"
    "left = (if a then lc_left x else map_option (shift_at ?b) (lc_left x))"
    "right = (if a then Some ?b else map_option (shift_at ?b) (Some ?b))"
    "length (P @ Q @ C) = ?b + (if a then 0 else 1)"
    using map_new[OF inv own y _ _ ty n] by (auto simp: a_def)
  have l: "left = lc_left x" using C(7) lft by (cases "lc_left x") (auto simp: shift_at_def)
  have q: "right = Some (length (P @ Q @ C))" using C(8,9) by (auto simp: shift_at_def)
  have nlr: "left \<noteq> right" using l q ne lft C(9) by (auto split: if_splits)
  have r: "lr_list r = trim_left left c (trim_right (length (P @ Q @ C)) c M)"
    using f n nlr q unfolding y_def[symmetric] by (auto simp: lock_finish_def Let_def)
  have tr: "trim_right (length (P @ Q @ C)) c M = P @ Q @ C @ (fl\<lparr>fl_start := wrap32 (fl_end ?c + 1)\<rparr> # R) @ K"
    using C(1,5) by (simp add: trim_right_def list_update_append nth_append)
  have L: "lr_list r = P @ (map (cut_end c) Q @ C @ (fl\<lparr>fl_start := wrap32 (fl_end ?c + 1)\<rparr> # R)) @ K"
    unfolding r tr using trim_left_block[of Q c left P "C @ (fl\<lparr>fl_start := wrap32 (fl_end ?c + 1)\<rparr> # R) @ K"] x l C(4)
    by (simp add: block_ok_def sorted_disj_append)
  have Qb: "block_ok c0 Q" using block_ok_append[OF x(3)] by auto
  have Qs: "\<forall>l\<in>set Q. fl_start l < fl_start c" using x(1) C(4) by simp
  note cut = block_ok_cut_end[OF Qb Qs] and D = above_piece[OF inv g(3)]
  have R: "\<forall>l\<in>set (fl # R). fl_start ?c \<le> fl_start l" using g(1) map_inv_block(1,3)[OF inv] by force
  show ?thesis unfolding L
  proof (rule outcome_pieces[OF inv cut(1) _ _ D(1,2) D(3)[OF _ g(2)] C(2-6)])
    show "\<forall>l\<in>set (map (cut_end c) Q). fl_end l < fl_start ?c" using cut(2) C(4) by simp
    show "held (set (map (cut_end c) Q)) b t = held (set Q \<union> set (fl # R)) b t" if "b < fl_start ?c" for b t
      using cut(3)[of b t] that C(4) not_held_above[OF R that, of t] held_Un[of "set Q" "set (fl # R)" b t] by simp
  qed
qed

lemma map_finish_split:
  assumes inv: "map_inv B c0 P K Q (fl # R) x"
    and g: "fl_start fl < fl_start (lc_caller x)" "fl_start (lc_caller x) \<le> fl_end fl"
      "fl_start fl \<le> fl_end (lc_caller x)" "fl_end (lc_caller x) < fl_end fl"
    and own: "fl_owner c0 = Some t" "fl_fd c0 = fd" and ty: "fl_type c0 = F_UNLCK \<or> listed c0"
    and f: "lock_finish t fd ((mark_left fl x)\<lparr>lc_right := Some (length (lc_pre x))\<rparr>) = Some r" "lr_err r = None"
  shows "outcome B c0 P K (lr_list r)"
proof -
  let ?c = "lc_caller x" and ?b = "length (lc_pre x)"
  define y where "y = (mark_left fl x)\<lparr>lc_right := Some ?b\<rparr>"
  note bl = map_inv_block[OF inv]
  have cp: "lc_cpos x = None" using inv g(1) by (auto simp: map_inv_def Let_def)
  have x: "fl_type ?c = fl_type c0" "block_ok c0 (Q @ fl # R)" "lc_pre x = P @ Q" "fl_start ?c \<le> fl_end ?c"
    using inv cp by (auto simp: map_inv_def Let_def)
  define a where "a = (lc_added x \<or> fl_type c0 = F_UNLCK)"
  have y: "y = x\<lparr>lc_added := a, lc_left := Some ?b, lc_right := Some ?b\<rparr>"
    using g(1) x(1) by (auto simp: y_def mark_left_def a_def)
  obtain M c left right free where n: "lock_new t fd y = Some (Inr (M, c, left, right, free))"
    using f unfolding y_def[symmetric]
    by (auto simp: lock_finish_def lock_new_def Let_def split: option.splits sum.splits if_splits)
  obtain C where C: "M = P @ Q @ C @ (fl # R) @ K" "C = [] \<longleftrightarrow> fl_type c0 = F_UNLCK"
    "C = [] \<or> C = [c] \<and> same_owner c0 c \<and> listed c \<and> lock_ok c"
    "fl_start c = fl_start ?c" "fl_end c = fl_end ?c" "fl_type c = fl_type c0"
    "left = (if a then Some ?b else map_option (shift_at ?b) (Some ?b))"
    "right = (if a then Some ?b else map_option (shift_at ?b) (Some ?b))"
    "length (P @ Q @ C) = ?b + (if a then 0 else 1)"
    using map_new[OF inv own y _ _ ty n] by (auto simp: a_def)
  let ?q = "length (P @ Q @ C)"
  have q: "right = Some ?q" "left = Some ?q" using C(7-9) by (auto simp: shift_at_def)
  have Mq: "M ! ?q = fl" unfolding C(1) by (simp add: nth_append)
  have py: "lc_pre y = P @ Q" "lc_added y = a" using y x(3) by simp_all
  obtain l free' where al: "alloc_lock t fd free fl = Some (Some (l, free'))"
    "lr_list r = trim_left (Some ?b) c (trim_right (Suc ?q) c (insert_at ?b l M))"
    using f n q Mq py x(3) unfolding y_def[symmetric]
    by (auto simp: lock_finish_def Let_def split: option.splits if_splits)
  have l: "l = fl\<lparr>fl_owner := Some t, fl_fd := fd, fl_wait := []\<rparr>"
    using al(1) by (auto simp: alloc_lock_def split: list.splits if_splits)
  let ?l = "l\<lparr>fl_end := fl_start ?c - 1\<rparr>" and ?D = "fl\<lparr>fl_start := wrap32 (fl_end ?c + 1)\<rparr> # R"
  have "insert_at ?b l M = (P @ Q @ [l] @ C) @ fl # R @ K" using C(1) x(3) by (simp add: insert_at_def)
  then have "trim_right (Suc ?q) c (insert_at ?b l M) = (P @ Q) @ l # C @ ?D @ K"
    using C(5) by (simp add: trim_right_def list_update_append nth_append)
  then have L: "lr_list r = P @ ((Q @ [?l]) @ C @ ?D) @ K"
    unfolding al(2) using C(4) x(3) by (simp add: trim_left_def list_update_append nth_append)
  have lb: "same_owner c0 ?l" "listed ?l" "lock_ok ?l"
    using l bl own g(1,2) by (auto simp: same_owner_def listed_def lock_ok_def)
  have A: "block_ok c0 (Q @ [?l])" using x(2) lb l g(1)
    by (auto simp: block_ok_def sorted_disj_append sorted_disj_Cons)
  note D = above_piece[OF inv g(4)]
  show ?thesis unfolding L
  proof (rule outcome_pieces[OF inv A _ _ D(1,2) D(3)[OF _ g(3)] C(2-6)])
    show "\<forall>l\<in>set (Q @ [?l]). fl_end l < fl_start ?c" using bl(2) g(1) by auto
    show "held (set (Q @ [?l])) b t = held (set Q \<union> set (fl # R)) b t" if "b < fl_start ?c" for b t
    proof -
      have "\<forall>l\<in>set R. fl_start ?c \<le> fl_start l" using bl(3) g(2) by force
      from not_held_above[OF this that] show ?thesis using that l g(2) by (auto simp: held_def covers_def)
    qed
  qed
qed

lemma map_finish:
  assumes "map_exit B c0 P K y" "fl_owner c0 = Some t" "fl_fd c0 = fd" "fl_type c0 = F_UNLCK \<or> listed c0"
    and "lock_finish t fd y = Some r" "lr_err r = None"
  shows "outcome B c0 P K (lr_list r)"
  using assms(1) unfolding map_exit_def
proof (elim exE disjE conjE)
  fix Q R assume "map_inv B c0 P K Q R y" "\<forall>l\<in>set R. fl_end (lc_caller y) < fl_start l"
  then show ?thesis using map_finish_plain assms(2-) by blast
next
  fix Q R x fl R'
  assume a: "map_inv B c0 P K Q R x" "R = fl # R'" "fl_start (lc_caller x) \<le> fl_end fl"
    "fl_start fl \<le> fl_end (lc_caller x)" "fl_end (lc_caller x) < fl_end fl"
    "y = (mark_left fl x)\<lparr>lc_right := Some (length (lc_pre x))\<rparr>"
  show ?thesis
  proof (cases "fl_start fl < fl_start (lc_caller x)")
    case True
    then show ?thesis using map_finish_split[of B c0 P K Q fl R' x t fd r] a assms(2-) by auto
  next
    case False
    then show ?thesis using map_finish_cut[of B c0 P K Q fl R' x t fd r] a assms(2-) by auto
  qed
qed

section \<open>The effect on a list\<close>

text \<open>The list is well-formed for an owner: its locks stand together, sorted and disjoint.\<close>

definition owner_block :: "file_lock \<Rightarrow> file_lock list \<Rightarrow> file_lock list" where
  "owner_block c L = takeWhile (same_owner c) (dropWhile (\<lambda>l. \<not> same_owner c l) L)"

definition after_block :: "file_lock \<Rightarrow> file_lock list \<Rightarrow> file_lock list" where
  "after_block c L = dropWhile (same_owner c) (dropWhile (\<lambda>l. \<not> same_owner c l) L)"

definition wf_for :: "file_lock \<Rightarrow> file_lock list \<Rightarrow> bool" where
  "wf_for c L \<longleftrightarrow> block_ok c (owner_block c L) \<and> (\<forall>l\<in>set (after_block c L). \<not> same_owner c l)"

definition owned :: "file_lock \<Rightarrow> file_lock list \<Rightarrow> file_lock set" where
  "owned c L = {l \<in> set L. same_owner c l}"

lemma split_block:
  "L = takeWhile (\<lambda>l. \<not> same_owner c l) L @ owner_block c L @ after_block c L"
  by (simp add: owner_block_def after_block_def)

lemma wf_for_parts:
  assumes "\<forall>l\<in>set P. \<not> same_owner c l" "\<forall>l\<in>set K. \<not> same_owner c l" "block_ok c F"
  shows "wf_for c (P @ F @ K)" "owned c (P @ F @ K) = set F"
    "filter (\<lambda>l. \<not> same_owner c l) (P @ F @ K) = P @ K"
proof -
  have F: "\<forall>l\<in>set F. same_owner c l" using assms(3) by (simp add: block_ok_def)
  have "dropWhile (\<lambda>l. \<not> same_owner c l) (P @ F @ K) = F @ (if F = [] then [] else K)"
    using assms(1,2) F by (cases F) (auto simp: dropWhile_append)
  moreover have "takeWhile (same_owner c) K = []" "dropWhile (same_owner c) K = K"
    using assms(2) by (cases K; simp)+
  ultimately have "owner_block c (P @ F @ K) = F" "set (after_block c (P @ F @ K)) \<subseteq> set K"
    using F by (auto simp: owner_block_def after_block_def takeWhile_append dropWhile_append)
  then show "wf_for c (P @ F @ K)" using assms by (auto simp: wf_for_def)
  show "owned c (P @ F @ K) = set F" "filter (\<lambda>l. \<not> same_owner c l) (P @ F @ K) = P @ K"
    using assms F by (auto simp: owned_def)
qed

lemma lock_it_outcome:
  assumes wf: "wf_for c L"
    and c: "0 \<le> fl_start c" "fl_start c \<le> fl_end c" "fl_end c < OFFSET_MAX" "fl_owner c = Some t" "fl_fd c = fd"
      "fl_type c = F_UNLCK \<or> listed c"
    and r: "lock_it t fd L free c = Some r" "lr_err r = None"
  shows "outcome (owner_block c L) c (takeWhile (\<lambda>l. \<not> same_owner c l) L) (after_block c L) (lr_list r)"
proof -
  let ?P = "takeWhile (\<lambda>l. \<not> same_owner c l) L" and ?B = "owner_block c L" and ?K = "after_block c L"
  let ?x = "lock_start L free c"
  have B: "block_ok c ?B" and K: "\<forall>l\<in>set ?K. \<not> same_owner c l" using wf by (auto simp: wf_for_def)
  have rest: "lc_rest ?x = ?B @ ?K" by (simp add: lock_start_def owner_block_def after_block_def)
  have inv: "map_inv ?B c ?P ?K [] ?B ?x"
    using B c rest by (simp add: map_inv_def lock_start_def lock_ok_def)
  obtain y where y: "lock_loop (?B @ ?K) ?x = Some y" "lock_finish t fd y = Some r"
    using r(1) rest by (auto simp: lock_it_def bind_eq_Some_conv)
  from map_finish[OF map_loop[OF K inv y(1)] c(4,5,6) y(2) r(2)] show ?thesis .
qed

section \<open>Properties\<close>

text \<open>
  C2. A successful \<^verbatim>\<open>lock_it\<close> on a list whose locks of the caller stand together,
  sorted and disjoint, changes exactly the bytes of the request: they get the type of the request,
  or no lock when it is an unlock; every other byte keeps the lock the caller had on it. The locks
  of other owners keep their order, and the list stays well-formed for the caller. The request ends
  before \<^const>\<open>OFFSET_MAX\<close>.
\<close>

theorem lock_it_exact:
  assumes "wf_for c L" "0 \<le> fl_start c" "fl_start c \<le> fl_end c" "fl_end c < OFFSET_MAX"
    and "fl_owner c = Some t" "fl_fd c = fd" "fl_type c \<in> {F_RDLCK, F_WRLCK, F_UNLCK}"
    and "lock_it t fd L free c = Some r" "lr_err r = None"
  shows "wf_for c (lr_list r) \<and>
    filter (\<lambda>l. \<not> same_owner c l) (lr_list r) = filter (\<lambda>l. \<not> same_owner c l) L \<and>
    (\<forall>b ty. held (owned c (lr_list r)) b ty =
       (if covers c b then fl_type c \<noteq> F_UNLCK \<and> ty = fl_type c else held (owned c L) b ty))"
proof -
  let ?P = "takeWhile (\<lambda>l. \<not> same_owner c l) L" and ?B = "owner_block c L" and ?K = "after_block c L"
  have ty: "fl_type c = F_UNLCK \<or> listed c" using assms(5,7) by (auto simp: listed_def)
  have wf: "block_ok c ?B" "\<forall>l\<in>set ?K. \<not> same_owner c l" using assms(1) by (auto simp: wf_for_def)
  have P: "\<forall>l\<in>set ?P. \<not> same_owner c l" by (auto dest: set_takeWhileD)
  obtain F where F: "lr_list r = ?P @ F @ ?K" "block_ok c F"
    "\<forall>b ty. held (set F) b ty = (if covers c b then fl_type c \<noteq> F_UNLCK \<and> ty = fl_type c else held (set ?B) b ty)"
    using lock_it_outcome[OF assms(1-6) ty assms(8,9)] by (auto simp: outcome_def)
  note new = wf_for_parts[OF P wf(2) F(2)] and old = wf_for_parts[OF P wf(2,1)]
  have L: "owned c L = set ?B" "filter (\<lambda>l. \<not> same_owner c l) L = ?P @ ?K"
    using old(2,3) split_block[of L c] by simp_all
  show ?thesis using new F(3) L unfolding F(1) by simp
qed

theorem lock_it_exact_witness:
  "\<exists>r. lock_it 1 3 [example_lock 2 F_RDLCK 200 299, example_lock 1 F_WRLCK 0 99] [blank_lock, blank_lock]
       (example_lock 1 F_UNLCK 10 19) = Some r \<and> lr_err r = None \<and>
     wf_for (example_lock 1 F_UNLCK 10 19) (lr_list r) \<and>
     held (owned (example_lock 1 F_UNLCK 10 19) (lr_list r)) 20 F_WRLCK"
proof -
  let ?c = "example_lock 1 F_UNLCK 10 19"
  let ?L = "[example_lock 2 F_RDLCK 200 299, example_lock 1 F_WRLCK 0 99]"
  define r where "r = the (lock_it 1 3 ?L [blank_lock, blank_lock] ?c)"
  have r: "lock_it 1 3 ?L [blank_lock, blank_lock] ?c = Some r" "lr_err r = None"
    unfolding r_def by code_simp+
  have "wf_for ?c ?L"
    by (simp add: example_lock_def wf_for_def owner_block_def after_block_def block_ok_def sorted_disj_def
        same_owner_def listed_def lock_ok_def OFFSET_MAX_def)
  note t = lock_it_exact[OF this _ _ _ _ _ _ r]
  have "example_lock 1 F_WRLCK 0 99 \<in> owned ?c ?L" "covers (example_lock 1 F_WRLCK 0 99) 20"
    by (simp_all add: example_lock_def owned_def covers_def same_owner_def)
  then have "held (owned ?c ?L) 20 F_WRLCK" unfolding held_def by (force simp: example_lock_def)
  then show ?thesis using t r by (simp add: example_lock_def OFFSET_MAX_def covers_def)
qed

text \<open>
  A request up to the end of the file is not treated so: the test
  \<^verbatim>\<open>fl->fl_start > caller->fl_end + 1\<close> overflows, the loop stops at the first lock of the
  same type that is not below the request, and the caller ends up with overlapping locks, of both
  types on the bytes of the write lock that the request was to replace.
\<close>

lemma lock_it_eof_overlap:
  "\<exists>r. lock_it 1 3 [example_lock 1 F_RDLCK 0 9, example_lock 1 F_WRLCK 20 29] [blank_lock]
       (example_lock 1 F_RDLCK 5 OFFSET_MAX) = Some r \<and> lr_err r = None \<and>
     wf_for (example_lock 1 F_RDLCK 5 OFFSET_MAX) [example_lock 1 F_RDLCK 0 9, example_lock 1 F_WRLCK 20 29] \<and>
     \<not> wf_for (example_lock 1 F_RDLCK 5 OFFSET_MAX) (lr_list r) \<and>
     held (owned (example_lock 1 F_RDLCK 5 OFFSET_MAX) (lr_list r)) 25 F_RDLCK \<and>
     held (owned (example_lock 1 F_RDLCK 5 OFFSET_MAX) (lr_list r)) 25 F_WRLCK"
proof -
  let ?c = "example_lock 1 F_RDLCK 5 OFFSET_MAX"
  let ?L = "[example_lock 1 F_RDLCK 0 9, example_lock 1 F_WRLCK 20 29]"
  define r where "r = the (lock_it 1 3 ?L [blank_lock] ?c)"
  have r: "lock_it 1 3 ?L [blank_lock] ?c = Some r" "lr_err r = None" "lr_list r = ?c # ?L"
    unfolding r_def by code_simp+
  have "wf_for ?c ?L" "\<not> wf_for ?c (?c # ?L)"
    by (simp_all add: example_lock_def wf_for_def owner_block_def after_block_def block_ok_def sorted_disj_def
        same_owner_def listed_def lock_ok_def OFFSET_MAX_def)
  moreover have "?c \<in> owned ?c (?c # ?L)" "example_lock 1 F_WRLCK 20 29 \<in> owned ?c (?c # ?L)"
    "covers ?c 25" "covers (example_lock 1 F_WRLCK 20 29) 25" "fl_type ?c = F_RDLCK"
    "fl_type (example_lock 1 F_WRLCK 20 29) = F_WRLCK"
    by (simp_all add: example_lock_def owned_def covers_def same_owner_def OFFSET_MAX_def)
  ultimately show ?thesis using r unfolding held_def by (auto intro!: exI[of _ r])
qed

end
