(* ===== verification/Lock_System.thy ===== *)
theory Lock_System
  imports Lock_Table
begin

text \<open>
  Record locks as a system of tasks: the calls of \<^verbatim>\<open>fs/locks.c\<close> interleave, some of them
  asleep on a lock. In every reachable state locks of different owners exclude each other.
\<close>

section \<open>The step relation\<close>

text \<open>
  The requests asleep in \<^verbatim>\<open>fcntl_setlk\<close>: task, inode, descriptor, command and the
  request itself.
\<close>

type_synonym lk_pending = "(nat \<times> nat \<times> u32 \<times> u32 \<times> file_lock) list"

inductive lk_step ::
  "(verify_type \<Rightarrow> u32 \<Rightarrow> u32 \<Rightarrow> errno option) \<Rightarrow>
   lk_state \<times> lk_pending \<Rightarrow> lk_state \<times> lk_pending \<Rightarrow> bool"
  for va :: "verify_type \<Rightarrow> u32 \<Rightarrow> u32 \<Rightarrow> errno option" where
  lk_set: "fcntl_setlk va s current fd cmd l f = LkRet e s' \<Longrightarrow> lk_step va (s, P) (s', P)"
| lk_sleep: "setlk_request va s current fd l f = Inr (ino, fl) \<Longrightarrow>
    fcntl_setlk va s current fd cmd l f = LkSleep s' \<Longrightarrow>
    lk_step va (s, P) (s', (tk_self current, ino, fd, cmd, fl) # P)"
| lk_wake: "p = (tk_self current, ino, fd, cmd, fl) \<Longrightarrow> p \<in> set P \<Longrightarrow>
    setlk_resume s current ino fd cmd fl = LkRet e s' \<Longrightarrow> lk_step va (s, P) (s', remove1 p P)"
| lk_again: "(tk_self current, ino, fd, cmd, fl) \<in> set P \<Longrightarrow>
    setlk_resume s current ino fd cmd fl = LkSleep s' \<Longrightarrow> lk_step va (s, P) (s', P)"
| lk_close: "fcntl_remove_locks s task ino fd = Some s' \<Longrightarrow> lk_step va (s, P) (s', P)"

inductive_cases lk_stepE: "lk_step va a b"

definition lk_init :: "lk_state \<times> lk_pending \<Rightarrow> bool" where
  "lk_init a \<longleftrightarrow> (\<forall>i. i_flock (lk_inode (fst a) i) = []) \<and>
     file_lock_free_list (fst a) = replicate NR_FILE_LOCKS blank_lock \<and> snd a = []"

section \<open>Mutual exclusion\<close>

text \<open>Two locks exclude each other on a byte when one of them is a write lock.\<close>

definition exclusive_types :: "int \<Rightarrow> int \<Rightarrow> bool" where
  "exclusive_types a b \<longleftrightarrow>
     (a = F_WRLCK \<or> a = F_RDLCK) \<and> (b = F_WRLCK \<or> b = F_RDLCK) \<and> (a = F_WRLCK \<or> b = F_WRLCK)"

definition compatible :: "file_lock \<Rightarrow> file_lock \<Rightarrow> bool" where
  "compatible a b \<longleftrightarrow> same_owner a b \<or> \<not> exclusive_types (fl_type a) (fl_type b) \<or>
     (\<forall>x. \<not> (covers a x \<and> covers b x))"

definition lock_list_inv :: "file_lock list \<Rightarrow> bool" where
  "lock_list_inv L \<longleftrightarrow> (\<forall>a\<in>set L. \<forall>b\<in>set L. compatible a b) \<and>
     (\<forall>l\<in>set L. lock_ok l \<and> listed l)"

definition state_inv :: "lk_state \<Rightarrow> bool" where
  "state_inv s \<longleftrightarrow> (\<forall>i. lock_list_inv (i_flock (lk_inode s i))) \<and>
     (\<forall>l\<in>set (file_lock_free_list s). fl_owner l = None)"

definition request_ok :: "nat \<Rightarrow> u32 \<Rightarrow> file_lock \<Rightarrow> bool" where
  "request_ok t fd fl \<longleftrightarrow> lock_ok fl \<and> fl_owner fl = Some t \<and> fl_fd fl = fd \<and>
     (fl_type fl = F_UNLCK \<or> listed fl)"

definition lk_inv :: "lk_state \<times> lk_pending \<Rightarrow> bool" where
  "lk_inv a \<longleftrightarrow> state_inv (fst a) \<and> (\<forall>(t, ino, fd, cmd, fl)\<in>set (snd a). request_ok t fd fl)"

lemma exclusive_sym: "exclusive_types a b \<Longrightarrow> exclusive_types b a"
  by (auto simp: exclusive_types_def)

lemma no_conflict_compatible:
  "\<not> conflict c k \<Longrightarrow> compatible c k"
  by (auto simp: conflict_def compatible_def overlap_def covers_def exclusive_types_def split: if_splits)

lemma unlock_compatible: "fl_type c = F_UNLCK \<Longrightarrow> compatible c k"
  by (simp add: compatible_def exclusive_types_def)

lemma compatible_sym: "compatible a b \<Longrightarrow> compatible b a"
  by (auto simp: compatible_def dest: same_owner_sym exclusive_sym)

text \<open>Locks derived from compatible ones are compatible.\<close>

lemma derived_compatible:
  assumes L: "\<forall>a\<in>set L. \<forall>b\<in>set L. compatible a b" and c: "\<forall>k\<in>set L. compatible c k"
    and a: "derived L c a" and b: "derived L c b"
  shows "compatible a b"
proof (rule ccontr)
  assume "\<not> compatible a b"
  then obtain x where x: "\<not> same_owner a b" "exclusive_types (fl_type a) (fl_type b)" "covers a x" "covers b x"
    by (auto simp: compatible_def)
  obtain k where k: "k \<in> set L \<or> k = c" "same_owner k a" "fl_type k = fl_type a" "covers k x"
    using a x(3) unfolding derived_def by metis
  obtain m where m: "m \<in> set L \<or> m = c" "same_owner m b" "fl_type m = fl_type b" "covers m x"
    using b x(4) unfolding derived_def by metis
  have ns: "\<not> same_owner k m" using k(2) m(2) x(1) by (auto simp: same_owner_def)
  then have "compatible k m" using k(1) m(1) L c by (auto dest: compatible_sym)
  then show False using ns x(2) k m by (auto simp: compatible_def)
qed

text \<open>Every call keeps the invariant of the state, and none panics.\<close>

definition out_inv :: "lk_out \<Rightarrow> bool" where
  "out_inv r = (case r of LkRet e s \<Rightarrow> state_inv s | LkSleep s \<Rightarrow> state_inv s | LkPanic \<Rightarrow> False)"

lemma state_inv_put:
  assumes "state_inv s" "lock_list_inv fls"
  shows "state_inv (put_locks ino fls s)"
  using assms by (simp add: state_inv_def put_locks_def)

lemma lock_list_inv_wait:
  assumes "lock_list_inv L" "\<And>k. k \<in> set L' \<Longrightarrow> \<exists>l w. l \<in> set L \<and> k = l\<lparr>fl_wait := w\<rparr>"
  shows "lock_list_inv L'"
proof -
  have "compatible a b" if "a \<in> set L'" "b \<in> set L'" for a b
  proof -
    obtain a' v b' w where "a' \<in> set L" "b' \<in> set L" "a = a'\<lparr>fl_wait := v\<rparr>" "b = b'\<lparr>fl_wait := w\<rparr>"
      using assms(2) \<open>a \<in> set L'\<close> \<open>b \<in> set L'\<close> by metis
    moreover have "compatible a' b'" using assms(1) calculation by (simp add: lock_list_inv_def)
    ultimately show ?thesis by (simp add: compatible_def covers_def)
  qed
  moreover have "lock_ok a \<and> listed a" if "a \<in> set L'" for a
  proof -
    obtain a' v where "a' \<in> set L" "a = a'\<lparr>fl_wait := v\<rparr>" using assms(2) \<open>a \<in> set L'\<close> by metis
    then show ?thesis using assms(1) by (auto simp: lock_list_inv_def lock_ok_def listed_def)
  qed
  ultimately show ?thesis by (simp add: lock_list_inv_def)
qed

lemma scan_inv:
  assumes s: "state_inv s" and fl: "request_ok (tk_self current) fd fl"
  shows "out_inv (setlk_scan s current ino fd cmd fl)"
proof -
  let ?L = "i_flock (lk_inode s ino)"
  let ?i = "length (takeWhile (\<lambda>g. \<not> conflict fl g) ?L)"
  have L: "lock_list_inv ?L" using s by (simp add: state_inv_def)
  show ?thesis
  proof (cases "fl_type fl \<noteq> F_UNLCK \<and> ?i < length ?L")
    case True
    have "lock_list_inv (?L[?i := (?L ! ?i)\<lparr>fl_wait := w\<rparr>])" for w
    proof (rule lock_list_inv_wait[OF L])
      fix k assume "k \<in> set (?L[?i := (?L ! ?i)\<lparr>fl_wait := w\<rparr>])"
      then have "k = (?L ! ?i)\<lparr>fl_wait := w\<rparr> \<or> k \<in> set ?L" using set_update_subset_insert by fastforce
      then show "\<exists>l w. l \<in> set ?L \<and> k = l\<lparr>fl_wait := w\<rparr>"
        using True by (metis nth_mem file_lock.surjective file_lock.update_convs(3))
    qed
    then show ?thesis using True s by (simp add: setlk_scan_def Let_def out_inv_def state_inv_put)
  next
    case False
    have c: "\<forall>k\<in>set ?L. compatible fl k"
    proof (cases "fl_type fl = F_UNLCK")
      case True
      then show ?thesis by (simp add: unlock_compatible)
    next
      case t: False
      then have "takeWhile (\<lambda>g. \<not> conflict fl g) ?L = ?L" using False
        by (metis length_takeWhile_le linorder_le_less_linear order_antisym takeWhile_eq_take take_all_iff)
      then show ?thesis by (metis no_conflict_compatible set_takeWhileD)
    qed
    have tb: "table_inv (length ?L + length (file_lock_free_list s)) ?L (file_lock_free_list s)"
      using s L by (simp add: table_inv_def state_inv_def lock_list_inv_def)
    obtain r where r: "lock_it (tk_self current) fd ?L (file_lock_free_list s) fl = Some r"
      "table_inv (length ?L + length (file_lock_free_list s)) (lr_list r) (lr_free r)"
      using lock_it_table[OF tb, of fl "tk_self current" fd] fl L
      by (auto simp: request_ok_def lock_list_inv_def)
    have g: "\<forall>l\<in>set (lr_list r). good ?L fl l"
      by (rule lock_it_good[OF _ _ _ _ r(1)]) (use L fl in \<open>auto simp: lock_list_inv_def request_ok_def\<close>)
    have "\<forall>a\<in>set (lr_list r). \<forall>b\<in>set (lr_list r). compatible a b"
      using g c L by (auto simp: good_def lock_list_inv_def intro!: derived_compatible[of ?L fl])
    then have "lock_list_inv (lr_list r)" using g r(2) by (auto simp: lock_list_inv_def good_def table_inv_def)
    from state_inv_put[OF s this, of ino] show ?thesis
      unfolding setlk_scan_def Let_def if_not_P[OF False] using r
      by (simp add: out_inv_def state_inv_def table_inv_def)
  qed
qed

lemma copy_flock_ok:
  "copy_flock s current filp l fd = Some fl \<Longrightarrow>
   lock_ok fl \<and> fl_owner fl = Some (tk_self current) \<and> fl_fd fl = fd \<and>
   fl_type fl \<in> {F_RDLCK, F_WRLCK, F_UNLCK, F_EXLCK, F_SHLCK}"
  using wrap32_range
  by (auto simp: copy_flock_def lock_ok_def OFFSET_MAX_def Let_def split: option.splits if_splits)

lemma copy_flock_type: "copy_flock s current filp l fd = Some fl \<Longrightarrow> fl_type fl = l_type l"
  by (auto simp: copy_flock_def Let_def split: option.splits if_splits)

lemma setlk_request_ok:
  "setlk_request va s current fd l f = Inr (ino, fl) \<Longrightarrow> request_ok (tk_self current) fd fl"
  by (auto simp: setlk_request_def setlk_access_def request_ok_def lock_ok_def listed_def
           split: option.splits sum.splits if_splits dest!: copy_flock_ok)

lemma setlk_inv:
  assumes "state_inv s"
  shows "out_inv (fcntl_setlk va s current fd cmd l f)"
proof (cases "setlk_request va s current fd l f")
  case (Inl e)
  then show ?thesis using assms by (simp add: fcntl_setlk_def out_inv_def)
next
  case (Inr z)
  then show ?thesis using scan_inv[OF assms] setlk_request_ok
    by (cases z) (simp add: fcntl_setlk_def)
qed

lemma leave_wait_inv:
  assumes "state_inv s"
  shows "state_inv (leave_wait t s)"
proof -
  have "lock_list_inv (map (\<lambda>g. g\<lparr>fl_wait := removeAll t (fl_wait g)\<rparr>) (i_flock (lk_inode s i)))" for i
    by (rule lock_list_inv_wait[of "i_flock (lk_inode s i)"]) (use assms in \<open>auto simp: state_inv_def\<close>)
  then show ?thesis using assms by (simp add: state_inv_def leave_wait_def Let_def)
qed

lemma resume_inv:
  assumes "state_inv s" "request_ok (tk_self current) fd fl"
  shows "out_inv (setlk_resume s current ino fd cmd fl)"
  using scan_inv[OF leave_wait_inv[OF assms(1)] assms(2)] leave_wait_inv[OF assms(1)]
  by (simp add: setlk_resume_def Let_def out_inv_def[of "LkRet _ _"])

lemma remove_loop_table:
  "\<forall>l\<in>set fls. fl_owner l \<noteq> None \<Longrightarrow> \<forall>l\<in>set free. fl_owner l = None \<Longrightarrow>
   \<exists>free' w'. remove_loop task fd fls free w =
     Some (dropWhile (\<lambda>fl. fl_owner fl = Some task \<and> fl_fd fl = fd) fls, free', w') \<and>
     (\<forall>l\<in>set free'. fl_owner l = None)"
  by (induction task fd fls free w rule: remove_loop.induct) (auto simp: free_lock_def)

lemma remove_locks_inv:
  assumes s: "state_inv s"
  shows "\<exists>s'. fcntl_remove_locks s task ino fd = Some s' \<and> state_inv s'"
proof -
  let ?L = "i_flock (lk_inode s ino)" and ?o = "\<lambda>fl. fl_owner fl \<noteq> Some task \<or> fl_fd fl \<noteq> fd"
  have L: "lock_list_inv ?L" using s by (simp add: state_inv_def)
  have o: "\<forall>l\<in>set (dropWhile ?o ?L). fl_owner l \<noteq> None" using L
    by (auto simp: lock_list_inv_def listed_def dest: set_dropWhileD)
  obtain free' w' where r: "remove_loop task fd (dropWhile ?o ?L) (file_lock_free_list s) [] =
      Some (dropWhile (\<lambda>fl. fl_owner fl = Some task \<and> fl_fd fl = fd) (dropWhile ?o ?L), free', w')"
    "\<forall>l\<in>set free'. fl_owner l = None"
    using remove_loop_table[OF o, of "file_lock_free_list s" task fd "[]"] s by (auto simp: state_inv_def)
  have "lock_list_inv (takeWhile ?o ?L @
      dropWhile (\<lambda>fl. fl_owner fl = Some task \<and> fl_fd fl = fd) (dropWhile ?o ?L))"
    using L by (auto simp: lock_list_inv_def dest!: set_dropWhileD set_takeWhileD)
  from state_inv_put[OF s this, of ino] show ?thesis using r
    by (simp add: fcntl_remove_locks_def Let_def state_inv_def put_locks_def)
qed

lemma lk_step_inv:
  assumes "lk_inv a" "lk_step va a b"
  shows "lk_inv b"
  using assms(2,1)
proof cases
  case (lk_set s current fd cmd l f e s' P)
  then show ?thesis using assms(1) setlk_inv[of s va current fd cmd l f]
    by (simp add: lk_inv_def out_inv_def)
next
  case (lk_sleep s current fd l f ino fl cmd s' P)
  then show ?thesis using assms(1) setlk_inv[of s va current fd cmd l f] setlk_request_ok[OF lk_sleep(3)]
    by (simp add: lk_inv_def out_inv_def)
next
  case (lk_wake p current ino fd cmd fl P s e s')
  then have "request_ok (tk_self current) fd fl" "state_inv s" using assms(1) by (auto simp: lk_inv_def)
  from resume_inv[OF this(2,1), of ino cmd] show ?thesis using lk_wake assms(1)
    using set_remove1_subset[of p P] by (auto simp: lk_inv_def out_inv_def)
next
  case (lk_again current ino fd cmd fl P s s')
  then have "request_ok (tk_self current) fd fl" "state_inv s" using assms(1) by (auto simp: lk_inv_def)
  from resume_inv[OF this(2,1), of ino cmd] show ?thesis using lk_again assms(1)
    by (auto simp: lk_inv_def out_inv_def)
next
  case (lk_close s task ino fd s' P)
  then show ?thesis using assms(1) remove_locks_inv[of s task ino fd] by (auto simp: lk_inv_def)
qed

lemma lk_init_inv: "lk_init a \<Longrightarrow> lk_inv a"
  by (auto simp: lk_init_def lk_inv_def state_inv_def lock_list_inv_def blank_lock_def)

interpretation lks: invariant_system lk_init "lk_step va" lk_inv for va
  by unfold_locales (auto intro: lk_init_inv lk_step_inv)

section \<open>F\_GETLK and F\_SETLK\<close>

lemma takeWhile_shorter: "\<exists>k\<in>set xs. \<not> Q k \<Longrightarrow> length (takeWhile Q xs) < length xs"
  by (induction xs) auto

lemma setlk_scan_again:
  "cmd \<noteq> F_SETLKW \<Longrightarrow> fl_type fl \<noteq> F_UNLCK \<Longrightarrow> \<exists>k\<in>set (i_flock (lk_inode s ino)). conflict fl k \<Longrightarrow>
   setlk_scan s current ino fd cmd fl = LkRet (Some EAGAIN) s"
  by (simp add: setlk_scan_def Let_def takeWhile_shorter)

lemma lock_new_err: "lock_new t fd x = Some (Inl e) \<Longrightarrow> e = EINVAL \<or> e = ENOLCK"
  by (auto simp: lock_new_def Let_def split: if_splits option.splits)

lemma lock_finish_err:
  assumes "lock_finish t fd x = Some r"
  shows "lr_err r \<in> {None, Some EINVAL, Some ENOLCK}"
proof (cases "lock_new t fd x")
  case (Some z)
  show ?thesis
  proof (cases z)
    case (Inl e)
    then show ?thesis using assms Some lock_new_err[of t fd x e] by (auto simp: lock_finish_def Let_def)
  next
    case (Inr y)
    obtain M c left right free where y: "y = (M, c, left, right, free)" by (cases y)
    show ?thesis
    proof (cases "right \<noteq> None \<and> left = right")
      case True
      then show ?thesis using assms Some Inr y
        by (auto simp: lock_finish_def Let_def free_lock_def split: if_splits option.splits)
    next
      case False
      then show ?thesis using assms Some Inr y by (cases right) (auto simp: lock_finish_def Let_def)
    qed
  qed
qed (use assms in \<open>simp add: lock_finish_def Let_def\<close>)

lemma setlk_scan_free:
  assumes "\<forall>k\<in>set (i_flock (lk_inode s ino)). \<not> conflict fl k"
  shows "setlk_scan s current ino fd cmd fl \<noteq> LkRet (Some EAGAIN) s'"
proof -
  let ?L = "i_flock (lk_inode s ino)"
  have "takeWhile (\<lambda>g. \<not> conflict fl g) ?L = ?L" using assms by (simp add: takeWhile_eq_all_conv)
  then have "\<not> length (takeWhile (\<lambda>g. \<not> conflict fl g) ?L) < length ?L" by (metis less_irrefl)
  moreover have "lr_err r \<noteq> Some EAGAIN" if "lock_it t fd ?L fr fl = Some r" for t fr r
    using that lock_finish_err by (force simp: lock_it_def bind_eq_Some_conv)
  ultimately show ?thesis by (auto simp: setlk_scan_def Let_def split: option.splits)
qed

section \<open>Example states\<close>

definition example_task :: "nat \<Rightarrow> u16 \<Rightarrow> lk_task" where
  "example_task t mode = \<lparr>tk_self = t, tk_filp = (\<lambda>fd. if fd = 3 then Some \<lparr>f_mode = mode, f_pos = 0, f_inode = Some 0\<rparr> else None),
     tk_signal = 0, tk_blocked = 0\<rparr>"

definition example_state :: "file_lock list \<Rightarrow> lk_state" where
  "example_state L = \<lparr>lk_inode = (\<lambda>_. \<lparr>i_mode = S_IFREG, i_size = 0, i_flock = L\<rparr>),
     file_lock_free_list = replicate NR_FILE_LOCKS blank_lock, lk_woken = []\<rparr>"

definition example_flock :: "int \<Rightarrow> int \<Rightarrow> int \<Rightarrow> flock" where
  "example_flock ty s n = \<lparr>l_type = ty, l_whence = 0, l_start = s, l_len = n, l_pid = 0\<rparr>"

definition out_state :: "lk_out \<Rightarrow> lk_state" where
  "out_state r = (case r of LkRet e s \<Rightarrow> s | LkSleep s \<Rightarrow> s | LkPanic \<Rightarrow> example_state [])"

definition returned :: "lk_out \<Rightarrow> bool" where
  "returned r = (case r of LkRet e s \<Rightarrow> e = None | LkSleep s \<Rightarrow> False | LkPanic \<Rightarrow> False)"

lemma returned_eq: "returned r \<Longrightarrow> r = LkRet None (out_state r)"
  by (cases r) (simp_all add: returned_def out_state_def)

section \<open>Properties\<close>

text \<open>
  C1. In every state that the lock calls of any number of tasks reach from the empty tables,
  in any interleaving and with calls asleep in \<^verbatim>\<open>F_SETLKW\<close>, two locks of different
  owners on the same byte of a file are both read locks.
\<close>

theorem locks_exclusive:
  assumes "reach lk_init (lk_step va) (s, P)"
    and "a \<in> set (i_flock (lk_inode s i))" "b \<in> set (i_flock (lk_inode s i))"
    and "\<not> same_owner a b" "covers a x" "covers b x"
  shows "fl_type a = F_RDLCK \<and> fl_type b = F_RDLCK"
proof -
  have "lock_list_inv (i_flock (lk_inode s i))"
    using lks.reach_inv[OF assms(1)] by (simp add: lk_inv_def state_inv_def)
  then have "compatible a b" "listed a" "listed b" using assms(2,3) by (auto simp: lock_list_inv_def)
  then show ?thesis using assms(4-6) by (auto simp: compatible_def listed_def exclusive_types_def)
qed

theorem locks_exclusive_witness:
  "\<exists>s a b. reach lk_init (lk_step (\<lambda>_ _ _. None)) (s, []) \<and>
     a \<in> set (i_flock (lk_inode s 0)) \<and> b \<in> set (i_flock (lk_inode s 0)) \<and>
     \<not> same_owner a b \<and> covers a 5 \<and> covers b 5 \<and> fl_type a = F_RDLCK \<and> fl_type b = F_RDLCK"
proof -
  let ?va = "\<lambda>_ _ _. None" and ?f = "example_flock F_RDLCK 0 10"
  let ?r1 = "fcntl_setlk ?va (example_state []) (example_task 1 1) 3 6 0 ?f"
  let ?r2 = "fcntl_setlk ?va (out_state ?r1) (example_task 2 1) 3 6 0 ?f"
  let ?a = "example_lock 1 F_RDLCK 0 9" and ?b = "example_lock 2 F_RDLCK 0 9"
  have r: "returned ?r1" "returned ?r2" "i_flock (lk_inode (out_state ?r2) 0) = [?a, ?b]"
    by code_simp+
  have "lk_init (example_state [], [])" by (simp add: lk_init_def example_state_def)
  then have "reach lk_init (lk_step ?va) (example_state [], [])" by (rule reach_init)
  then have "reach lk_init (lk_step ?va) (out_state ?r1, [])"
    by (rule reach_step) (rule lk_set[OF returned_eq[OF r(1)]])
  then have reach: "reach lk_init (lk_step ?va) (out_state ?r2, [])"
    by (rule reach_step) (rule lk_set[OF returned_eq[OF r(2)]])
  have m: "?a \<in> set (i_flock (lk_inode (out_state ?r2) 0))" "?b \<in> set (i_flock (lk_inode (out_state ?r2) 0))"
    using r(3) by simp_all
  have o: "\<not> same_owner ?a ?b" "covers ?a 5" "covers ?b 5"
    by (simp_all add: example_lock_def same_owner_def covers_def)
  from locks_exclusive[OF reach m o] reach m o show ?thesis by blast
qed

text \<open>
  C33. No lock call panics: in every reachable state \<^verbatim>\<open>fcntl_setlk\<close> with any arguments,
  the continuation of every sleeping call and \<^verbatim>\<open>fcntl_remove_locks\<close> end normally, so
  the free list and the lists of the inodes are never found broken.
\<close>

theorem locks_never_panic:
  assumes "reach lk_init (lk_step va) (s, P)"
  shows "fcntl_setlk va s current fd cmd l f \<noteq> LkPanic \<and>
    (\<forall>(t, ino, fd, cmd, fl)\<in>set P. tk_self current = t \<longrightarrow> setlk_resume s current ino fd cmd fl \<noteq> LkPanic) \<and>
    fcntl_remove_locks s task ino fd \<noteq> None"
proof -
  have inv: "state_inv s" "\<forall>(t, ino, fd, cmd, fl)\<in>set P. request_ok t fd fl"
    using lks.reach_inv[OF assms] by (simp_all add: lk_inv_def)
  have "fcntl_setlk va s current fd cmd l f \<noteq> LkPanic"
    using setlk_inv[OF inv(1), of va current fd cmd l f] by (auto simp: out_inv_def)
  moreover have "setlk_resume s current ino fd cmd fl \<noteq> LkPanic"
    if "(tk_self current, ino, fd, cmd, fl) \<in> set P" for ino fd cmd fl
  proof -
    have "request_ok (tk_self current) fd fl" using inv(2) that by auto
    from resume_inv[OF inv(1) this, of ino cmd] show ?thesis by (auto simp: out_inv_def)
  qed
  moreover have "fcntl_remove_locks s task ino fd \<noteq> None"
    using remove_locks_inv[OF inv(1), of task ino fd] by auto
  ultimately show ?thesis by auto
qed

theorem locks_never_panic_witness:
  "fcntl_setlk (\<lambda>_ _ _. None) (example_state []) (example_task 1 3) 3 7 0 (example_flock F_EXLCK 0 0) \<noteq> LkPanic"
proof -
  have "lk_init (example_state [], [])" by (simp add: lk_init_def example_state_def)
  then have "reach lk_init (lk_step (\<lambda>_ _ _. None)) (example_state [], [])" by (rule reach_init)
  from locks_never_panic[OF this] show ?thesis by blast
qed

text \<open>
  C34. \<^verbatim>\<open>F_GETLK\<close> predicts \<^verbatim>\<open>F_SETLK\<close>: for a read or write request that the
  access mode of the descriptor allows, the non-blocking \<^verbatim>\<open>F_SETLK\<close> fails with
  \<^verbatim>\<open>EAGAIN\<close> exactly when \<^verbatim>\<open>F_GETLK\<close> does not report the region as unlocked.
\<close>

theorem getlk_predicts_setlk:
  assumes "fcntl_getlk va pid s current fd l f = Inr r"
    and "setlk_request va s current fd l f = Inr (ino, fl)" "l_type f \<in> {F_RDLCK, F_WRLCK}"
    and "\<And>k. k \<in> set (i_flock (lk_inode s ino)) \<Longrightarrow> listed k" "cmd \<noteq> F_SETLKW"
  shows "(\<exists>s'. fcntl_setlk va s current fd cmd l f = LkRet (Some EAGAIN) s') \<longleftrightarrow> l_type r \<noteq> F_UNLCK"
proof -
  obtain filp fl0 where filp: "copy_flock s current filp f fd = Some fl0" "ino = the (f_inode filp)"
      "setlk_access (f_mode filp) fl0 = Inr fl" "(if fd \<ge> NR_OPEN then None else tk_filp current fd) = Some filp"
    and va: "va VERIFY_WRITE l 16 = None"
    using assms(2) unfolding setlk_request_def by (auto split: option.splits sum.splits)
  have ty0: "fl_type fl0 = l_type f" by (rule copy_flock_type[OF filp(1)])
  have fl: "fl0 = fl" using filp(3) ty0 assms(3) by (auto simp: setlk_access_def split: if_splits)
  note filp = filp[unfolded fl] and ty = ty0[unfolded fl]
  have nu: "fl_type fl \<noteq> F_UNLCK" "l_type f \<noteq> F_UNLCK" using ty assms(3) by auto
  have set: "fcntl_setlk va s current fd cmd l f = setlk_scan s current ino fd cmd fl"
    using assms(2) by (simp add: fcntl_setlk_def)
  let ?L = "i_flock (lk_inode s ino)"
  show ?thesis
  proof (cases "find (conflict fl) ?L")
    case None
    then have "\<forall>k\<in>set ?L. \<not> conflict fl k" by (auto simp: find_None_iff)
    moreover have "l_type r = F_UNLCK"
      using assms(1) filp va nu None by (auto simp: fcntl_getlk_def split: if_splits)
    ultimately show ?thesis using setlk_scan_free set by auto
  next
    case (Some k)
    then have k: "k \<in> set ?L" "conflict fl k" by (auto simp: find_Some_iff)
    moreover have "l_type r = fl_type k"
      using assms(1) filp va nu Some by (auto simp: fcntl_getlk_def split: if_splits)
    ultimately show ?thesis using setlk_scan_again[OF assms(5) nu(1), of s ino] set assms(4)[OF k(1)]
      by (auto simp: listed_def)
  qed
qed

theorem getlk_predicts_setlk_witness:
  "\<exists>s' r. fcntl_setlk (\<lambda>_ _ _. None) (example_state [example_lock 1 F_WRLCK 0 9]) (example_task 2 1) 3 6 0
       (example_flock F_RDLCK 5 10) = LkRet (Some EAGAIN) s' \<and>
     fcntl_getlk (\<lambda>_ _ _. None) int (example_state [example_lock 1 F_WRLCK 0 9]) (example_task 2 1) 3 0
       (example_flock F_RDLCK 5 10) = Inr r \<and> l_type r = F_WRLCK"
proof -
  let ?va = "\<lambda>_ _ _. None" and ?s = "example_state [example_lock 1 F_WRLCK 0 9]"
  let ?f = "example_flock F_RDLCK 5 10" and ?t = "example_task 2 1"
  let ?r = "\<lparr>l_type = F_WRLCK, l_whence = 0, l_start = 0, l_len = 10, l_pid = int 1\<rparr>"
  have g: "fcntl_getlk ?va int ?s ?t 3 0 ?f = Inr ?r" by code_simp
  have q: "setlk_request ?va ?s ?t 3 0 ?f = Inr (0, example_lock 2 F_RDLCK 5 14)" by code_simp
  have "\<exists>s'. fcntl_setlk ?va ?s ?t 3 6 0 ?f = LkRet (Some EAGAIN) s'"
    using getlk_predicts_setlk[OF g q, of 6]
    by (simp add: example_flock_def example_state_def example_lock_def listed_def)
  then show ?thesis using g by auto
qed

text \<open>
  For the \<^verbatim>\<open>flock()\<close> types the prediction fails: \<^verbatim>\<open>F_SETLK\<close> turns
  \<^verbatim>\<open>F_EXLCK\<close> into a write lock before it looks for a conflict, \<^verbatim>\<open>F_GETLK\<close> does
  not, so it reports a region locked by another task as unlocked while the same request to set the
  lock is refused.
\<close>

lemma getlk_exlck_blind:
  "fcntl_getlk (\<lambda>_ _ _. None) pid (example_state [example_lock 1 F_WRLCK 0 9]) (example_task 2 3) 3 0
      (example_flock F_EXLCK 5 10) = Inr (example_flock F_UNLCK 5 10) \<and>
   (\<exists>s'. fcntl_setlk (\<lambda>_ _ _. None) (example_state [example_lock 1 F_WRLCK 0 9]) (example_task 2 3) 3 6 0
      (example_flock F_EXLCK 5 10) = LkRet (Some EAGAIN) s')"
proof -
  let ?va = "\<lambda>_ _ _. None" and ?s = "example_state [example_lock 1 F_WRLCK 0 9]" and ?t = "example_task 2 3"
  have q: "setlk_request ?va ?s ?t 3 0 (example_flock F_EXLCK 5 10) = Inr (0, example_lock 2 F_WRLCK 5 14)"
    by code_simp
  have "conflict (example_lock 2 F_WRLCK 5 14) (example_lock 1 F_WRLCK 0 9)" by code_simp
  then have "setlk_scan ?s ?t 0 3 6 (example_lock 2 F_WRLCK 5 14) = LkRet (Some EAGAIN) ?s"
    by (intro setlk_scan_again) (simp_all add: example_lock_def example_state_def)
  moreover have "fcntl_getlk ?va pid ?s ?t 3 0 (example_flock F_EXLCK 5 10) = Inr (example_flock F_UNLCK 5 10)"
    by (simp add: fcntl_getlk_def example_task_def example_flock_def example_state_def example_lock_def
        copy_flock_def NR_OPEN_def S_ISREG_def S_IFMT_def S_IFREG_def wrap32_def conflict_def same_owner_def
        overlap_def)
  ultimately show ?thesis using q by (simp add: fcntl_setlk_def)
qed

end
