(* ===== verification/Task.thy ===== *)
theory Task
  imports Uaccess
begin

text \<open>
  The process table: the fields of \<^verbatim>\<open>struct task_struct\<close> that the modelled system
  calls read or write (\<^verbatim>\<open>include/linux/sched.h\<close>), the array \<^verbatim>\<open>task[]\<close>,
  the ring that \<^verbatim>\<open>for_each_task\<close> walks, and \<^verbatim>\<open>current\<close>. A pointer to a task is
  the index of its slot in the array.
\<close>

section \<open>Types\<close>

text \<open>The check of user addresses with its processor-dependent arguments fixed.\<close>

type_synonym va_fun = "verify_type \<Rightarrow> u32 \<Rightarrow> u32 \<Rightarrow> errno option"

text \<open>The states of a task.\<close>

abbreviation (input) "TASK_RUNNING \<equiv> (0 :: int)"
abbreviation (input) "TASK_INTERRUPTIBLE \<equiv> (1 :: int)"
abbreviation (input) "TASK_UNINTERRUPTIBLE \<equiv> (2 :: int)"
abbreviation (input) "TASK_ZOMBIE \<equiv> (3 :: int)"
abbreviation (input) "TASK_STOPPED \<equiv> (4 :: int)"

text \<open>Signal actions; a handler is the address of user code, 0 and 1 stand for the defaults.\<close>

record sigaction =
  sa_handler :: u32
  sa_mask :: u32
  sa_flags :: u32
  sa_restorer :: u32

record rlimit =
  rlim_cur :: int
  rlim_max :: int

record task_struct =
  t_state :: int
  t_counter :: int
  t_priority :: int
  t_signal :: u32
  t_blocked :: u32
  t_flags :: u32
  t_sigaction :: "sigaction list"
  t_exit_code :: int
  t_exit_signal :: int
  t_did_exec :: bool
  t_pid :: int
  t_pgrp :: int
  t_session :: int
  t_leader :: bool
  t_groups :: "int list"
  t_timeout :: u32
  t_p_opptr :: nat
  t_p_pptr :: nat
  t_uid :: u16
  t_euid :: u16
  t_suid :: u16
  t_gid :: u16
  t_egid :: u16
  t_sgid :: u16
  t_it_real_value :: u32
  t_it_prof_value :: u32
  t_it_virt_value :: u32
  t_it_real_incr :: u32
  t_it_prof_incr :: u32
  t_it_virt_incr :: u32
  t_utime :: int
  t_stime :: int
  t_cutime :: int
  t_cstime :: int
  t_min_flt :: u32
  t_maj_flt :: u32
  t_cmin_flt :: u32
  t_cmaj_flt :: u32
  t_rlim :: "rlimit list"
  t_tty :: int
  t_umask :: u16

text \<open>The first task, \<^verbatim>\<open>INIT_TASK\<close>, and a task of an ordinary user for concrete states.\<close>

definition INIT_TASK :: task_struct where
  "INIT_TASK = \<lparr>t_state = 0, t_counter = 15, t_priority = 15, t_signal = 0, t_blocked = 0, t_flags = 0,
     t_sigaction = replicate 32 \<lparr>sa_handler = 0, sa_mask = 0, sa_flags = 0, sa_restorer = 0\<rparr>,
     t_exit_code = 0, t_exit_signal = 0, t_did_exec = False,
     t_pid = 0, t_pgrp = 0, t_session = 0, t_leader = False,
     t_groups = - 1 # replicate 31 0, t_timeout = 0, t_p_opptr = 0, t_p_pptr = 0,
     t_uid = 0, t_euid = 0, t_suid = 0, t_gid = 0, t_egid = 0, t_sgid = 0,
     t_it_real_value = 0, t_it_prof_value = 0, t_it_virt_value = 0,
     t_it_real_incr = 0, t_it_prof_incr = 0, t_it_virt_incr = 0,
     t_utime = 0, t_stime = 0, t_cutime = 0, t_cstime = 0,
     t_min_flt = 0, t_maj_flt = 0, t_cmin_flt = 0, t_cmaj_flt = 0,
     t_rlim = replicate 4 \<lparr>rlim_cur = 0x7fffffff, rlim_max = 0x7fffffff\<rparr> @
       [\<lparr>rlim_cur = 0, rlim_max = 0x7fffffff\<rparr>, \<lparr>rlim_cur = 0x7fffffff, rlim_max = 0x7fffffff\<rparr>],
     t_tty = - 1, t_umask = 0x12\<rparr>"

definition example_user :: "u16 \<Rightarrow> task_struct" where
  "example_user u = INIT_TASK\<lparr>t_uid := u, t_euid := u, t_suid := u\<rparr>"

text \<open>
  \<open>k_task\<close> is \<^verbatim>\<open>task[]\<close>, \<open>k_ring\<close> the slots in the order of the ring without
  the idle task, \<open>k_current\<close> the running task's slot, \<open>k_woken\<close> the tasks whose
  queue \<^verbatim>\<open>wait_chldexit\<close> has been woken, in order.
\<close>

record kstate =
  k_task :: "nat \<Rightarrow> task_struct option"
  k_ring :: "nat list"
  k_current :: nat
  k_woken :: "nat list"

definition NR_TASKS :: nat where
  [kconst]: "NR_TASKS = 128"

text \<open>\<^verbatim>\<open>current->signal & ~current->blocked\<close>: the test of the calls that sleep.\<close>

definition signal_pending :: "task_struct \<Rightarrow> bool" where
  "signal_pending t \<longleftrightarrow> t_signal t AND NOT (t_blocked t) \<noteq> 0"

definition the_task :: "kstate \<Rightarrow> nat \<Rightarrow> task_struct" where
  "the_task k i = the (k_task k i)"

definition put_task :: "nat \<Rightarrow> task_struct \<Rightarrow> kstate \<Rightarrow> kstate" where
  "put_task i t k = k\<lparr>k_task := (k_task k)(i \<mapsto> t)\<rparr>"

definition current :: "kstate \<Rightarrow> task_struct" where
  "current k = the_task k (k_current k)"

definition put_current :: "task_struct \<Rightarrow> kstate \<Rightarrow> kstate" where
  "put_current t k = put_task (k_current k) t k"

text \<open>\<^verbatim>\<open>suser()\<close>: the effective user is root.\<close>

definition suser :: "task_struct \<Rightarrow> bool" where
  "suser t \<longleftrightarrow> t_euid t = 0"

text \<open>The slots of the ring are tasks, and the current one is a task.\<close>

definition tasks_ok :: "kstate \<Rightarrow> bool" where
  "tasks_ok k \<longleftrightarrow> (\<forall>i\<in>set (k_ring k). k_task k i \<noteq> None) \<and> k_task k (k_current k) \<noteq> None"

section \<open>Reading and writing the table\<close>

lemma the_task_put [simp]:
  "the_task (put_task i t k) j = (if i = j then t else the_task k j)"
  by (simp add: the_task_def put_task_def)

lemma put_task_simps [simp]:
  "k_ring (put_task i t k) = k_ring k" "k_woken (put_task i t k) = k_woken k" "k_current (put_task i t k) = k_current k"
  "k_task (put_task i t k) j = (if i = j then Some t else k_task k j)"
  by (simp_all add: put_task_def)

lemma put_current_simps [simp]:
  "k_ring (put_current t k) = k_ring k" "k_current (put_current t k) = k_current k"
  "current (put_current t k) = t"
  "the_task (put_current t k) j = (if k_current k = j then t else the_task k j)"
  by (simp_all add: put_current_def current_def)

lemma tasks_ok_put [simp]: "tasks_ok k \<Longrightarrow> tasks_ok (put_task i t k)"
  by (auto simp: tasks_ok_def)

end
