(* ===== verification/Sys_Cred.thy ===== *)
theory Sys_Cred
  imports Task
begin

text \<open>
  Credentials and limits of a task (\<^verbatim>\<open>kernel/sys.c\<close>): user and group ids, the
  supplementary groups, resource limits and the file creation mask. Each operation maps the
  current task to the error it returns (\<^const>\<open>None\<close> for 0) and the task it leaves.
\<close>

section \<open>User and group ids\<close>

text \<open>An argument of \<open>-1\<close> leaves the id alone.\<close>

definition sys_setregid :: "u16 \<Rightarrow> u16 \<Rightarrow> task_struct \<Rightarrow> errno option \<times> task_struct" where
  "sys_setregid rgid egid t =
     (let old_rgid = t_gid t in
      if rgid \<noteq> - 1 \<and> \<not> (t_egid t = rgid \<or> old_rgid = rgid \<or> suser t) then (Some EPERM, t)
      else
        let t1 = (if rgid \<noteq> - 1 then t\<lparr>t_gid := rgid\<rparr> else t)
        in if egid \<noteq> - 1
           then if old_rgid = egid \<or> t_egid t1 = egid \<or> suser t1
                then (None, t1\<lparr>t_egid := egid, t_sgid := egid\<rparr>)
                else (Some EPERM, t1\<lparr>t_gid := old_rgid\<rparr>)
           else (None, t1))"

definition sys_setgid :: "u16 \<Rightarrow> task_struct \<Rightarrow> errno option \<times> task_struct" where
  "sys_setgid gid t =
     (if suser t then (None, t\<lparr>t_gid := gid, t_egid := gid, t_sgid := gid\<rparr>)
      else if gid = t_gid t \<or> gid = t_sgid t then (None, t\<lparr>t_egid := gid\<rparr>)
      else (Some EPERM, t))"

definition sys_setreuid :: "u16 \<Rightarrow> u16 \<Rightarrow> task_struct \<Rightarrow> errno option \<times> task_struct" where
  "sys_setreuid ruid euid t =
     (let old_ruid = t_uid t in
      if ruid \<noteq> - 1 \<and> \<not> (t_euid t = ruid \<or> old_ruid = ruid \<or> suser t) then (Some EPERM, t)
      else
        let t1 = (if ruid \<noteq> - 1 then t\<lparr>t_uid := ruid\<rparr> else t)
        in if euid \<noteq> - 1
           then if old_ruid = euid \<or> t_euid t1 = euid \<or> suser t1
                then (None, t1\<lparr>t_euid := euid, t_suid := euid\<rparr>)
                else (Some EPERM, t1\<lparr>t_uid := old_ruid\<rparr>)
           else (None, t1))"

definition sys_setuid :: "u16 \<Rightarrow> task_struct \<Rightarrow> errno option \<times> task_struct" where
  "sys_setuid uid t =
     (if suser t then (None, t\<lparr>t_uid := uid, t_euid := uid, t_suid := uid\<rparr>)
      else if uid = t_uid t \<or> uid = t_suid t then (None, t\<lparr>t_euid := uid\<rparr>)
      else (Some EPERM, t))"

section \<open>Supplementary groups\<close>

definition NGROUPS :: nat where
  [kconst]: "NGROUPS = 32"

definition NOGROUP :: int where
  [kconst]: "NOGROUP = - 1"

text \<open>
  The loop of \<^verbatim>\<open>getgroups\<close> from index \<open>i\<close> on the groups from there: the count it
  returns and the words it stores through \<^verbatim>\<open>grouplist\<close>.
\<close>

fun getgroups_loop :: "int \<Rightarrow> int \<Rightarrow> int list \<Rightarrow> int \<times> u16 list" where
  "getgroups_loop gidsetsize i [] = (i, [])"
| "getgroups_loop gidsetsize i (g # gs) =
     (if g = NOGROUP then (i, [])
      else if gidsetsize = 0 then getgroups_loop gidsetsize (i + 1) gs
      else if i \<ge> gidsetsize then (i, [])
      else (case getgroups_loop gidsetsize (i + 1) gs of (n, ws) \<Rightarrow> (n, word_of_int g # ws)))"

definition sys_getgroups :: "va_fun \<Rightarrow> int \<Rightarrow> u32 \<Rightarrow> task_struct \<Rightarrow> (int \<times> u16 list) res" where
  "sys_getgroups va gidsetsize grouplist t =
     (case (if gidsetsize \<noteq> 0 then va VERIFY_WRITE grouplist (word_of_int (2 * gidsetsize)) else None) of
        Some e \<Rightarrow> Inl e
      | None \<Rightarrow> Inr (getgroups_loop gidsetsize 0 (t_groups t)))"

text \<open>\<open>user i\<close> is the \<open>i\<close>th word the caller passes.\<close>

definition sys_setgroups :: "int \<Rightarrow> (nat \<Rightarrow> u16) \<Rightarrow> task_struct \<Rightarrow> errno option \<times> task_struct" where
  "sys_setgroups gidsetsize user t =
     (if \<not> suser t then (Some EPERM, t)
      else if gidsetsize > int NGROUPS then (Some EINVAL, t)
      else
        let i = nat gidsetsize;
            gs = fold (\<lambda>i gs. gs[i := uint (user i)]) [0..<i] (t_groups t)
        in (None, t\<lparr>t_groups := (if i < NGROUPS then gs[i := NOGROUP] else gs)\<rparr>))"

fun group_loop :: "int \<Rightarrow> int list \<Rightarrow> bool" where
  "group_loop grp [] = False"
| "group_loop grp (g # gs) = (if g = NOGROUP then False else if g = grp then True else group_loop grp gs)"

definition in_group_p :: "u16 \<Rightarrow> task_struct \<Rightarrow> bool" where
  "in_group_p grp t = (if grp = t_egid t then True else group_loop (uint grp) (t_groups t))"

section \<open>Limits, usage and the file creation mask\<close>

definition RLIM_NLIMITS :: nat where
  [kconst]: "RLIM_NLIMITS = 6"

definition sys_getrlimit :: "va_fun \<Rightarrow> u32 \<Rightarrow> u32 \<Rightarrow> task_struct \<Rightarrow> rlimit res" where
  "sys_getrlimit va resource rlim t =
     (if unat resource \<ge> RLIM_NLIMITS then Inl EINVAL
      else (case va VERIFY_WRITE rlim 8 of
              Some e \<Rightarrow> Inl e
            | None \<Rightarrow> Inr (t_rlim t ! unat resource)))"

definition sys_setrlimit :: "u32 \<Rightarrow> rlimit \<Rightarrow> task_struct \<Rightarrow> errno option \<times> task_struct" where
  "sys_setrlimit resource new_rlim t =
     (if unat resource \<ge> RLIM_NLIMITS then (Some EINVAL, t)
      else
        let old_rlim = t_rlim t ! unat resource
        in if (rlim_cur new_rlim > rlim_max old_rlim \<or> rlim_max new_rlim > rlim_max old_rlim) \<and> \<not> suser t
           then (Some EPERM, t)
           else (None, t\<lparr>t_rlim := (t_rlim t)[unat resource := new_rlim]\<rparr>))"

definition HZ :: int where
  [kconst]: "HZ = 100"

text \<open>\<^verbatim>\<open>CT_TO_SECS\<close> and \<^verbatim>\<open>CT_TO_USECS\<close>; C division truncates.\<close>

definition CT_TO_SECS :: "int \<Rightarrow> int" where
  "CT_TO_SECS x = x sdiv HZ"

definition CT_TO_USECS :: "int \<Rightarrow> int" where
  "CT_TO_USECS x = (x smod HZ * 1000000) sdiv HZ"

record timeval =
  tv_sec :: int
  tv_usec :: int

record rusage =
  ru_utime :: timeval
  ru_stime :: timeval
  ru_minflt :: u32
  ru_majflt :: u32

abbreviation (input) "RUSAGE_SELF \<equiv> (0 :: int)"
abbreviation (input) "RUSAGE_CHILDREN \<equiv> (- 1 :: int)"

definition ticks_tv :: "int \<Rightarrow> timeval" where
  "ticks_tv x = \<lparr>tv_sec = CT_TO_SECS x, tv_usec = CT_TO_USECS x\<rparr>"

text \<open>The fields of \<^verbatim>\<open>struct rusage\<close> that stay 0 are left out of the record.\<close>

definition getrusage :: "va_fun \<Rightarrow> task_struct \<Rightarrow> int \<Rightarrow> u32 \<Rightarrow> rusage res" where
  "getrusage va p who ru =
     (case va VERIFY_WRITE ru 72 of
        Some e \<Rightarrow> Inl e
      | None \<Rightarrow> Inr
         (if who = RUSAGE_SELF
          then \<lparr>ru_utime = ticks_tv (t_utime p), ru_stime = ticks_tv (t_stime p),
                ru_minflt = t_min_flt p, ru_majflt = t_maj_flt p\<rparr>
          else if who = RUSAGE_CHILDREN
          then \<lparr>ru_utime = ticks_tv (t_cutime p), ru_stime = ticks_tv (t_cstime p),
                ru_minflt = t_cmin_flt p, ru_majflt = t_cmaj_flt p\<rparr>
          else \<lparr>ru_utime = ticks_tv (wrap32 (t_utime p + t_cutime p)),
                ru_stime = ticks_tv (wrap32 (t_stime p + t_cstime p)),
                ru_minflt = t_min_flt p + t_cmin_flt p, ru_majflt = t_maj_flt p + t_cmaj_flt p\<rparr>))"

definition sys_getrusage :: "va_fun \<Rightarrow> int \<Rightarrow> u32 \<Rightarrow> task_struct \<Rightarrow> rusage res" where
  "sys_getrusage va who ru t =
     (if who \<noteq> RUSAGE_SELF \<and> who \<noteq> RUSAGE_CHILDREN then Inl EINVAL
      else getrusage va t who ru)"

definition sys_umask :: "int \<Rightarrow> task_struct \<Rightarrow> int \<times> task_struct" where
  "sys_umask msk t = (uint (t_umask t), t\<lparr>t_umask := word_of_int msk AND S_IRWXUGO\<rparr>)"

text \<open>The record \<^verbatim>\<open>struct tms\<close> and the clock that \<^verbatim>\<open>times\<close> returns.\<close>

record tms =
  tms_utime :: int
  tms_stime :: int
  tms_cutime :: int
  tms_cstime :: int

definition sys_times :: "va_fun \<Rightarrow> u32 \<Rightarrow> u32 \<Rightarrow> task_struct \<Rightarrow> (tms option \<times> int) res" where
  "sys_times va jiffies tbuf t =
     (if tbuf \<noteq> 0
      then (case va VERIFY_WRITE tbuf 16 of
              Some e \<Rightarrow> Inl e
            | None \<Rightarrow> Inr (Some \<lparr>tms_utime = t_utime t, tms_stime = t_stime t,
                                tms_cutime = t_cutime t, tms_cstime = t_cstime t\<rparr>, sint jiffies))
      else Inr (None, sint jiffies))"

section \<open>What an unprivileged task can do to itself\<close>

definition uids :: "task_struct \<Rightarrow> u16 set" where
  "uids t = {t_uid t, t_euid t, t_suid t}"

definition gids :: "task_struct \<Rightarrow> u16 set" where
  "gids t = {t_gid t, t_egid t, t_sgid t}"

inductive cred_step :: "task_struct \<Rightarrow> task_struct \<Rightarrow> bool" where
  cred_setreuid: "cred_step t (snd (sys_setreuid r e t))"
| cred_setuid: "cred_step t (snd (sys_setuid u t))"
| cred_setregid: "cred_step t (snd (sys_setregid r e t))"
| cred_setgid: "cred_step t (snd (sys_setgid g t))"
| cred_setgroups: "cred_step t (snd (sys_setgroups n user t))"
| cred_setrlimit: "cred_step t (snd (sys_setrlimit res lim t))"
| cred_umask: "cred_step t (snd (sys_umask m t))"

definition confined :: "task_struct \<Rightarrow> task_struct \<Rightarrow> bool" where
  "confined t0 t \<longleftrightarrow> uids t \<subseteq> uids t0 \<and> gids t \<subseteq> gids t0 \<and> t_groups t = t_groups t0 \<and>
     length (t_rlim t) = length (t_rlim t0) \<and>
     (\<forall>i<length (t_rlim t0). rlim_max (t_rlim t ! i) \<le> rlim_max (t_rlim t0 ! i))"

lemma setreuid_effect:
  "sys_setreuid r e t = (Some EPERM, t) \<or>
   (\<exists>a b c. sys_setreuid r e t = (None, t\<lparr>t_uid := a, t_euid := b, t_suid := c\<rparr>) \<and>
      (\<not> suser t \<longrightarrow> {a, b, c} \<subseteq> uids t))"
proof (cases "r \<noteq> - 1 \<and> \<not> (t_euid t = r \<or> t_uid t = r \<or> suser t)")
  case True
  then show ?thesis by (simp add: sys_setreuid_def Let_def)
next
  case ok: False
  define a where "a = (if r \<noteq> - 1 then r else t_uid t)"
  have t1: "(if r \<noteq> - 1 then t\<lparr>t_uid := r\<rparr> else t) = t\<lparr>t_uid := a\<rparr>" by (simp add: a_def)
  have a: "\<not> suser t \<longrightarrow> a \<in> uids t" using ok by (auto simp: a_def uids_def)
  have su: "suser (t\<lparr>t_uid := a\<rparr>) = suser t" by (simp add: suser_def)
  consider (keep) "e = - 1" | (set) "e \<noteq> - 1" "t_uid t = e \<or> t_euid t = e \<or> suser t"
    | (deny) "e \<noteq> - 1" "\<not> (t_uid t = e \<or> t_euid t = e \<or> suser t)" by blast
  then show ?thesis
  proof cases
    case keep
    then have "sys_setreuid r e t = (None, t\<lparr>t_uid := a, t_euid := t_euid t, t_suid := t_suid t\<rparr>)"
      unfolding sys_setreuid_def Let_def if_not_P[OF ok] t1 by simp
    moreover have "\<not> suser t \<longrightarrow> {a, t_euid t, t_suid t} \<subseteq> uids t" using a by (auto simp: uids_def)
    ultimately show ?thesis by (intro disjI2 exI conjI)
  next
    case set
    then have "sys_setreuid r e t = (None, t\<lparr>t_uid := a, t_euid := e, t_suid := e\<rparr>)"
      unfolding sys_setreuid_def Let_def if_not_P[OF ok] t1 su by simp
    moreover have "\<not> suser t \<longrightarrow> {a, e, e} \<subseteq> uids t" using a set by (auto simp: uids_def)
    ultimately show ?thesis by (intro disjI2 exI conjI)
  next
    case deny
    then have "sys_setreuid r e t = (Some EPERM, t)"
      unfolding sys_setreuid_def Let_def if_not_P[OF ok] t1 su by simp
    then show ?thesis by simp
  qed
qed

lemma setregid_effect:
  "sys_setregid r e t = (Some EPERM, t) \<or>
   (\<exists>a b c. sys_setregid r e t = (None, t\<lparr>t_gid := a, t_egid := b, t_sgid := c\<rparr>) \<and>
      (\<not> suser t \<longrightarrow> {a, b, c} \<subseteq> gids t))"
proof (cases "r \<noteq> - 1 \<and> \<not> (t_egid t = r \<or> t_gid t = r \<or> suser t)")
  case True
  then show ?thesis by (simp add: sys_setregid_def Let_def)
next
  case ok: False
  define a where "a = (if r \<noteq> - 1 then r else t_gid t)"
  have t1: "(if r \<noteq> - 1 then t\<lparr>t_gid := r\<rparr> else t) = t\<lparr>t_gid := a\<rparr>" by (simp add: a_def)
  have a: "\<not> suser t \<longrightarrow> a \<in> gids t" using ok by (auto simp: a_def gids_def)
  have su: "suser (t\<lparr>t_gid := a\<rparr>) = suser t" by (simp add: suser_def)
  consider (keep) "e = - 1" | (set) "e \<noteq> - 1" "t_gid t = e \<or> t_egid t = e \<or> suser t"
    | (deny) "e \<noteq> - 1" "\<not> (t_gid t = e \<or> t_egid t = e \<or> suser t)" by blast
  then show ?thesis
  proof cases
    case keep
    then have "sys_setregid r e t = (None, t\<lparr>t_gid := a, t_egid := t_egid t, t_sgid := t_sgid t\<rparr>)"
      unfolding sys_setregid_def Let_def if_not_P[OF ok] t1 by simp
    moreover have "\<not> suser t \<longrightarrow> {a, t_egid t, t_sgid t} \<subseteq> gids t" using a by (auto simp: gids_def)
    ultimately show ?thesis by (intro disjI2 exI conjI)
  next
    case set
    then have "sys_setregid r e t = (None, t\<lparr>t_gid := a, t_egid := e, t_sgid := e\<rparr>)"
      unfolding sys_setregid_def Let_def if_not_P[OF ok] t1 su by simp
    moreover have "\<not> suser t \<longrightarrow> {a, e, e} \<subseteq> gids t" using a set by (auto simp: gids_def)
    ultimately show ?thesis by (intro disjI2 exI conjI)
  next
    case deny
    then have "sys_setregid r e t = (Some EPERM, t)"
      unfolding sys_setregid_def Let_def if_not_P[OF ok] t1 su by simp
    then show ?thesis by simp
  qed
qed

lemma setrlimit_effect:
  assumes "\<not> suser t"
  shows "\<exists>rl. snd (sys_setrlimit res lim t) = t\<lparr>t_rlim := rl\<rparr> \<and> length rl = length (t_rlim t) \<and>
    (\<forall>i<length rl. rlim_max (rl ! i) \<le> rlim_max (t_rlim t ! i))"
proof -
  let ?t' = "snd (sys_setrlimit res lim t)"
  have "?t' = t\<lparr>t_rlim := t_rlim ?t'\<rparr>" by (simp add: sys_setrlimit_def Let_def)
  moreover have "length (t_rlim ?t') = length (t_rlim t)" by (simp add: sys_setrlimit_def Let_def)
  moreover have "\<forall>i<length (t_rlim ?t'). rlim_max (t_rlim ?t' ! i) \<le> rlim_max (t_rlim t ! i)"
  proof (intro allI impI)
    fix i assume "i < length (t_rlim ?t')"
    then show "rlim_max (t_rlim ?t' ! i) \<le> rlim_max (t_rlim t ! i)"
      using assms by (cases "unat res = i") (auto simp: sys_setrlimit_def Let_def)
  qed
  ultimately show ?thesis by blast
qed

lemma confined_uids:
  assumes "confined t0 t" "{a, b, c} \<subseteq> uids t"
  shows "confined t0 (t\<lparr>t_uid := a, t_euid := b, t_suid := c\<rparr>)"
proof -
  let ?t' = "t\<lparr>t_uid := a, t_euid := b, t_suid := c\<rparr>"
  have "uids ?t' = {a, b, c}" "gids ?t' = gids t" by (simp_all add: uids_def gids_def)
  moreover have "{a, b, c} \<subseteq> uids t0" using assms unfolding confined_def by (meson subset_trans)
  ultimately show ?thesis using assms(1) by (simp add: confined_def)
qed

lemma confined_gids:
  assumes "confined t0 t" "{a, b, c} \<subseteq> gids t"
  shows "confined t0 (t\<lparr>t_gid := a, t_egid := b, t_sgid := c\<rparr>)"
proof -
  let ?t' = "t\<lparr>t_gid := a, t_egid := b, t_sgid := c\<rparr>"
  have "gids ?t' = {a, b, c}" "uids ?t' = uids t" by (simp_all add: uids_def gids_def)
  moreover have "{a, b, c} \<subseteq> gids t0" using assms unfolding confined_def by (meson subset_trans)
  ultimately show ?thesis using assms(1) by (simp add: confined_def)
qed

lemma confined_rlim:
  assumes "confined t0 t" "length rl = length (t_rlim t)"
    "\<forall>i<length rl. rlim_max (rl ! i) \<le> rlim_max (t_rlim t ! i)"
  shows "confined t0 (t\<lparr>t_rlim := rl\<rparr>)"
  using assms unfolding confined_def uids_def gids_def by (simp, metis order_trans)

lemma setuid_unprivileged:
  "\<not> suser t \<Longrightarrow> \<exists>b. {t_uid t, b, t_suid t} \<subseteq> uids t \<and>
     snd (sys_setuid u t) = t\<lparr>t_uid := t_uid t, t_euid := b, t_suid := t_suid t\<rparr>"
proof (cases "u = t_uid t \<or> u = t_suid t")
  case True
  assume "\<not> suser t"
  then have "snd (sys_setuid u t) = t\<lparr>t_uid := t_uid t, t_euid := u, t_suid := t_suid t\<rparr>"
    using True by (simp add: sys_setuid_def)
  moreover have "{t_uid t, u, t_suid t} \<subseteq> uids t" using True by (auto simp: uids_def)
  ultimately show ?thesis by (intro exI conjI)
next
  case False
  assume "\<not> suser t"
  then have "snd (sys_setuid u t) = t\<lparr>t_uid := t_uid t, t_euid := t_euid t, t_suid := t_suid t\<rparr>"
    using False by (simp add: sys_setuid_def)
  moreover have "{t_uid t, t_euid t, t_suid t} \<subseteq> uids t" by (simp add: uids_def)
  ultimately show ?thesis by (intro exI conjI)
qed

lemma setgid_unprivileged:
  "\<not> suser t \<Longrightarrow> \<exists>b. {t_gid t, b, t_sgid t} \<subseteq> gids t \<and>
     snd (sys_setgid u t) = t\<lparr>t_gid := t_gid t, t_egid := b, t_sgid := t_sgid t\<rparr>"
proof (cases "u = t_gid t \<or> u = t_sgid t")
  case True
  assume "\<not> suser t"
  then have "snd (sys_setgid u t) = t\<lparr>t_gid := t_gid t, t_egid := u, t_sgid := t_sgid t\<rparr>"
    using True by (simp add: sys_setgid_def)
  moreover have "{t_gid t, u, t_sgid t} \<subseteq> gids t" using True by (auto simp: gids_def)
  ultimately show ?thesis by (intro exI conjI)
next
  case False
  assume "\<not> suser t"
  then have "snd (sys_setgid u t) = t\<lparr>t_gid := t_gid t, t_egid := t_egid t, t_sgid := t_sgid t\<rparr>"
    using False by (simp add: sys_setgid_def)
  moreover have "{t_gid t, t_egid t, t_sgid t} \<subseteq> gids t" by (simp add: gids_def)
  ultimately show ?thesis by (intro exI conjI)
qed

lemma cred_step_confined:
  assumes root: "0 \<notin> uids t0" and inv: "confined t0 t" and step: "cred_step t t'"
  shows "confined t0 t'"
proof -
  have "t_euid t \<noteq> 0" using root inv unfolding confined_def uids_def by auto
  then have ns: "\<not> suser t" by (simp add: suser_def)
  from step show ?thesis
  proof cases
    case (cred_setreuid r e)
    then show ?thesis using setreuid_effect[of r e t] confined_uids[OF inv] ns inv by (elim disjE exE conjE) simp_all
  next
    case (cred_setuid u)
    obtain b where b: "{t_uid t, b, t_suid t} \<subseteq> uids t" "snd (sys_setuid u t) = t\<lparr>t_uid := t_uid t, t_euid := b, t_suid := t_suid t\<rparr>"
      using setuid_unprivileged[OF ns, of u] by blast
    show ?thesis using confined_uids[OF inv b(1)] b(2) cred_setuid by simp
  next
    case (cred_setregid r e)
    then show ?thesis using setregid_effect[of r e t] confined_gids[OF inv] ns inv by (elim disjE exE conjE) simp_all
  next
    case (cred_setgid g)
    obtain b where b: "{t_gid t, b, t_sgid t} \<subseteq> gids t" "snd (sys_setgid g t) = t\<lparr>t_gid := t_gid t, t_egid := b, t_sgid := t_sgid t\<rparr>"
      using setgid_unprivileged[OF ns, of g] by blast
    show ?thesis using confined_gids[OF inv b(1)] b(2) cred_setgid by simp
  next
    case (cred_setgroups n user)
    then show ?thesis using ns inv by (simp add: sys_setgroups_def)
  next
    case (cred_setrlimit res lim)
    then show ?thesis using setrlimit_effect[OF ns, of res lim] confined_rlim[OF inv] by (elim exE conjE) simp
  next
    case (cred_umask m)
    then show ?thesis using inv by (simp add: sys_umask_def confined_def uids_def gids_def)
  qed
qed

lemma confined_refl: "confined t t"
  by (simp add: confined_def)

definition unprivileged_start :: "task_struct \<Rightarrow> task_struct \<Rightarrow> bool" where
  "unprivileged_start t0 t \<longleftrightarrow> t = t0 \<and> 0 \<notin> uids t0"

interpretation creds: invariant_system "unprivileged_start t0" cred_step
    "\<lambda>t. 0 \<notin> uids t0 \<and> confined t0 t" for t0
  by unfold_locales (auto simp: unprivileged_start_def confined_refl intro: cred_step_confined)

section \<open>Groups\<close>

lemma setgroups_fold:
  "n \<le> length gs \<Longrightarrow> fold (\<lambda>i gs. gs[i := f i]) [0..<n] gs = map f [0..<n] @ drop n gs"
proof (induction n)
  case (Suc n)
  then show ?case by (simp add: list_update_append Cons_nth_drop_Suc[symmetric])
qed simp

lemma getgroups_full:
  "\<forall>g\<in>set gs. g \<noteq> NOGROUP \<Longrightarrow> n \<noteq> 0 \<Longrightarrow> i + int (length gs) \<le> n \<Longrightarrow> rest = [] \<or> hd rest = NOGROUP \<Longrightarrow>
   getgroups_loop n i (gs @ rest) = (i + int (length gs), map word_of_int gs)"
proof (induction gs arbitrary: i)
  case Nil
  then show ?case by (cases rest) auto
qed auto

lemma group_loop_full:
  "\<forall>g\<in>set gs. g \<noteq> NOGROUP \<Longrightarrow> rest = [] \<or> hd rest = NOGROUP \<Longrightarrow>
   group_loop grp (gs @ rest) = (grp \<in> set gs)"
proof (induction gs)
  case Nil
  then show ?case by (cases rest) auto
qed auto

text \<open>What \<^verbatim>\<open>setgroups\<close> leaves: the words, ended by \<^const>\<open>NOGROUP\<close> unless the table is full.\<close>

lemma setgroups_list:
  assumes "suser t" "0 \<le> n" "n \<le> int NGROUPS" "length (t_groups t) = NGROUPS"
  shows "\<exists>rest. sys_setgroups n user t =
      (None, t\<lparr>t_groups := map (\<lambda>i. uint (user i)) [0..<nat n] @ rest\<rparr>) \<and> (rest = [] \<or> hd rest = NOGROUP)"
proof -
  let ?u = "\<lambda>i. uint (user i)"
  have f: "fold (\<lambda>i gs. gs[i := ?u i]) [0..<nat n] (t_groups t) = map ?u [0..<nat n] @ drop (nat n) (t_groups t)"
    by (rule setgroups_fold) (use assms in simp)
  show ?thesis
  proof (cases "nat n < NGROUPS")
    case True
    then show ?thesis using assms f
      by (intro exI[of _ "NOGROUP # drop (Suc (nat n)) (t_groups t)"])
         (simp add: sys_setgroups_def Let_def list_update_append Cons_nth_drop_Suc[symmetric])
  next
    case False
    then show ?thesis using assms f by (intro exI[of _ "[]"]) (simp add: sys_setgroups_def Let_def)
  qed
qed

section \<open>Properties\<close>

text \<open>
  C4. A task none of whose three user ids is root can do nothing about it: whatever sequence of
  \<^verbatim>\<open>setuid\<close>, \<^verbatim>\<open>setreuid\<close>, \<^verbatim>\<open>setgid\<close>, \<^verbatim>\<open>setregid\<close>,
  \<^verbatim>\<open>setgroups\<close>, \<^verbatim>\<open>setrlimit\<close> and \<^verbatim>\<open>umask\<close> calls it makes, its user
  and group ids stay among those it started with, its supplementary groups stay the same and none
  of its hard limits is ever above its first value.
\<close>

theorem unprivileged_confined:
  assumes "cred_step\<^sup>*\<^sup>* t0 t" "0 \<notin> uids t0"
  shows "uids t \<subseteq> uids t0 \<and> gids t \<subseteq> gids t0 \<and> t_groups t = t_groups t0 \<and>
    (\<forall>i<length (t_rlim t0). rlim_max (t_rlim t ! i) \<le> rlim_max (t_rlim t0 ! i))"
  using creds.steps_inv[OF assms(1), of t0] assms(2) by (simp add: confined_refl confined_def)

theorem unprivileged_confined_witness:
  "cred_step\<^sup>*\<^sup>* (example_user 500) (snd (sys_setreuid 500 0 (example_user 500))) \<and> 0 \<notin> uids (example_user 500) \<and>
   uids (snd (sys_setreuid 500 0 (example_user 500))) \<subseteq> {500}"
proof -
  have r: "cred_step\<^sup>*\<^sup>* (example_user 500) (snd (sys_setreuid 500 0 (example_user 500)))"
    by (rule r_into_rtranclp) (rule cred_setreuid)
  have z: "0 \<notin> uids (example_user 500)" "uids (example_user 500) = {500}"
    by (simp_all add: uids_def example_user_def)
  from unprivileged_confined[OF r z(1)] r z show ?thesis by simp
qed

text \<open>
  The effective and the real user id can be exchanged and exchanged back: two calls of
  \<^verbatim>\<open>setreuid\<close> with the two ids swapped succeed and restore both, for every task whose ids
  are not the reserved value; this is how a root program drops its privileges for a while.
\<close>

lemma setreuid_swap_back:
  assumes "t_uid t \<noteq> - 1" "t_euid t \<noteq> - 1"
    and "t1 = snd (sys_setreuid (t_euid t) (t_uid t) t)"
    and "t2 = snd (sys_setreuid (t_euid t1) (t_uid t1) t1)"
  shows "fst (sys_setreuid (t_euid t) (t_uid t) t) = None \<and> t_uid t1 = t_euid t \<and> t_euid t1 = t_uid t \<and>
    fst (sys_setreuid (t_euid t1) (t_uid t1) t1) = None \<and>
    t2 = t\<lparr>t_suid := t_euid t\<rparr>"
  using assms by (simp add: sys_setreuid_def Let_def)

theorem setreuid_swap_back_witness:
  "t_euid (snd (sys_setreuid 0 500 ((example_user 500)\<lparr>t_euid := 0\<rparr>))) = 500 \<and>
   t_euid (snd (sys_setreuid 500 0 (snd (sys_setreuid 0 500 ((example_user 500)\<lparr>t_euid := 0\<rparr>))))) = 0"
  using setreuid_swap_back[OF _ _ refl refl, of "(example_user 500)\<lparr>t_euid := 0\<rparr>"]
  by (auto simp: example_user_def)

text \<open>
  What root sets with \<^verbatim>\<open>setgroups\<close>, \<^verbatim>\<open>getgroups\<close> returns, and
  \<^verbatim>\<open>in_group_p\<close> accepts exactly those groups and the effective group.
\<close>

lemma setgroups_getgroups:
  assumes "suser t" "0 < n" "n \<le> int NGROUPS" "length (t_groups t) = NGROUPS"
    and "va VERIFY_WRITE gl (word_of_int (2 * n)) = None"
    and "t' = snd (sys_setgroups n user t)"
  shows "fst (sys_setgroups n user t) = None \<and>
    sys_getgroups va n gl t' = Inr (n, map user [0..<nat n]) \<and>
    in_group_p g t' = (g = t_egid t \<or> g \<in> user ` {0..<nat n})"
proof -
  obtain rest where r: "sys_setgroups n user t = (None, t\<lparr>t_groups := map (\<lambda>i. uint (user i)) [0..<nat n] @ rest\<rparr>)"
    "rest = [] \<or> hd rest = NOGROUP"
    using setgroups_list[of t n user] assms(1-4) by auto
  let ?gs = "map (\<lambda>i. uint (user i)) [0..<nat n]"
  have ng: "\<forall>g\<in>set ?gs. g \<noteq> NOGROUP"
  proof
    fix g assume "g \<in> set ?gs"
    then have "0 \<le> g" by auto
    then show "g \<noteq> NOGROUP" by (simp add: NOGROUP_def)
  qed
  have l: "getgroups_loop n 0 (?gs @ rest) = (0 + int (length ?gs), map word_of_int ?gs)"
    by (rule getgroups_full[OF ng _ _ r(2)]) (use assms(2) in auto)
  have m: "group_loop (uint g) (?gs @ rest) = (uint g \<in> set ?gs)" by (rule group_loop_full[OF ng r(2)])
  have "(uint g \<in> set ?gs) = (g \<in> user ` {0..<nat n})" by (auto simp: word_uint_eq_iff)
  then show ?thesis using r(1) l m assms(2,5,6)
    by (simp add: sys_getgroups_def in_group_p_def comp_def)
qed

theorem setgroups_getgroups_witness:
  "sys_getgroups (\<lambda>_ _ _. None) 2 4096 (snd (sys_setgroups 2 (\<lambda>i. if i = 0 then 7 else 9) INIT_TASK)) = Inr (2, [7, 9]) \<and>
   in_group_p 9 (snd (sys_setgroups 2 (\<lambda>i. if i = 0 then 7 else 9) INIT_TASK)) \<and>
   \<not> in_group_p 8 (snd (sys_setgroups 2 (\<lambda>i. if i = 0 then 7 else 9) INIT_TASK))"
proof -
  let ?u = "\<lambda>i::nat. if i = 0 then 7 else (9::u16)"
  have s: "suser INIT_TASK" "length (t_groups INIT_TASK) = NGROUPS" "t_egid INIT_TASK = 0"
    by (simp_all add: INIT_TASK_def suser_def NGROUPS_def)
  have "[0..<nat 2] = [0, 1]" by (simp add: upt_rec)
  moreover have "{0..<nat 2} = {0, 1}" by auto
  ultimately show ?thesis
    using setgroups_getgroups[OF s(1) _ _ s(2) _ refl, of 2 "\<lambda>_ _ _. None" 4096 ?u 9]
      setgroups_getgroups[OF s(1) _ _ s(2) _ refl, of 2 "\<lambda>_ _ _. None" 4096 ?u 8] s(3)
    by (simp add: NGROUPS_def)
qed

end
