(* ===== verification/Utsname.thy ===== *)
theory Utsname
  imports Task
begin

text \<open>
  System identification and reboot (\<^verbatim>\<open>kernel/sys.c\<close>,
  \<^verbatim>\<open>include/linux/utsname.h\<close>). A string field is the array of its bytes; an access
  outside the array is the outcome \<^const>\<open>None\<close>.
\<close>

section \<open>Data\<close>

definition OLD_UTS_LEN :: nat where
  [kconst]: "OLD_UTS_LEN = 8"

definition NEW_UTS_LEN :: int where
  [kconst]: "NEW_UTS_LEN = 64"

record new_utsname =
  sysname :: "u8 list"
  nodename :: "u8 list"
  release :: "u8 list"
  version :: "u8 list"
  machine :: "u8 list"
  domainname :: "u8 list"

definition uts_ok :: "new_utsname \<Rightarrow> bool" where
  "uts_ok u \<longleftrightarrow> (\<forall>xs\<in>{sysname u, nodename u, release u, version u, machine u, domainname u}. length xs = 65)"

section \<open>Operations\<close>

text \<open>Each returns what it stores at the user address \<open>name\<close>.\<close>

definition sys_newuname :: "va_fun \<Rightarrow> new_utsname \<Rightarrow> u32 \<Rightarrow> new_utsname res" where
  "sys_newuname va u name =
     (if name = 0 then Inl EFAULT
      else (case va VERIFY_WRITE name 390 of Some e \<Rightarrow> Inl e | None \<Rightarrow> Inr u))"

definition sys_uname :: "va_fun \<Rightarrow> new_utsname \<Rightarrow> u32 \<Rightarrow> (u8 list) list res" where
  "sys_uname va u name =
     (if name = 0 then Inl EFAULT
      else (case va VERIFY_WRITE name 325 of
              Some e \<Rightarrow> Inl e
            | None \<Rightarrow> Inr [sysname u, nodename u, release u, version u, machine u]))"

definition old_field :: "u8 list \<Rightarrow> u8 list" where
  "old_field xs = take OLD_UTS_LEN xs @ [0]"

definition sys_olduname :: "va_fun \<Rightarrow> new_utsname \<Rightarrow> u32 \<Rightarrow> (u8 list) list res" where
  "sys_olduname va u name =
     (if name = 0 then Inl EFAULT
      else (case va VERIFY_WRITE name 45 of
              Some e \<Rightarrow> Inl e
            | None \<Rightarrow> Inr [old_field (sysname u), old_field (nodename u), old_field (release u),
                          old_field (version u), old_field (machine u)]))"

text \<open>
  The loop of \<^verbatim>\<open>sethostname\<close> and \<^verbatim>\<open>setdomainname\<close>, \<open>n\<close> rounds from index
  \<open>i\<close> on; \<open>user\<close> gives the bytes at the user address.
\<close>

primrec name_loop :: "nat \<Rightarrow> (nat \<Rightarrow> u8) \<Rightarrow> nat \<Rightarrow> u8 list \<Rightarrow> u8 list option" where
  "name_loop 0 user i xs = cell_upd xs (int i) (\<lambda>_. 0)"
| "name_loop (Suc n) user i xs =
     (case cell_upd xs (int i) (\<lambda>_. user i) of
        None \<Rightarrow> None
      | Some ys \<Rightarrow> if user i = 0 then Some ys else name_loop n user (Suc i) ys)"

definition sys_sethostname ::
  "(nat \<Rightarrow> u8) \<Rightarrow> int \<Rightarrow> task_struct \<Rightarrow> new_utsname \<Rightarrow> (errno option \<times> new_utsname) option" where
  "sys_sethostname name len t u =
     (if \<not> suser t then Some (Some EPERM, u)
      else if len > NEW_UTS_LEN then Some (Some EINVAL, u)
      else map_option (\<lambda>xs. (None, u\<lparr>nodename := xs\<rparr>)) (name_loop (nat len) name 0 (nodename u)))"

definition sys_setdomainname ::
  "(nat \<Rightarrow> u8) \<Rightarrow> int \<Rightarrow> task_struct \<Rightarrow> new_utsname \<Rightarrow> (errno option \<times> new_utsname) option" where
  "sys_setdomainname name len t u =
     (if \<not> suser t then Some (Some EPERM, u)
      else if len > NEW_UTS_LEN then Some (Some EINVAL, u)
      else map_option (\<lambda>xs. (None, u\<lparr>domainname := xs\<rparr>)) (name_loop (nat len) name 0 (domainname u)))"

text \<open>\<open>HardReset\<close> stands for the call of \<^verbatim>\<open>hard_reset_now\<close>, which does not return.\<close>

datatype reboot_out = RebootRet "errno option" int | HardReset | SignalInit

definition sys_reboot :: "u32 \<Rightarrow> u32 \<Rightarrow> u32 \<Rightarrow> task_struct \<Rightarrow> int \<Rightarrow> reboot_out" where
  "sys_reboot magic magic_too flag t C_A_D =
     (if \<not> suser t then RebootRet (Some EPERM) C_A_D
      else if magic \<noteq> 0xfee1dead \<or> magic_too \<noteq> 672274793 then RebootRet (Some EINVAL) C_A_D
      else if flag = 0x01234567 then HardReset
      else if flag = 0x89ABCDEF then RebootRet None 1
      else if flag = 0 then RebootRet None 0
      else RebootRet (Some EINVAL) C_A_D)"

text \<open>\<open>SignalInit\<close> is the \<^verbatim>\<open>SIGINT\<close> sent to \<^verbatim>\<open>task[1]\<close>.\<close>

definition ctrl_alt_del :: "int \<Rightarrow> reboot_out" where
  "ctrl_alt_del C_A_D = (if C_A_D \<noteq> 0 then HardReset else SignalInit)"

section \<open>Strings\<close>

definition cstr :: "u8 list \<Rightarrow> u8 list" where
  "cstr xs = takeWhile (\<lambda>b. b \<noteq> 0) xs"

lemma name_loop_ok:
  assumes "length xs = 65" "i + n \<le> 64" "cstr (take i xs) = take i xs"
  shows "\<exists>ys. name_loop n user i xs = Some ys \<and> length ys = 65 \<and>
    cstr ys = take i xs @ cstr (map user [i..<i + n]) \<and> 0 \<in> set ys"
  using assms
proof (induction n arbitrary: i xs)
  case 0
  have "cstr (xs[i := 0]) = cstr (take i xs @ 0 # drop (Suc i) xs)"
    using 0 by (simp add: upd_conv_take_nth_drop)
  also have "\<dots> = take i xs" using 0(3) unfolding cstr_def takeWhile_eq_all_conv
    by (subst takeWhile_append2) auto
  finally show ?case using 0 set_update_memI[of i xs 0] by (simp add: cstr_def)
next
  case (Suc n)
  let ?ys = "xs[i := user i]"
  have tk: "take (Suc i) ?ys = take i xs @ [user i]"
    using Suc.prems by (simp add: take_Suc_conv_app_nth)
  have up: "[i..<i + Suc n] = i # [Suc i..<Suc i + n]" by (simp add: upt_rec)
  show ?case
  proof (cases "user i = 0")
    case True
    have "cstr ?ys = cstr (take i xs @ 0 # drop (Suc i) xs)"
      using Suc.prems True by (simp add: upd_conv_take_nth_drop)
    also have "\<dots> = take i xs" using Suc.prems(3) unfolding cstr_def takeWhile_eq_all_conv
      by (subst takeWhile_append2) auto
    finally show ?thesis using Suc.prems True up set_update_memI[of i xs 0] by (simp add: cstr_def del: upt_Suc)
  next
    case False
    have c: "cstr (take (Suc i) ?ys) = take (Suc i) ?ys"
      unfolding tk using Suc.prems(3) False unfolding cstr_def takeWhile_eq_all_conv by auto
    from Suc.IH[OF _ _ c] Suc.prems obtain zs where
      "name_loop n user (Suc i) ?ys = Some zs" "length zs = 65"
      "cstr zs = (take i xs @ [user i]) @ cstr (map user [Suc i..<Suc i + n])" "0 \<in> set zs"
      unfolding tk by auto
    then show ?thesis using Suc.prems False up by (simp add: cstr_def del: upt_Suc)
  qed
qed

section \<open>Properties\<close>

text \<open>
  \<^verbatim>\<open>sethostname\<close> by root with an accepted length, negative ones included, stays inside
  the array, leaves it ended by a zero byte and holding the bytes the caller passed up to the first
  zero; no other field changes, and \<^verbatim>\<open>uname\<close> then returns that name.
\<close>

lemma sethostname_uname:
  assumes "suser t" "len \<le> NEW_UTS_LEN" "length (nodename u) = 65"
    and "name \<noteq> 0" "va VERIFY_WRITE name 390 = None"
  shows "\<exists>xs. sys_sethostname user len t u = Some (None, u\<lparr>nodename := xs\<rparr>) \<and> length xs = 65 \<and> 0 \<in> set xs \<and>
    cstr xs = cstr (map user [0..<nat len]) \<and>
    sys_newuname va (u\<lparr>nodename := xs\<rparr>) name = Inr (u\<lparr>nodename := xs\<rparr>)"
proof -
  have "nat len \<le> 64" using assms(2) by (simp add: NEW_UTS_LEN_def)
  then obtain xs where "name_loop (nat len) user 0 (nodename u) = Some xs" "length xs = 65" "0 \<in> set xs"
    "cstr xs = cstr (map user [0..<nat len])"
    using name_loop_ok[of "nodename u" 0 "nat len" user] assms(3) by (auto simp: cstr_def)
  then show ?thesis using assms by (intro exI[of _ xs]) (simp add: sys_sethostname_def sys_newuname_def)
qed

theorem sethostname_uname_witness:
  "\<exists>xs. sys_sethostname (\<lambda>i. if i = 0 then 120 else 0) 5 INIT_TASK
       \<lparr>sysname = [], nodename = replicate 65 1, release = [], version = [], machine = [], domainname = []\<rparr> =
     Some (None, \<lparr>sysname = [], nodename = xs, release = [], version = [], machine = [], domainname = []\<rparr>) \<and>
     cstr xs = [120]"
proof -
  let ?u = "\<lparr>sysname = [], nodename = replicate 65 1, release = [], version = [], machine = [], domainname = []\<rparr>"
  let ?f = "\<lambda>i::nat. if i = 0 then 120 else (0::u8)"
  have "suser INIT_TASK" by (simp add: suser_def INIT_TASK_def)
  moreover have "cstr (map ?f [0..<nat 5]) = [120]" by (simp add: cstr_def upt_rec)
  ultimately show ?thesis
    using sethostname_uname[of INIT_TASK 5 ?u 4096 "\<lambda>_ _ _. None" ?f] by (auto simp: NEW_UTS_LEN_def)
qed

end
