(* ===== verification/Sys_Proc.thy ===== *)
theory Sys_Proc
  imports Sys_Cred
begin

text \<open>
  Priorities, process groups and sessions (\<^verbatim>\<open>kernel/sys.c\<close>), on the whole process
  table.
\<close>

section \<open>Priorities\<close>

definition PZERO :: int where
  [kconst]: "PZERO = 15"

abbreviation (input) "PRIO_PROCESS \<equiv> (0 :: int)"
abbreviation (input) "PRIO_PGRP \<equiv> (1 :: int)"
abbreviation (input) "PRIO_USER \<equiv> (2 :: int)"

text \<open>\<open>p\<close> is the slot of the task asked about.\<close>

definition proc_sel :: "kstate \<Rightarrow> nat \<Rightarrow> int \<Rightarrow> int \<Rightarrow> bool" where
  "proc_sel k p which who =
     (if which = PRIO_PROCESS then (if who = 0 \<and> p = k_current k then True else t_pid (the_task k p) = who)
      else if which = PRIO_PGRP
        then t_pgrp (the_task k p) = (if who = 0 then t_pgrp (current k) else who)
      else if which = PRIO_USER
        then uint (t_uid (the_task k p)) = (if who = 0 then uint (t_uid (current k)) else who)
      else False)"

text \<open>One round of the loop of \<^verbatim>\<open>setpriority\<close> for slot \<open>p\<close>; \<^const>\<open>None\<close> is the value 0 of \<^verbatim>\<open>error\<close>.\<close>

definition setprio_round ::
  "int \<Rightarrow> int \<Rightarrow> int \<Rightarrow> nat \<Rightarrow> errno option \<times> kstate \<Rightarrow> errno option \<times> kstate" where
  "setprio_round which who priority p s =
     (case s of (error, k) \<Rightarrow>
        if k_task k p = None \<or> \<not> proc_sel k p which who then (error, k)
        else
          let t = the_task k p in
          if t_uid t \<noteq> t_euid (current k) \<and> t_uid t \<noteq> t_uid (current k) \<and> \<not> suser (current k)
          then (Some EPERM, k)
          else
            let error1 = (if error = Some ESRCH then None else error)
            in if priority > t_priority t \<and> \<not> suser (current k) then (Some EACCES, k)
               else (error1, put_task p (t\<lparr>t_priority := priority\<rparr>) k))"

text \<open>From \<^verbatim>\<open>LAST_TASK\<close> down to the slot after \<^verbatim>\<open>FIRST_TASK\<close>.\<close>

definition scan_slots :: "nat list" where
  "scan_slots = rev [1..<NR_TASKS]"

definition sys_setpriority :: "int \<Rightarrow> int \<Rightarrow> int \<Rightarrow> kstate \<Rightarrow> errno option \<times> kstate" where
  "sys_setpriority which who niceval k =
     (if which > 2 \<or> which < 0 then (Some EINVAL, k)
      else
        let pr = wrap32 (PZERO - niceval);
            priority = (if pr \<le> 0 then 1 else pr)
        in fold (setprio_round which who priority) scan_slots (Some ESRCH, k))"

definition getprio_round :: "kstate \<Rightarrow> int \<Rightarrow> int \<Rightarrow> nat \<Rightarrow> int \<Rightarrow> int" where
  "getprio_round k which who p max_prio =
     (if k_task k p = None \<or> \<not> proc_sel k p which who then max_prio
      else if t_priority (the_task k p) > max_prio then t_priority (the_task k p)
      else max_prio)"

definition sys_getpriority :: "int \<Rightarrow> int \<Rightarrow> kstate \<Rightarrow> int res" where
  "sys_getpriority which who k =
     (if which > 2 \<or> which < 0 then Inl EINVAL
      else
        let max_prio = fold (getprio_round k which who) scan_slots 0
        in if max_prio \<noteq> 0 then Inr max_prio else Inl ESRCH)"

section \<open>Process groups and sessions\<close>

text \<open>\<^verbatim>\<open>for_each_task\<close> as a search in the ring.\<close>

definition find_task :: "kstate \<Rightarrow> (nat \<Rightarrow> bool) \<Rightarrow> nat option" where
  "find_task k P = find P (k_ring k)"

definition sys_setpgid :: "int \<Rightarrow> int \<Rightarrow> kstate \<Rightarrow> errno option \<times> kstate" where
  "sys_setpgid pid0 pgid0 k =
     (let cur = current k;
          pid = (if pid0 = 0 then t_pid cur else pid0);
          pgid = (if pgid0 = 0 then pid else pgid0)
      in if pgid < 0 then (Some EINVAL, k)
         else (case find_task k (\<lambda>p. t_pid (the_task k p) = pid) of
            None \<Rightarrow> (Some ESRCH, k)
          | Some p \<Rightarrow>
              let t = the_task k p;
                  child = (t_p_pptr t = k_current k \<or> t_p_opptr t = k_current k)
              in if child \<and> t_session t \<noteq> t_session cur then (Some EPERM, k)
                 else if child \<and> t_did_exec t then (Some EACCES, k)
                 else if \<not> child \<and> p \<noteq> k_current k then (Some ESRCH, k)
                 else if t_leader t then (Some EPERM, k)
                 else if pgid \<noteq> pid \<and>
                         find_task k (\<lambda>q. t_pgrp (the_task k q) = pgid \<and> t_session (the_task k q) = t_session cur) = None
                   then (Some EPERM, k)
                 else (None, put_task p (t\<lparr>t_pgrp := pgid\<rparr>) k)))"

definition sys_getpgid :: "int \<Rightarrow> kstate \<Rightarrow> int res" where
  "sys_getpgid pid k =
     (if pid = 0 then Inr (t_pgrp (current k))
      else (case find_task k (\<lambda>p. t_pid (the_task k p) = pid) of
              None \<Rightarrow> Inl ESRCH
            | Some p \<Rightarrow> Inr (t_pgrp (the_task k p))))"

definition sys_getpgrp :: "kstate \<Rightarrow> int" where
  "sys_getpgrp k = t_pgrp (current k)"

definition sys_setsid :: "kstate \<Rightarrow> int res \<times> kstate" where
  "sys_setsid k =
     (let t = current k in
      if t_leader t then (Inl EPERM, k)
      else (Inr (t_pid t), put_current (t\<lparr>t_leader := True, t_session := t_pid t, t_pgrp := t_pid t, t_tty := - 1\<rparr>) k))"

section \<open>What setpriority does\<close>

text \<open>The tasks a call selects, those of them it may touch, and those it may not raise.\<close>

definition selected :: "kstate \<Rightarrow> int \<Rightarrow> int \<Rightarrow> nat \<Rightarrow> bool" where
  "selected k which who p \<longleftrightarrow> k_task k p \<noteq> None \<and> proc_sel k p which who"

definition touchable :: "kstate \<Rightarrow> nat \<Rightarrow> bool" where
  "touchable k p \<longleftrightarrow> t_uid (the_task k p) = t_euid (current k) \<or> t_uid (the_task k p) = t_uid (current k) \<or> suser (current k)"

definition raised :: "kstate \<Rightarrow> int \<Rightarrow> nat \<Rightarrow> bool" where
  "raised k pr p \<longleftrightarrow> pr > t_priority (the_task k p) \<and> \<not> suser (current k)"

definition granted :: "kstate \<Rightarrow> int \<Rightarrow> int \<Rightarrow> int \<Rightarrow> nat \<Rightarrow> bool" where
  "granted k which who pr p \<longleftrightarrow> selected k which who p \<and> touchable k p \<and> \<not> raised k pr p"

definition with_prio :: "kstate \<Rightarrow> int \<Rightarrow> nat \<Rightarrow> kstate" where
  "with_prio k pr p = put_task p ((the_task k p)\<lparr>t_priority := pr\<rparr>) k"

lemma with_prio_current [simp]:
  "t_uid (current (with_prio k pr p)) = t_uid (current k)" "t_euid (current (with_prio k pr p)) = t_euid (current k)"
  "t_pgrp (current (with_prio k pr p)) = t_pgrp (current k)" "suser (current (with_prio k pr p)) = suser (current k)"
  "k_current (with_prio k pr p) = k_current k" "k_ring (with_prio k pr p) = k_ring k"
  by (simp_all add: with_prio_def current_def suser_def)

lemma with_prio_task [simp]:
  "t_uid (the_task (with_prio k pr p) q) = t_uid (the_task k q)" "t_pid (the_task (with_prio k pr p) q) = t_pid (the_task k q)"
  "t_pgrp (the_task (with_prio k pr p) q) = t_pgrp (the_task k q)"
  "q \<noteq> p \<Longrightarrow> the_task (with_prio k pr p) q = the_task k q"
  "t_priority (the_task (with_prio k pr p) p) = pr"
  by (simp_all add: with_prio_def)

lemma with_prio_k_task:
  "k_task (with_prio k pr p) q = (if q = p then Some ((the_task k p)\<lparr>t_priority := pr\<rparr>) else k_task k q)"
  by (simp add: with_prio_def)

lemma with_prio_sel [simp]:
  "proc_sel (with_prio k pr p) q which who = proc_sel k q which who"
  "touchable (with_prio k pr p) q = touchable k q"
  by (simp_all add: proc_sel_def touchable_def)

lemma with_prio_selected [simp]:
  "k_task k p \<noteq> None \<Longrightarrow> selected (with_prio k pr p) which who q = selected k which who q"
  by (auto simp: selected_def with_prio_k_task)

lemma with_prio_granted:
  "k_task k p \<noteq> None \<Longrightarrow> q \<noteq> p \<Longrightarrow> granted (with_prio k pr p) which who pr q = granted k which who pr q"
  by (simp add: granted_def raised_def)

lemma setprio_round_eq:
  "setprio_round which who pr p (e, k) =
     (if \<not> selected k which who p then (e, k)
      else if \<not> touchable k p then (Some EPERM, k)
      else if raised k pr p then (Some EACCES, k)
      else (if e = Some ESRCH then None else e, with_prio k pr p))"
  by (auto simp: setprio_round_def selected_def touchable_def raised_def with_prio_def Let_def)

lemma setprio_round_denied:
  assumes "\<not> granted k which who pr p"
  shows "\<exists>e1. setprio_round which who pr p (e, k) = (e1, k) \<and>
    (selected k which who p \<longrightarrow> e1 = Some EPERM \<or> e1 = Some EACCES) \<and> (\<not> selected k which who p \<longrightarrow> e1 = e)"
  using assms unfolding setprio_round_eq granted_def
  by (cases "selected k which who p"; cases "touchable k p") simp_all

text \<open>The loop, by induction on the slots still to come.\<close>

lemma setprio_fold:
  assumes "distinct ps" "fold (setprio_round which who pr) ps (e, k) = (e', k')"
  shows "(\<forall>q. k_task k' q = (if q \<in> set ps \<and> granted k which who pr q
                then Some ((the_task k q)\<lparr>t_priority := pr\<rparr>) else k_task k q)) \<and>
    k_current k' = k_current k \<and> k_ring k' = k_ring k"
  using assms
proof (induction ps arbitrary: e k)
  case (Cons p ps)
  show ?case
  proof (cases "granted k which who pr p")
    case True
    then have r: "setprio_round which who pr p (e, k) = (if e = Some ESRCH then None else e, with_prio k pr p)"
      by (simp add: setprio_round_eq granted_def)
    have kp: "k_task k p \<noteq> None" using True by (simp add: granted_def selected_def)
    have "fold (setprio_round which who pr) ps (if e = Some ESRCH then None else e, with_prio k pr p) = (e', k')"
      using Cons.prems(2) r by simp
    from Cons.IH[OF _ this] have IH: "\<forall>q. k_task k' q = (if q \<in> set ps \<and> granted (with_prio k pr p) which who pr q
        then Some ((the_task (with_prio k pr p) q)\<lparr>t_priority := pr\<rparr>) else k_task (with_prio k pr p) q)"
      "k_current k' = k_current k \<and> k_ring k' = k_ring k" using Cons.prems(1) by simp_all
    have "k_task k' q = (if q \<in> set (p # ps) \<and> granted k which who pr q
        then Some ((the_task k q)\<lparr>t_priority := pr\<rparr>) else k_task k q)" for q
      using IH(1) Cons.prems(1) True with_prio_granted[OF kp, of q pr which who]
      by (cases "q = p") (simp_all add: with_prio_k_task)
    then show ?thesis using IH(2) by blast
  next
    case False
    then obtain e1 where "setprio_round which who pr p (e, k) = (e1, k)"
      using setprio_round_denied by blast
    then have "fold (setprio_round which who pr) ps (e1, k) = (e', k')" using Cons.prems(2) by simp
    from Cons.IH[OF _ this] show ?thesis using Cons.prems(1) False by auto
  qed
qed auto

lemma setprio_err:
  assumes "distinct ps" "fold (setprio_round which who pr) ps (e, k) = (e', k')"
  shows "(e' = None) = ((e = None \<or> e = Some ESRCH \<and> (\<exists>q\<in>set ps. selected k which who q)) \<and>
            (\<forall>q\<in>set ps. selected k which who q \<longrightarrow> granted k which who pr q)) \<and>
         (e' = Some ESRCH) = (e = Some ESRCH \<and> (\<forall>q\<in>set ps. \<not> selected k which who q))"
  using assms
proof (induction ps arbitrary: e k)
  case (Cons p ps)
  show ?case
  proof (cases "granted k which who pr p")
    case True
    then have r: "setprio_round which who pr p (e, k) = (if e = Some ESRCH then None else e, with_prio k pr p)"
      by (simp add: setprio_round_eq granted_def)
    have kp: "k_task k p \<noteq> None" "selected k which who p" using True by (simp_all add: granted_def selected_def)
    have "fold (setprio_round which who pr) ps (if e = Some ESRCH then None else e, with_prio k pr p) = (e', k')"
      using Cons.prems(2) r by simp
    note IH = Cons.IH[OF _ this]
    have g: "q \<in> set ps \<Longrightarrow> granted (with_prio k pr p) which who pr q = granted k which who pr q" for q
      using with_prio_granted[OF kp(1), of q pr which who] Cons.prems(1) by auto
    show ?thesis using IH Cons.prems(1) True kp g by auto
  next
    case False
    then obtain e1 where e1: "setprio_round which who pr p (e, k) = (e1, k)"
      "selected k which who p \<longrightarrow> e1 = Some EPERM \<or> e1 = Some EACCES" "\<not> selected k which who p \<longrightarrow> e1 = e"
      using setprio_round_denied by blast
    then have "fold (setprio_round which who pr) ps (e1, k) = (e', k')" using Cons.prems(2) by simp
    from Cons.IH[OF _ this] show ?thesis using Cons.prems(1) False e1(2,3) by auto
  qed
qed auto

lemma scan_slots_simps [simp]: "set scan_slots = {1..<NR_TASKS}" "distinct scan_slots"
  by (simp_all add: scan_slots_def)

lemma getprio_fold:
  assumes "\<And>q. q \<in> set ps \<Longrightarrow> selected k which who q \<Longrightarrow> t_priority (the_task k q) = pr" "m \<le> pr"
  shows "fold (getprio_round k which who) ps m =
    (if \<exists>q\<in>set ps. selected k which who q then pr else m)"
  using assms
proof (induction ps arbitrary: m)
  case (Cons p ps)
  have "getprio_round k which who p m = (if selected k which who p then pr else m)"
    using Cons.prems by (auto simp: getprio_round_def selected_def)
  then show ?case using Cons by auto
qed simp

section \<open>Sessions\<close>

definition leaders_ok :: "kstate \<Rightarrow> bool" where
  "leaders_ok k \<longleftrightarrow> (\<forall>i t. k_task k i = Some t \<longrightarrow> t_leader t \<longrightarrow> t_session t = t_pid t \<and> t_pgrp t = t_pid t)"

inductive session_step :: "kstate \<Rightarrow> kstate \<Rightarrow> bool" where
  session_setpgid: "session_step k (snd (sys_setpgid pid pgid k))"
| session_setsid: "session_step k (snd (sys_setsid k))"
| session_switch: "k_task k i \<noteq> None \<Longrightarrow> session_step k (k\<lparr>k_current := i\<rparr>)"

lemma setpgid_effect:
  "snd (sys_setpgid pid pgid k) = k \<or>
   (\<exists>p\<in>set (k_ring k). \<not> t_leader (the_task k p) \<and>
      snd (sys_setpgid pid pgid k) = put_task p ((the_task k p)\<lparr>t_pgrp := if pgid = 0 then (if pid = 0 then t_pid (current k) else pid) else pgid\<rparr>) k)"
proof -
  define pd where "pd = (if pid = 0 then t_pid (current k) else pid)"
  define pg where "pg = (if pgid = 0 then pd else pgid)"
  note def = sys_setpgid_def[of pid pgid k, unfolded Let_def, folded pd_def, folded pg_def]
  show ?thesis
  proof (cases "find_task k (\<lambda>p. t_pid (the_task k p) = pd)")
    case None
    then show ?thesis unfolding def by simp
  next
    case (Some p)
    then have p: "p \<in> set (k_ring k)" by (auto simp: find_task_def find_Some_iff)
    have "snd (sys_setpgid pid pgid k) = k \<or>
      \<not> t_leader (the_task k p) \<and> snd (sys_setpgid pid pgid k) = put_task p ((the_task k p)\<lparr>t_pgrp := pg\<rparr>) k"
      unfolding def Some by simp
    then show ?thesis using p unfolding pg_def pd_def by blast
  qed
qed

lemma leaders_ok_put:
  assumes "leaders_ok k" "t_leader t \<longrightarrow> t_session t = t_pid t \<and> t_pgrp t = t_pid t"
  shows "leaders_ok (put_task i t k)"
  using assms unfolding leaders_ok_def by simp

lemma session_step_leaders:
  assumes "leaders_ok k" "session_step k k'"
  shows "leaders_ok k'"
  using assms(2)
proof cases
  case (session_setpgid pid pgid)
  then show ?thesis using setpgid_effect[of pid pgid k] assms(1) by (elim disjE bexE conjE) (simp_all add: leaders_ok_put)
next
  case session_setsid
  then show ?thesis using assms(1) by (simp add: sys_setsid_def Let_def put_current_def leaders_ok_put)
next
  case (session_switch i)
  then show ?thesis using assms(1) by (simp add: leaders_ok_def)
qed

interpretation sessions: invariant_system leaders_ok session_step leaders_ok
  by unfold_locales (auto intro: session_step_leaders)

section \<open>Properties\<close>

definition clamped_prio :: "int \<Rightarrow> int" where
  "clamped_prio niceval = (if wrap32 (PZERO - niceval) \<le> 0 then 1 else wrap32 (PZERO - niceval))"

text \<open>A table with an ordinary task in slot 1 (pid 10) and a root task in slot 2 (pid 20).\<close>

definition example_table :: "nat \<Rightarrow> kstate" where
  "example_table cur = \<lparr>k_task = (\<lambda>_. None)(0 \<mapsto> INIT_TASK,
       1 \<mapsto> (example_user 500)\<lparr>t_pid := 10, t_pgrp := 10, t_session := 10, t_leader := True\<rparr>,
       2 \<mapsto> INIT_TASK\<lparr>t_pid := 20, t_pgrp := 20, t_session := 20\<rparr>),
     k_ring = [1, 2], k_current = cur, k_woken = []\<rparr>"

text \<open>
  C39. \<^verbatim>\<open>setpriority\<close> is exact: in the slots above 0 it sets the priority, at least 1, of
  precisely those selected tasks that the caller may touch and that it does not raise without being
  root; nothing else of the table changes. It returns 0 exactly when some task is selected and every
  selected one is granted, and \<^verbatim>\<open>ESRCH\<close> exactly when none is selected.
\<close>

theorem setpriority_exact:
  assumes "0 \<le> which" "which \<le> 2" "sys_setpriority which who niceval k = (e, k')"
  shows "(\<forall>p. k_task k' p =
      (if 1 \<le> p \<and> p < NR_TASKS \<and> granted k which who (clamped_prio niceval) p
       then Some ((the_task k p)\<lparr>t_priority := clamped_prio niceval\<rparr>) else k_task k p)) \<and>
    1 \<le> clamped_prio niceval \<and>
    (e = None \<longleftrightarrow> (\<exists>p. 1 \<le> p \<and> p < NR_TASKS \<and> selected k which who p) \<and>
       (\<forall>p. 1 \<le> p \<and> p < NR_TASKS \<and> selected k which who p \<longrightarrow> granted k which who (clamped_prio niceval) p)) \<and>
    (e = Some ESRCH \<longleftrightarrow> \<not> (\<exists>p. 1 \<le> p \<and> p < NR_TASKS \<and> selected k which who p))"
proof -
  have f: "fold (setprio_round which who (clamped_prio niceval)) scan_slots (Some ESRCH, k) = (e, k')"
    using assms by (simp add: sys_setpriority_def clamped_prio_def Let_def split: if_splits)
  have ex: "(\<exists>q\<in>set scan_slots. P q) = (\<exists>p. 1 \<le> p \<and> p < NR_TASKS \<and> P p)"
    "(\<forall>q\<in>set scan_slots. P q) = (\<forall>p. 1 \<le> p \<and> p < NR_TASKS \<longrightarrow> P p)" for P by auto
  show ?thesis
    using setprio_fold[OF _ f] setprio_err[OF _ f] unfolding ex by (auto simp: clamped_prio_def)
qed

theorem setpriority_exact_witness:
  "fst (sys_setpriority 0 20 0 (example_table 1)) \<noteq> None \<and>
   k_task (snd (sys_setpriority 0 20 0 (example_table 1))) 2 = k_task (example_table 1) 2"
proof -
  let ?k = "example_table 1"
  have s: "selected ?k 0 20 2" "\<not> touchable ?k 2"
    by (simp_all add: selected_def proc_sel_def touchable_def the_task_def current_def suser_def
        example_table_def example_user_def INIT_TASK_def)
  then have ng: "\<not> granted ?k 0 20 pr 2" for pr by (simp add: granted_def)
  obtain e k' where ek: "sys_setpriority 0 20 0 ?k = (e, k')" by (cases "sys_setpriority 0 20 0 ?k")
  note w = setpriority_exact[OF _ _ ek, simplified, THEN conjunct1, THEN spec, of 2]
    setpriority_exact[OF _ _ ek, simplified, THEN conjunct2, THEN conjunct2, THEN conjunct1]
  have "k_task k' 2 = k_task ?k 2" using w(1) ng by simp
  moreover have "e \<noteq> None"
  proof
    assume "e = None"
    then have "\<forall>p. Suc 0 \<le> p \<and> p < NR_TASKS \<and> selected ?k 0 20 p \<longrightarrow> granted ?k 0 20 (clamped_prio 0) p"
      using w(2) by simp
    from this[THEN spec, of 2] show False using s(1) ng[of "clamped_prio 0"] by (simp add: NR_TASKS_def)
  qed
  ultimately show ?thesis using ek by simp
qed

text \<open>
  What root sets, \<^verbatim>\<open>getpriority\<close> returns: after a call of \<^verbatim>\<open>setpriority\<close>
  by root that selects at least one task, \<^verbatim>\<open>getpriority\<close> with the same selection gives
  the priority set.
\<close>

lemma setpriority_getpriority:
  assumes "0 \<le> which" "which \<le> 2" "suser (current k)"
    and "\<exists>p. 1 \<le> p \<and> p < NR_TASKS \<and> selected k which who p"
  shows "fst (sys_setpriority which who niceval k) = None \<and>
    sys_getpriority which who (snd (sys_setpriority which who niceval k)) = Inr (clamped_prio niceval)"
proof -
  let ?pr = "clamped_prio niceval"
  obtain e k' where f: "fold (setprio_round which who ?pr) scan_slots (Some ESRCH, k) = (e, k')" by fastforce
  then have set: "sys_setpriority which who niceval k = (e, k')"
    using assms(1,2) by (simp add: sys_setpriority_def clamped_prio_def Let_def)
  have g: "selected k which who q \<Longrightarrow> granted k which who ?pr q" for q
    using assms(3) by (simp add: granted_def touchable_def raised_def)
  note kt = setprio_fold[OF scan_slots_simps(2) f]
  have e: "e = None" using setprio_err[OF scan_slots_simps(2) f] assms(4) g by auto
  have tk: "the_task k' q = (if q \<in> {1..<NR_TASKS} \<and> granted k which who ?pr q
      then (the_task k q)\<lparr>t_priority := ?pr\<rparr> else the_task k q)" for q
    using kt by (simp add: the_task_def)
  have cur: "t_pgrp (current k') = t_pgrp (current k)" "t_uid (current k') = t_uid (current k)"
    using tk[of "k_current k"] kt by (simp_all add: current_def)
  have same: "t_pid (the_task k' q) = t_pid (the_task k q)" "t_pgrp (the_task k' q) = t_pgrp (the_task k q)"
    "t_uid (the_task k' q) = t_uid (the_task k q)" for q
    using tk[of q] by simp_all
  have none: "(k_task k' q = None) = (k_task k q = None)" for q
    using kt by (simp add: granted_def selected_def)
  have "proc_sel k' q which who = proc_sel k q which who" for q
    using kt by (simp add: proc_sel_def same cur)
  then have sel: "selected k' which who q = selected k which who q" for q
    unfolding selected_def none by simp
  have pr: "t_priority (the_task k' q) = ?pr" if "q \<in> set scan_slots" "selected k' which who q" for q
    using tk[of q] that sel g by simp
  have "1 \<le> ?pr" by (simp add: clamped_prio_def)
  then have "fold (getprio_round k' which who) scan_slots 0 = ?pr" "?pr \<noteq> 0"
    using getprio_fold[of scan_slots k' which who ?pr 0] pr assms(4) sel by auto
  then show ?thesis using set e assms(1,2) by (simp add: sys_getpriority_def Let_def)
qed

theorem setpriority_getpriority_witness:
  "sys_getpriority 0 10 (snd (sys_setpriority 0 10 (- 5) (example_table 2))) = Inr 20"
proof -
  let ?k = "example_table 2"
  have s: "selected ?k 0 10 1" "suser (current ?k)"
    by (simp_all add: selected_def proc_sel_def the_task_def current_def suser_def
        example_table_def example_user_def INIT_TASK_def)
  have "clamped_prio (- 5) = 20" by (simp add: clamped_prio_def PZERO_def wrap32_def)
  moreover have "\<exists>p. 1 \<le> p \<and> p < NR_TASKS \<and> selected ?k 0 10 p" using s(1) by (auto simp: NR_TASKS_def)
  ultimately show ?thesis using setpriority_getpriority[of 0 ?k 10 "- 5"] s(2) by simp
qed

text \<open>
  C22. A session leader is the leader of its own process group and session, in every state that
  \<^verbatim>\<open>setpgid\<close>, \<^verbatim>\<open>setsid\<close> and task switches reach from one in which it holds: in
  particular \<^verbatim>\<open>setpgid\<close> never moves a session leader to another group.
\<close>

theorem session_leaders_stay:
  assumes "session_step\<^sup>*\<^sup>* k k'" "leaders_ok k" "k_task k' i = Some t" "t_leader t"
  shows "t_session t = t_pid t \<and> t_pgrp t = t_pid t"
  using sessions.steps_inv[OF assms(1,2)] assms(3,4) by (auto simp: leaders_ok_def)

theorem session_leaders_stay_witness:
  "\<exists>t. k_task (snd (sys_setpgid 10 20 (example_table 1))) 1 = Some t \<and> t_pgrp t = 10"
proof -
  let ?k = "example_table 1"
  let ?k' = "snd (sys_setpgid 10 20 ?k)"
  have l: "leaders_ok ?k" by (simp add: leaders_ok_def example_table_def example_user_def INIT_TASK_def)
  have r: "session_step\<^sup>*\<^sup>* ?k ?k'" by (rule r_into_rtranclp) (rule session_setpgid)
  have k': "?k' = ?k"
    by (simp add: sys_setpgid_def Let_def find_task_def the_task_def current_def example_table_def
        example_user_def INIT_TASK_def)
  obtain t where t: "k_task ?k' 1 = Some t" "t_leader t" "t_pid t = 10"
    unfolding k' by (simp add: example_table_def)
  from session_leaders_stay[OF r l t(1,2)] t show ?thesis by auto
qed

end
