(* ===== verification/Signal.thy ===== *)
theory Signal
  imports Sys_Proc
begin

text \<open>
  Signals: masks and actions of a task (\<^verbatim>\<open>kernel/signal.c\<close>) and the sending of signals to
  tasks, groups and sessions (\<^verbatim>\<open>kernel/exit.c\<close>). Signal \<open>n\<close> is bit \<open>n - 1\<close> of a set.
\<close>

section \<open>Numbers\<close>

abbreviation (input) "SIGHUP \<equiv> (1 :: u32)"
abbreviation (input) "SIGINT \<equiv> (2 :: u32)"
abbreviation (input) "SIGKILL \<equiv> (9 :: u32)"
abbreviation (input) "SIGSEGV \<equiv> (11 :: u32)"
abbreviation (input) "SIGCHLD \<equiv> (17 :: u32)"
abbreviation (input) "SIGCONT \<equiv> (18 :: u32)"
abbreviation (input) "SIGSTOP \<equiv> (19 :: u32)"
abbreviation (input) "SIGTSTP \<equiv> (20 :: u32)"
abbreviation (input) "SIGTTIN \<equiv> (21 :: u32)"
abbreviation (input) "SIGTTOU \<equiv> (22 :: u32)"
abbreviation (input) "SIGWINCH \<equiv> (28 :: u32)"

abbreviation (input) "SIG_DFL \<equiv> (0 :: u32)"
abbreviation (input) "SIG_IGN \<equiv> (1 :: u32)"

definition SA_NOMASK :: u32 where [kconst]: "SA_NOMASK = 0x40000000"
definition SA_ONESHOT :: u32 where [kconst]: "SA_ONESHOT = 0x80000000"
definition PF_PTRACED :: u32 where [kconst]: "PF_PTRACED = 0x10"

text \<open>\<^verbatim>\<open>_S(nr)\<close> and \<^verbatim>\<open>_BLOCKABLE\<close>.\<close>

definition S_bit :: "u32 \<Rightarrow> u32" where
  "S_bit nr = shl32 1 (uint nr - 1)"

definition BLOCKABLE :: u32 where
  "BLOCKABLE = NOT (S_bit SIGKILL OR S_bit SIGSTOP)"

section \<open>The mask of blocked signals\<close>

text \<open>
  \<open>newset\<close> is the word at the address \<open>uset\<close>. The result holds the error, the task and the word
  stored at \<open>oset\<close>. A failing check of \<open>oset\<close> comes after the change of the mask.
\<close>

definition sys_sigprocmask ::
  "va_fun \<Rightarrow> int \<Rightarrow> u32 \<Rightarrow> u32 \<Rightarrow> u32 \<Rightarrow> task_struct \<Rightarrow> errno option \<times> task_struct \<times> u32 option" where
  "sys_sigprocmask va how uset newset oset t =
     (let old_set = t_blocked t;
          new_set = newset AND BLOCKABLE;
          step = (if uset \<noteq> 0
                  then (case va VERIFY_READ uset 4 of
                          Some e \<Rightarrow> Inl e
                        | None \<Rightarrow>
                            if how = 0 then Inr (t\<lparr>t_blocked := t_blocked t OR new_set\<rparr>)
                            else if how = 1 then Inr (t\<lparr>t_blocked := t_blocked t AND NOT new_set\<rparr>)
                            else if how = 2 then Inr (t\<lparr>t_blocked := new_set\<rparr>)
                            else Inl EINVAL)
                  else Inr t)
      in (case step of
            Inl e \<Rightarrow> (Some e, t, None)
          | Inr t1 \<Rightarrow>
              if oset \<noteq> 0
              then (case va VERIFY_WRITE oset 4 of
                      Some e \<Rightarrow> (Some e, t1, None)
                    | None \<Rightarrow> (None, t1, Some old_set))
              else (None, t1, None)))"

definition sys_sgetmask :: "task_struct \<Rightarrow> u32" where
  "sys_sgetmask t = t_blocked t"

definition sys_ssetmask :: "u32 \<Rightarrow> task_struct \<Rightarrow> u32 \<times> task_struct" where
  "sys_ssetmask newmask t = (t_blocked t, t\<lparr>t_blocked := newmask AND BLOCKABLE\<rparr>)"

definition sys_sigpending :: "va_fun \<Rightarrow> u32 \<Rightarrow> task_struct \<Rightarrow> u32 res" where
  "sys_sigpending va uset t =
     (case va VERIFY_WRITE uset 4 of
        Some e \<Rightarrow> Inl e
      | None \<Rightarrow> Inr (t_blocked t AND t_signal t))"

text \<open>\<^verbatim>\<open>sigsuspend\<close> up to its first \<^verbatim>\<open>schedule()\<close>; the old mask is kept for \<^verbatim>\<open>do_signal\<close>.\<close>

definition sigsuspend_enter :: "u32 \<Rightarrow> task_struct \<Rightarrow> u32 \<times> task_struct" where
  "sigsuspend_enter newset t = (t_blocked t, t\<lparr>t_blocked := newset AND BLOCKABLE, t_state := TASK_INTERRUPTIBLE\<rparr>)"

section \<open>Actions\<close>

definition sig_slot :: "u32 \<Rightarrow> nat" where
  "sig_slot signum = unat signum - 1"

definition check_pending :: "u32 \<Rightarrow> task_struct \<Rightarrow> task_struct" where
  "check_pending signum t =
     (let p = t_sigaction t ! sig_slot signum in
      if sa_handler p = SIG_IGN
      then if signum = SIGCHLD then t else t\<lparr>t_signal := t_signal t AND NOT (S_bit signum)\<rparr>
      else if sa_handler p = SIG_DFL
      then if signum \<noteq> SIGCONT \<and> signum \<noteq> SIGCHLD \<and> signum \<noteq> SIGWINCH then t
           else t\<lparr>t_signal := t_signal t AND NOT (S_bit signum)\<rparr>
      else t)"

definition bad_signum :: "int \<Rightarrow> bool" where
  "bad_signum signum \<longleftrightarrow> signum < 1 \<or> signum > 32 \<or> signum = 9 \<or> signum = 19"

definition put_action :: "u32 \<Rightarrow> sigaction \<Rightarrow> task_struct \<Rightarrow> task_struct" where
  "put_action signum sa t = t\<lparr>t_sigaction := (t_sigaction t)[sig_slot signum := sa]\<rparr>"

definition sys_signal :: "int \<Rightarrow> u32 \<Rightarrow> task_struct \<Rightarrow> u32 res \<times> task_struct" where
  "sys_signal signum handler t =
     (if bad_signum signum then (Inl EINVAL, t)
      else if handler \<ge> TASK_SIZE then (Inl EFAULT, t)
      else
        let n = word_of_int signum;
            tmp = \<lparr>sa_handler = handler, sa_mask = 0, sa_flags = SA_ONESHOT OR SA_NOMASK, sa_restorer = 0\<rparr>
        in (Inr (sa_handler (t_sigaction t ! sig_slot n)), check_pending n (put_action n tmp t)))"

text \<open>\<open>new_sa\<close> is the structure at \<open>action\<close>; the result holds the structure stored at \<open>oldaction\<close>.\<close>

definition masked_action :: "u32 \<Rightarrow> sigaction \<Rightarrow> sigaction" where
  "masked_action n sa =
     (if sa_flags sa AND SA_NOMASK \<noteq> 0 then sa\<lparr>sa_mask := 0\<rparr>
      else sa\<lparr>sa_mask := (sa_mask sa OR S_bit n) AND BLOCKABLE\<rparr>)"

definition sys_sigaction ::
  "va_fun \<Rightarrow> int \<Rightarrow> u32 \<Rightarrow> sigaction \<Rightarrow> u32 \<Rightarrow> task_struct \<Rightarrow> errno option \<times> task_struct \<times> sigaction option" where
  "sys_sigaction va signum action new_sa0 oldaction t =
     (if bad_signum signum then (Some EINVAL, t, None)
      else
        let n = word_of_int signum;
            p = t_sigaction t ! sig_slot n;
            new_sa = masked_action n new_sa0;
            err1 = (if action \<noteq> 0
                    then (case va VERIFY_READ action 16 of
                            Some e \<Rightarrow> Some e
                          | None \<Rightarrow> if TASK_SIZE \<le> sa_handler new_sa then Some EFAULT else None)
                    else None)
        in (case err1 of
              Some e \<Rightarrow> (Some e, t, None)
            | None \<Rightarrow>
                (case (if oldaction \<noteq> 0 then va VERIFY_WRITE oldaction 16 else None) of
                   Some e \<Rightarrow> (Some e, t, None)
                 | None \<Rightarrow>
                     (None,
                      if action \<noteq> 0 then check_pending n (put_action n new_sa t) else t,
                      if oldaction \<noteq> 0 then Some p else None))))"

section \<open>Sending a signal\<close>

text \<open>The result of \<^verbatim>\<open>generate\<close> is not used by its caller.\<close>

definition generate :: "u32 \<Rightarrow> task_struct \<Rightarrow> task_struct" where
  "generate sig p =
     (let msk = S_bit sig; sa = t_sigaction p ! sig_slot sig in
      if t_flags p AND PF_PTRACED \<noteq> 0 then p\<lparr>t_signal := t_signal p OR msk\<rparr>
      else if sa_handler sa = SIG_IGN \<and> sig \<noteq> SIGCHLD then p
      else if sa_handler sa = SIG_DFL \<and> (sig = SIGCONT \<or> sig = SIGCHLD \<or> sig = SIGWINCH) then p
      else p\<lparr>t_signal := t_signal p OR msk\<rparr>)"

definition STOP_SIGS :: u32 where
  "STOP_SIGS = S_bit SIGSTOP OR S_bit SIGTSTP OR S_bit SIGTTIN OR S_bit SIGTTOU"

definition sig_permitted :: "u32 \<Rightarrow> bool \<Rightarrow> task_struct \<Rightarrow> task_struct \<Rightarrow> bool" where
  "sig_permitted sig priv cur p \<longleftrightarrow>
     \<not> (\<not> priv \<and> (sig \<noteq> SIGCONT \<or> t_session cur \<noteq> t_session p) \<and>
        t_euid cur \<noteq> t_euid p \<and> t_uid cur \<noteq> t_uid p \<and> \<not> suser cur)"

definition deliver :: "u32 \<Rightarrow> task_struct \<Rightarrow> task_struct" where
  "deliver sig p =
     (let p1 = (if sig = SIGKILL \<or> sig = SIGCONT
                then p\<lparr>t_state := (if t_state p = TASK_STOPPED then TASK_RUNNING else t_state p),
                       t_exit_code := 0, t_signal := t_signal p AND NOT STOP_SIGS\<rparr>
                else p);
          p2 = (if sig \<ge> SIGSTOP \<and> sig \<le> SIGTTOU
                then p1\<lparr>t_signal := t_signal p1 AND NOT (S_bit SIGCONT)\<rparr> else p1)
      in generate sig p2)"

text \<open>\<open>p\<close> is a slot, or \<^const>\<open>None\<close> for a null pointer.\<close>

definition send_sig :: "u32 \<Rightarrow> nat option \<Rightarrow> bool \<Rightarrow> kstate \<Rightarrow> errno option \<times> kstate" where
  "send_sig sig p priv k =
     (case p of
        None \<Rightarrow> (Some EINVAL, k)
      | Some i \<Rightarrow>
          if sig > 32 then (Some EINVAL, k)
          else if \<not> sig_permitted sig priv (current k) (the_task k i) then (Some EPERM, k)
          else if sig = 0 then (None, k)
          else (None, put_task i (deliver sig (the_task k i)) k))"

definition notify_parent :: "nat \<Rightarrow> kstate \<Rightarrow> kstate" where
  "notify_parent i k =
     (let t = the_task k i;
          t1 = (if t_p_pptr t = 1 then t\<lparr>t_exit_signal := 17\<rparr> else t);
          k1 = snd (send_sig (word_of_int (t_exit_signal t1)) (Some (t_p_pptr t1)) True (put_task i t1 k))
      in k1\<lparr>k_woken := k_woken k1 @ [t_p_pptr t1]\<rparr>)"

section \<open>Groups, sessions and all processes\<close>

text \<open>The fallback of \<^verbatim>\<open>session_of_pgrp\<close> is the session of the task with that pid seen last.\<close>

fun session_loop :: "kstate \<Rightarrow> int \<Rightarrow> int \<Rightarrow> nat list \<Rightarrow> int" where
  "session_loop k pgrp fallback [] = fallback"
| "session_loop k pgrp fallback (p # ps) =
     (if t_session (the_task k p) \<le> 0 then session_loop k pgrp fallback ps
      else if t_pgrp (the_task k p) = pgrp then t_session (the_task k p)
      else session_loop k pgrp (if t_pid (the_task k p) = pgrp then t_session (the_task k p) else fallback) ps)"

definition session_of_pgrp :: "int \<Rightarrow> kstate \<Rightarrow> int" where
  "session_of_pgrp pgrp k = session_loop k pgrp (- 1) (k_ring k)"

text \<open>
  The loop shared by \<^verbatim>\<open>kill_pg\<close> and \<^verbatim>\<open>kill_sl\<close>: send to every task of the ring that
  \<open>sel\<close> picks; the state of the loop is \<^verbatim>\<open>found\<close>, \<^verbatim>\<open>retval\<close> and the table.
\<close>

definition kill_round ::
  "(task_struct \<Rightarrow> bool) \<Rightarrow> u32 \<Rightarrow> bool \<Rightarrow> nat \<Rightarrow> nat \<times> errno option \<times> kstate \<Rightarrow> nat \<times> errno option \<times> kstate" where
  "kill_round sel sig priv p s =
     (case s of (found, retval, k) \<Rightarrow>
        if sel (the_task k p)
        then (case send_sig sig (Some p) priv k of
                (Some err, k1) \<Rightarrow> (found, Some err, k1)
              | (None, k1) \<Rightarrow> (Suc found, retval, k1))
        else (found, retval, k))"

definition kill_all ::
  "(task_struct \<Rightarrow> bool) \<Rightarrow> u32 \<Rightarrow> bool \<Rightarrow> kstate \<Rightarrow> errno option \<times> kstate" where
  "kill_all sel sig priv k =
     (case fold (kill_round sel sig priv) (k_ring k) (0, Some ESRCH, k) of
        (found, retval, k1) \<Rightarrow> (if found \<noteq> 0 then None else retval, k1))"

definition kill_pg :: "int \<Rightarrow> int \<Rightarrow> bool \<Rightarrow> kstate \<Rightarrow> errno option \<times> kstate" where
  "kill_pg pgrp sig priv k =
     (if sig < 0 \<or> sig > 32 \<or> pgrp \<le> 0 then (Some EINVAL, k)
      else kill_all (\<lambda>t. t_pgrp t = pgrp) (word_of_int sig) priv k)"

definition kill_sl :: "int \<Rightarrow> int \<Rightarrow> bool \<Rightarrow> kstate \<Rightarrow> errno option \<times> kstate" where
  "kill_sl sess sig priv k =
     (if sig < 0 \<or> sig > 32 \<or> sess \<le> 0 then (Some EINVAL, k)
      else kill_all (\<lambda>t. t_session t = sess \<and> t_leader t) (word_of_int sig) priv k)"

definition kill_proc :: "int \<Rightarrow> int \<Rightarrow> bool \<Rightarrow> kstate \<Rightarrow> errno option \<times> kstate" where
  "kill_proc pid sig priv k =
     (if sig < 0 \<or> sig > 32 then (Some EINVAL, k)
      else (case find_task k (\<lambda>p. t_pid (the_task k p) = pid) of
              Some p \<Rightarrow> send_sig (word_of_int sig) (Some p) priv k
            | None \<Rightarrow> (Some ESRCH, k)))"

text \<open>The branch of \<^verbatim>\<open>kill\<close> for \<open>-1\<close>: \<^verbatim>\<open>count\<close>, \<^verbatim>\<open>retval\<close> and the table.\<close>

definition kill_every_round ::
  "u32 \<Rightarrow> nat \<Rightarrow> nat \<times> errno option \<times> kstate \<Rightarrow> nat \<times> errno option \<times> kstate" where
  "kill_every_round sig p s =
     (case s of (count, retval, k) \<Rightarrow>
        if t_pid (the_task k p) > 1 \<and> p \<noteq> k_current k
        then (case send_sig sig (Some p) False k of
                (err, k1) \<Rightarrow> (Suc count, if err \<noteq> Some EPERM then err else retval, k1))
        else (count, retval, k))"

definition sys_kill :: "int \<Rightarrow> int \<Rightarrow> kstate \<Rightarrow> errno option \<times> kstate" where
  "sys_kill pid sig k =
     (if pid = 0 then kill_pg (t_pgrp (current k)) sig False k
      else if pid = - 1
      then (case fold (kill_every_round (word_of_int sig)) (k_ring k) (0, None, k) of
              (count, retval, k1) \<Rightarrow> (if count \<noteq> 0 then retval else Some ESRCH, k1))
      else if pid < 0 then kill_pg (wrap32 (- pid)) sig False k
      else kill_proc pid sig False k)"

section \<open>Orphaned process groups\<close>

definition is_orphaned_pgrp :: "int \<Rightarrow> kstate \<Rightarrow> bool" where
  "is_orphaned_pgrp pgrp k =
     list_all (\<lambda>p. let t = the_task k p; f = the_task k (t_p_pptr t) in
       t_pgrp t \<noteq> pgrp \<or> t_state t = TASK_ZOMBIE \<or> t_pid f = 1 \<or>
       \<not> (t_pgrp f \<noteq> pgrp \<and> t_session f = t_session t)) (k_ring k)"

definition has_stopped_jobs :: "int \<Rightarrow> kstate \<Rightarrow> bool" where
  "has_stopped_jobs pgrp k =
     list_ex (\<lambda>p. t_pgrp (the_task k p) = pgrp \<and> t_state (the_task k p) = TASK_STOPPED) (k_ring k)"

definition forget_original_parent :: "nat \<Rightarrow> kstate \<Rightarrow> kstate" where
  "forget_original_parent father k =
     fold (\<lambda>p k. if t_p_opptr (the_task k p) = father
                 then put_task p ((the_task k p)\<lparr>t_p_opptr := (if k_task k 1 \<noteq> None then 1 else 0)\<rparr>) k
                 else k) (k_ring k) k"

section \<open>Signal bits\<close>

lemma S_bit_values:
  "S_bit 9 = 0x100" "S_bit 17 = 0x10000" "S_bit 18 = 0x20000" "S_bit 19 = 0x40000" "S_bit 20 = 0x80000"
  "S_bit 21 = 0x100000" "S_bit 22 = 0x200000"
  by (simp_all add: S_bit_def shl32_def)

lemma bit_S_bit: "1 \<le> n \<Longrightarrow> n \<le> 32 \<Longrightarrow> bit (S_bit n) j \<longleftrightarrow> j = unat n - 1"
proof -
  assume n: "1 \<le> n" "n \<le> 32"
  then have u: "1 \<le> unat n" "unat n \<le> 32" by (simp_all add: word_le_nat_alt)
  have e: "uint n = int (unat n)" by simp
  have "uint n - 1 = int (unat n - 1)" unfolding e by (subst of_nat_diff) (use u in simp_all)
  then have "nat ((uint n - 1) mod 32) = unat n - 1" using u by (simp only: mod_pos_pos_trivial nat_int)
  then show ?thesis using u by (auto simp: S_bit_def shl32_def bit_simps)
qed

lemma bit_BLOCKABLE: "bit BLOCKABLE j \<longleftrightarrow> j < 32 \<and> j \<noteq> 8 \<and> j \<noteq> 18"
  by (auto simp: BLOCKABLE_def bit_simps bit_S_bit)

lemma bit_STOP_SIGS: "bit STOP_SIGS j \<longleftrightarrow> j \<in> {18, 19, 20, 21}"
  by (auto simp: STOP_SIGS_def bit_simps bit_S_bit)

section \<open>SIGKILL and SIGSTOP\<close>

text \<open>Neither is blocked, neither is in the mask of an action, and both keep their default action.\<close>

definition mask_ok :: "u32 \<Rightarrow> bool" where
  "mask_ok w \<longleftrightarrow> \<not> bit w 8 \<and> \<not> bit w 18"

definition sigs_ok :: "task_struct \<Rightarrow> bool" where
  "sigs_ok t \<longleftrightarrow> mask_ok (t_blocked t) \<and> length (t_sigaction t) = 32 \<and>
     (\<forall>sa\<in>set (t_sigaction t). mask_ok (sa_mask sa)) \<and>
     sa_handler (t_sigaction t ! 8) = SIG_DFL \<and> sa_handler (t_sigaction t ! 18) = SIG_DFL"

inductive sig_step :: "task_struct \<Rightarrow> task_struct \<Rightarrow> bool" where
  sig_procmask: "sig_step t (fst (snd (sys_sigprocmask va how uset newset oset t)))"
| sig_setmask: "sig_step t (snd (sys_ssetmask m t))"
| sig_suspend: "sig_step t (snd (sigsuspend_enter m t))"
| sig_signal: "sig_step t (snd (sys_signal n h t))"
| sig_action: "sig_step t (fst (snd (sys_sigaction va n action sa oldaction t)))"

lemma mask_ok_simps:
  "mask_ok (w AND BLOCKABLE)" "mask_ok 0" "mask_ok b \<Longrightarrow> mask_ok (b OR (w AND BLOCKABLE))"
  "mask_ok b \<Longrightarrow> mask_ok (b AND w)"
  by (auto simp: mask_ok_def bit_simps bit_BLOCKABLE)

lemma sigs_ok_blocked: "sigs_ok t \<Longrightarrow> mask_ok b \<Longrightarrow> sigs_ok (t\<lparr>t_blocked := b\<rparr>)"
  by (simp add: sigs_ok_def)

lemma sigs_ok_other: "sigs_ok (t\<lparr>t_signal := s\<rparr>) = sigs_ok t" "sigs_ok (t\<lparr>t_state := x\<rparr>) = sigs_ok t"
  by (simp_all add: sigs_ok_def)

lemma sigs_ok_check_pending [simp]: "sigs_ok (check_pending n t) = sigs_ok t"
  by (simp add: check_pending_def Let_def sigs_ok_other)

lemma good_slot:
  assumes "\<not> bad_signum n"
  shows "sig_slot (word_of_int n) < 32" "sig_slot (word_of_int n) \<noteq> 8" "sig_slot (word_of_int n) \<noteq> 18"
proof -
  have n: "1 \<le> n" "n \<le> 32" "n \<noteq> 9" "n \<noteq> 19" using assms by (auto simp: bad_signum_def)
  then have "unat (word_of_int n :: u32) = nat n"
    by (simp add: unat_eq_nat_uint unsigned_of_int take_bit_int_eq_self)
  then show "sig_slot (word_of_int n) < 32" "sig_slot (word_of_int n) \<noteq> 8" "sig_slot (word_of_int n) \<noteq> 18"
    using n by (auto simp: sig_slot_def)
qed

lemma sigs_ok_action:
  assumes "sigs_ok t" "\<not> bad_signum n" "mask_ok (sa_mask sa)"
  shows "sigs_ok (put_action (word_of_int n) sa t)"
proof -
  have "\<forall>x\<in>set ((t_sigaction t)[sig_slot (word_of_int n) := sa]). mask_ok (sa_mask x)"
    using assms(1,3) set_update_subset_insert[of "t_sigaction t" _ sa] by (fastforce simp: sigs_ok_def)
  then show ?thesis using assms(1) good_slot[OF assms(2)] by (simp add: sigs_ok_def put_action_def)
qed

lemma masked_action_ok: "mask_ok (sa_mask (masked_action n sa))"
  by (simp add: masked_action_def mask_ok_simps)

lemma sig_step_ok:
  assumes ok: "sigs_ok t" and step: "sig_step t t'"
  shows "sigs_ok t'"
  using step
proof cases
  case (sig_procmask va how uset newset oset)
  have b: "mask_ok (t_blocked t)" using ok by (simp add: sigs_ok_def)
  show ?thesis unfolding sig_procmask sys_sigprocmask_def Let_def
    using ok b by (simp add: sigs_ok_blocked mask_ok_simps split: option.split)
next
  case (sig_setmask m)
  then show ?thesis using ok by (simp add: sys_ssetmask_def sigs_ok_blocked mask_ok_simps)
next
  case (sig_suspend m)
  then show ?thesis using ok by (simp add: sigsuspend_enter_def sigs_ok_other sigs_ok_blocked mask_ok_simps)
next
  case (sig_signal n h)
  then show ?thesis using ok by (simp add: sys_signal_def Let_def sigs_ok_action mask_ok_simps)
next
  case (sig_action va n action sa oldaction)
  show ?thesis unfolding sig_action sys_sigaction_def Let_def
    using ok by (simp add: sigs_ok_action masked_action_ok split: option.split)
qed

interpretation sigs: invariant_system sigs_ok sig_step sigs_ok
  by unfold_locales (auto intro: sig_step_ok)

section \<open>Delivery\<close>

text \<open>What a delivered signal leaves alone.\<close>

lemma generate_fields:
  "t_uid (generate s p) = t_uid p" "t_euid (generate s p) = t_euid p" "t_session (generate s p) = t_session p"
  "t_pgrp (generate s p) = t_pgrp p" "t_pid (generate s p) = t_pid p" "t_leader (generate s p) = t_leader p"
  by (simp_all add: generate_def Let_def)

lemma deliver_fields [simp]:
  "t_uid (deliver s p) = t_uid p" "t_euid (deliver s p) = t_euid p" "t_session (deliver s p) = t_session p"
  "t_pgrp (deliver s p) = t_pgrp p" "t_pid (deliver s p) = t_pid p" "t_leader (deliver s p) = t_leader p"
  by (simp_all add: deliver_def Let_def generate_fields)

lemma suser_deliver [simp]: "suser (deliver s p) = suser p"
  by (simp add: suser_def)

lemma current_put_deliver:
  "t_uid (current (put_task i (deliver s (the_task k i)) k)) = t_uid (current k)"
  "t_euid (current (put_task i (deliver s (the_task k i)) k)) = t_euid (current k)"
  "t_session (current (put_task i (deliver s (the_task k i)) k)) = t_session (current k)"
  "suser (current (put_task i (deliver s (the_task k i)) k)) = suser (current k)"
  by (simp_all add: current_def)

lemma sig_permitted_put [simp]:
  "sig_permitted sig priv (current (put_task i (deliver s (the_task k i)) k)) t = sig_permitted sig priv (current k) t"
  by (simp add: sig_permitted_def current_put_deliver)

text \<open>Never both \<^verbatim>\<open>SIGCONT\<close> and a stop signal pending.\<close>

definition cont_stop_ok :: "task_struct \<Rightarrow> bool" where
  "cont_stop_ok t \<longleftrightarrow> \<not> (bit (t_signal t) 17 \<and> (\<exists>j\<in>{18, 19, 20, 21}. bit (t_signal t) j))"

lemma generate_signal:
  "t_signal (generate s p) = t_signal p \<or> t_signal (generate s p) = t_signal p OR S_bit s"
  by (simp add: generate_def Let_def)

lemma stop_range: "(19::u32) \<le> s \<and> s \<le> 22 \<longleftrightarrow> unat s \<in> {19, 20, 21, 22}"
proof -
  have "(19::u32) \<le> s \<longleftrightarrow> 19 \<le> unat s" "s \<le> 22 \<longleftrightarrow> unat s \<le> 22" by (simp_all add: word_le_nat_alt)
  then show ?thesis by auto
qed

lemma deliver_cont_stop:
  assumes ok: "cont_stop_ok t" and s: "1 \<le> s" "s \<le> 32"
  shows "cont_stop_ok (deliver s t)"
proof -
  have us: "s = 9 \<longleftrightarrow> unat s = 9" "s = 18 \<longleftrightarrow> unat s = 18" by (simp_all add: word_unat_eq_iff)
  have u: "1 \<le> unat s" "unat s \<le> 32" using s by (simp_all add: word_le_nat_alt)
  define p1 where "p1 = (if s = SIGKILL \<or> s = SIGCONT
      then t\<lparr>t_state := (if t_state t = TASK_STOPPED then TASK_RUNNING else t_state t),
             t_exit_code := 0, t_signal := t_signal t AND NOT STOP_SIGS\<rparr> else t)"
  define p2 where "p2 = (if s \<ge> SIGSTOP \<and> s \<le> SIGTTOU
      then p1\<lparr>t_signal := t_signal p1 AND NOT (S_bit SIGCONT)\<rparr> else p1)"
  have d: "deliver s t = generate s p2" by (simp add: deliver_def p1_def p2_def Let_def)
  have b1: "bit (t_signal p1) j \<longleftrightarrow> bit (t_signal t) j \<and> \<not> (unat s \<in> {9, 18} \<and> j \<in> {18, 19, 20, 21})" if "j < 32" for j
    using that by (auto simp: p1_def us bit_simps bit_STOP_SIGS)
  have b2: "bit (t_signal p2) j \<longleftrightarrow> bit (t_signal p1) j \<and> \<not> (unat s \<in> {19, 20, 21, 22} \<and> j = 17)" if "j < 32" for j
    using that unfolding p2_def stop_range by (auto simp: bit_simps bit_S_bit)
  consider "t_signal (deliver s t) = t_signal p2" | "t_signal (deliver s t) = t_signal p2 OR S_bit s"
    using generate_signal[of s p2] d by metis
  then show ?thesis
  proof cases
    case 1
    then show ?thesis using ok by (auto simp: cont_stop_ok_def b1 b2)
  next
    case 2
    have "bit (t_signal (deliver s t)) j \<longleftrightarrow> bit (t_signal p2) j \<or> j = unat s - 1" if "j < 32" for j
      unfolding 2 by (simp add: bit_simps bit_S_bit s)
    then show ?thesis using ok u by (auto simp: cont_stop_ok_def b1 b2)
  qed
qed

section \<open>Sending to several tasks\<close>

definition reached :: "(task_struct \<Rightarrow> bool) \<Rightarrow> u32 \<Rightarrow> bool \<Rightarrow> kstate \<Rightarrow> nat \<Rightarrow> bool" where
  "reached sel sig priv k i \<longleftrightarrow> sel (the_task k i) \<and> sig_permitted sig priv (current k) (the_task k i)"

definition after_sig :: "u32 \<Rightarrow> task_struct \<Rightarrow> task_struct" where
  "after_sig sig t = (if sig = 0 then t else deliver sig t)"

lemma after_sig_fields [simp]:
  "t_uid (after_sig s p) = t_uid p" "t_euid (after_sig s p) = t_euid p" "t_session (after_sig s p) = t_session p"
  "t_pgrp (after_sig s p) = t_pgrp p" "t_pid (after_sig s p) = t_pid p" "t_leader (after_sig s p) = t_leader p"
  by (simp_all add: after_sig_def)

lemma send_sig_cases:
  assumes "sig \<le> 32"
  shows "\<exists>k'. send_sig sig (Some i) priv k =
      (if sig_permitted sig priv (current k) (the_task k i) then None else Some EPERM, k') \<and>
    (\<forall>j. the_task k' j = (if j = i \<and> sig_permitted sig priv (current k) (the_task k i)
                          then after_sig sig (the_task k i) else the_task k j)) \<and>
    k_ring k' = k_ring k \<and> k_current k' = k_current k"
  using assms by (simp add: send_sig_def after_sig_def not_less)

lemma permitted_after:
  assumes "k_current k' = k_current k" "\<And>j. the_task k' j = the_task k j \<or> the_task k' j = after_sig s (the_task k j)"
  shows "sig_permitted sig priv (current k') t = sig_permitted sig priv (current k) t"
proof -
  have "the_task k' (k_current k) = the_task k (k_current k) \<or> the_task k' (k_current k) = after_sig s (the_task k (k_current k))"
    by (rule assms(2))
  then show ?thesis unfolding current_def assms(1) by (auto simp: sig_permitted_def suser_def)
qed

lemma kill_fold:
  assumes "distinct ps" "sig \<le> 32" "\<And>t. sel (after_sig sig t) = sel t"
    and "fold (kill_round sel sig priv) ps (n, r, k) = (n', r', k')"
  shows "(\<forall>i. the_task k' i = (if i \<in> set ps \<and> reached sel sig priv k i
              then after_sig sig (the_task k i) else the_task k i)) \<and>
    n' = n + length (filter (reached sel sig priv k) ps) \<and>
    r' = (if \<exists>i\<in>set ps. sel (the_task k i) \<and> \<not> reached sel sig priv k i then Some EPERM else r) \<and>
    k_ring k' = k_ring k \<and> k_current k' = k_current k"
  using assms(1,4)
proof (induction ps arbitrary: n r k)
  case (Cons p ps)
  obtain k1 where k1: "send_sig sig (Some p) priv k =
      (if sig_permitted sig priv (current k) (the_task k p) then None else Some EPERM, k1)"
    "\<And>j. the_task k1 j = (if j = p \<and> sig_permitted sig priv (current k) (the_task k p)
        then after_sig sig (the_task k p) else the_task k j)"
    "k_ring k1 = k_ring k" "k_current k1 = k_current k"
    using send_sig_cases[OF assms(2), of p priv k] by metis
  let ?k = "if sel (the_task k p) then k1 else k"
  let ?n = "if reached sel sig priv k p then Suc n else n"
  let ?r = "if sel (the_task k p) \<and> \<not> reached sel sig priv k p then Some EPERM else r"
  have "kill_round sel sig priv p (n, r, k) = (?n, ?r, ?k)"
    using k1(1) by (simp add: kill_round_def reached_def)
  then have f: "fold (kill_round sel sig priv) ps (?n, ?r, ?k) = (n', r', k')" using Cons.prems(2) by simp
  have tk: "the_task ?k j = (if j = p \<and> reached sel sig priv k p then after_sig sig (the_task k j) else the_task k j)" for j
    using k1(2)[of j] by (auto simp: reached_def)
  have cur: "k_current ?k = k_current k" "k_ring ?k = k_ring k" using k1(3,4) by simp_all
  have perm: "sig_permitted sig priv (current ?k) t = sig_permitted sig priv (current k) t" for t
    by (rule permitted_after[OF cur(1), of sig]) (use tk in auto)
  have re: "reached sel sig priv ?k q = reached sel sig priv k q" if "q \<noteq> p" for q
    unfolding reached_def perm tk using that by simp
  have ps: "\<forall>q\<in>set ps. q \<noteq> p" using Cons.prems(1) by auto
  have fl: "filter (reached sel sig priv ?k) ps = filter (reached sel sig priv k) ps"
    using re ps by (auto intro: filter_cong)
  have ex: "(\<exists>i\<in>set ps. sel (the_task ?k i) \<and> \<not> reached sel sig priv ?k i) =
      (\<exists>i\<in>set ps. sel (the_task k i) \<and> \<not> reached sel sig priv k i)"
    by (rule bex_cong[OF refl]) (use re ps tk in auto)
  from Cons.IH[OF _ f] have IH: "\<forall>i. the_task k' i = (if i \<in> set ps \<and> reached sel sig priv ?k i
      then after_sig sig (the_task ?k i) else the_task ?k i)"
    "n' = ?n + length (filter (reached sel sig priv k) ps)"
    "r' = (if \<exists>i\<in>set ps. sel (the_task k i) \<and> \<not> reached sel sig priv k i then Some EPERM else ?r)"
    "k_ring k' = k_ring k" "k_current k' = k_current k"
    using Cons.prems(1) cur unfolding fl ex by simp_all
  have "the_task k' i = (if i \<in> set (p # ps) \<and> reached sel sig priv k i
      then after_sig sig (the_task k i) else the_task k i)" for i
    using IH(1) re[of i] tk[of i] ps by (cases "i = p") auto
  then show ?case using IH(2-5) by auto
qed simp

text \<open>What sending to the tasks \<open>ps\<close> may do, each task at most once.\<close>

definition sends :: "u32 \<Rightarrow> bool \<Rightarrow> nat list \<Rightarrow> kstate \<Rightarrow> kstate \<Rightarrow> bool" where
  "sends sig priv ps k k' \<longleftrightarrow> k_ring k' = k_ring k \<and> k_current k' = k_current k \<and>
     (\<forall>i. the_task k' i = the_task k i \<or>
          i \<in> set ps \<and> sig \<le> 32 \<and> sig_permitted sig priv (current k) (the_task k i) \<and>
          the_task k' i = after_sig sig (the_task k i))"

lemma sends_refl [simp]: "sends sig priv ps k k"
  by (simp add: sends_def)

lemma sends_permitted:
  "sends sig priv ps k k' \<Longrightarrow> sig_permitted sig priv (current k') t = sig_permitted sig priv (current k) t"
  by (rule permitted_after[of _ _ sig]) (auto simp: sends_def)

lemma sends_Cons:
  assumes "sends sig priv [p] k k1" "sends sig priv ps k1 k'" "p \<notin> set ps"
  shows "sends sig priv (p # ps) k k'"
proof -
  have perm: "sig_permitted sig priv (current k1) t = sig_permitted sig priv (current k) t" for t
    by (rule sends_permitted[OF assms(1)])
  have "the_task k' i = the_task k i \<or> i \<in> set (p # ps) \<and> sig \<le> 32 \<and>
      sig_permitted sig priv (current k) (the_task k i) \<and> the_task k' i = after_sig sig (the_task k i)" for i
  proof (cases "i = p")
    case True
    then have "the_task k' i = the_task k1 i" using assms(2,3) by (auto simp: sends_def)
    moreover have "the_task k1 i = the_task k i \<or> sig \<le> 32 \<and>
        sig_permitted sig priv (current k) (the_task k i) \<and> the_task k1 i = after_sig sig (the_task k i)"
      using assms(1) by (auto simp: sends_def)
    ultimately show ?thesis using True by auto
  next
    case False
    then have "the_task k1 i = the_task k i" using assms(1) by (auto simp: sends_def)
    moreover have "the_task k' i = the_task k1 i \<or> i \<in> set ps \<and> sig \<le> 32 \<and>
        sig_permitted sig priv (current k1) (the_task k1 i) \<and> the_task k' i = after_sig sig (the_task k1 i)"
      using assms(2) by (auto simp: sends_def)
    ultimately show ?thesis using perm by auto
  qed
  then show ?thesis using assms(1,2) by (simp add: sends_def)
qed

lemma sends_fold:
  assumes "\<And>p a b k. sends sig priv [p] k (snd (snd (f p (a, b, k))))" "distinct ps"
  shows "sends sig priv ps k (snd (snd (fold f ps (a, b, k))))"
  using assms(2)
proof (induction ps arbitrary: a b k)
  case (Cons p ps)
  obtain a1 b1 k1 where f: "f p (a, b, k) = (a1, b1, k1)" by (cases "f p (a, b, k)")
  have "sends sig priv [p] k k1" using assms(1)[of p k a b] f by simp
  then show ?case using Cons f by (auto intro: sends_Cons)
qed simp

lemma send_sig_sends: "sends sig priv [i] k (snd (send_sig sig (Some i) priv k))"
  by (simp add: send_sig_def sends_def after_sig_def not_less)

lemma sends_mono: "sends sig priv ps k k' \<Longrightarrow> set ps \<subseteq> set qs \<Longrightarrow> sends sig priv qs k k'"
  unfolding sends_def by blast

lemma kill_round_sends: "sends sig priv [p] k (snd (snd (kill_round sel sig priv p (a, b, k))))"
  using send_sig_sends[of sig priv p k]
  by (auto simp: kill_round_def split: prod.split option.split)

lemma kill_every_round_sends: "sends sig False [p] k (snd (snd (kill_every_round sig p (a, b, k))))"
  using send_sig_sends[of sig False p k] by (auto simp: kill_every_round_def split: prod.split)

lemma kill_pg_sends:
  assumes "distinct (k_ring k)"
  shows "sends (word_of_int sig) priv (k_ring k) k (snd (kill_pg pgrp sig priv k))"
  using sends_fold[of "word_of_int sig" priv "kill_round (\<lambda>t. t_pgrp t = pgrp) (word_of_int sig) priv",
      OF kill_round_sends assms, of k 0 "Some ESRCH"]
  by (auto simp: kill_pg_def kill_all_def split: prod.split)

lemma kill_proc_sends: "sends (word_of_int sig) priv (k_ring k) k (snd (kill_proc pid sig priv k))"
proof (cases "find_task k (\<lambda>p. t_pid (the_task k p) = pid)")
  case (Some p)
  then have "p \<in> set (k_ring k)" by (auto simp: find_task_def find_Some_iff)
  then show ?thesis using sends_mono[OF send_sig_sends[of "word_of_int sig" priv p k]] Some
    by (simp add: kill_proc_def)
qed (simp add: kill_proc_def)

lemma sys_kill_sends:
  assumes "distinct (k_ring k)"
  shows "sends (word_of_int sig) False (k_ring k) k (snd (sys_kill pid sig k))"
  using sends_fold[of "word_of_int sig" False "kill_every_round (word_of_int sig)",
      OF kill_every_round_sends assms, of k 0 None] kill_pg_sends[OF assms, of sig False] kill_proc_sends[of sig False k]
  by (auto simp: sys_kill_def split: prod.split)

section \<open>Properties\<close>

text \<open>
  C5. \<^verbatim>\<open>SIGKILL\<close> and \<^verbatim>\<open>SIGSTOP\<close> cannot be caught, ignored or blocked: whatever sequence of
  \<^verbatim>\<open>sigprocmask\<close>, \<^verbatim>\<open>ssetmask\<close>, \<^verbatim>\<open>sigsuspend\<close>, \<^verbatim>\<open>signal\<close> and \<^verbatim>\<open>sigaction\<close> calls a task makes, the
  mask of blocked signals and the masks of all its actions hold neither, and both keep the default action.
\<close>

theorem kill_stop_uncatchable:
  assumes "sig_step\<^sup>*\<^sup>* t t'" "sigs_ok t"
  shows "t_blocked t' AND (S_bit SIGKILL OR S_bit SIGSTOP) = 0 \<and>
    (\<forall>sa\<in>set (t_sigaction t'). sa_mask sa AND (S_bit SIGKILL OR S_bit SIGSTOP) = 0) \<and>
    sa_handler (t_sigaction t' ! sig_slot SIGKILL) = SIG_DFL \<and>
    sa_handler (t_sigaction t' ! sig_slot SIGSTOP) = SIG_DFL"
proof -
  have m: "w AND (S_bit SIGKILL OR S_bit SIGSTOP) = 0" if "mask_ok w" for w
    using that by (auto intro!: bit_eqI simp: mask_ok_def bit_simps bit_S_bit)
  show ?thesis using sigs.steps_inv[OF assms] m by (auto simp: sigs_ok_def sig_slot_def)
qed

theorem kill_stop_uncatchable_witness:
  "t_blocked (snd (sys_ssetmask 0xFFFFFFFF INIT_TASK)) AND (S_bit SIGKILL OR S_bit SIGSTOP) = 0"
proof -
  have "sigs_ok INIT_TASK" by (simp add: sigs_ok_def INIT_TASK_def mask_ok_def)
  moreover have "sig_step\<^sup>*\<^sup>* INIT_TASK (snd (sys_ssetmask 0xFFFFFFFF INIT_TASK))"
    by (rule r_into_rtranclp) (rule sig_setmask)
  ultimately show ?thesis using kill_stop_uncatchable by blast
qed

text \<open>
  C18. Killing a process group is exact: each task of the group that the caller may signal gets the
  signal, every other task of the table is as before; the call succeeds when some task got it,
  fails with \<^verbatim>\<open>EPERM\<close> when the group has members but none may be signalled, and with \<^verbatim>\<open>ESRCH\<close>
  when the group is empty.
\<close>

theorem kill_pg_exact:
  assumes "distinct (k_ring k)" "0 \<le> sig" "sig \<le> 32" "0 < pgrp" "kill_pg pgrp sig priv k = (r, k')"
  shows "(\<forall>i. the_task k' i =
      (if i \<in> set (k_ring k) \<and> t_pgrp (the_task k i) = pgrp \<and>
          sig_permitted (word_of_int sig) priv (current k) (the_task k i) \<and> sig \<noteq> 0
       then deliver (word_of_int sig) (the_task k i) else the_task k i)) \<and>
    r = (if \<exists>i\<in>set (k_ring k). t_pgrp (the_task k i) = pgrp \<and>
             sig_permitted (word_of_int sig) priv (current k) (the_task k i) then None
         else if \<exists>i\<in>set (k_ring k). t_pgrp (the_task k i) = pgrp then Some EPERM else Some ESRCH)"
proof -
  let ?s = "word_of_int sig :: u32" and ?sel = "\<lambda>t. t_pgrp t = pgrp"
  have u: "uint ?s = sig" using assms(2,3) by (simp add: unsigned_of_int take_bit_int_eq_self)
  have s: "?s \<le> 32" "?s = 0 \<longleftrightarrow> sig = 0" using u assms(3) by (auto simp: word_le_def)
  obtain n' r' k1 where f: "fold (kill_round ?sel ?s priv) (k_ring k) (0, Some ESRCH, k) = (n', r', k1)"
    by (cases "fold (kill_round ?sel ?s priv) (k_ring k) (0, Some ESRCH, k)")
  have rk: "r = (if n' \<noteq> 0 then None else r')" "k' = k1"
    using assms(2-5) f by (auto simp: kill_pg_def kill_all_def)
  have F: "\<forall>i. the_task k' i = (if i \<in> set (k_ring k) \<and> reached ?sel ?s priv k i
        then after_sig ?s (the_task k i) else the_task k i)"
    "n' = length (filter (reached ?sel ?s priv k) (k_ring k))"
    "r' = (if \<exists>i\<in>set (k_ring k). ?sel (the_task k i) \<and> \<not> reached ?sel ?s priv k i then Some EPERM else Some ESRCH)"
    using kill_fold[OF assms(1) s(1) _ f] rk(2) by simp_all
  have n: "n' \<noteq> 0 \<longleftrightarrow> (\<exists>i\<in>set (k_ring k). reached ?sel ?s priv k i)"
    unfolding F(2) by (auto simp: filter_empty_conv)
  have "\<forall>i. the_task k' i = (if i \<in> set (k_ring k) \<and> ?sel (the_task k i) \<and>
          sig_permitted ?s priv (current k) (the_task k i) \<and> sig \<noteq> 0
       then deliver ?s (the_task k i) else the_task k i)"
    using F(1) s(2) by (simp add: reached_def after_sig_def)
  moreover have "r = (if \<exists>i\<in>set (k_ring k). ?sel (the_task k i) \<and>
             sig_permitted ?s priv (current k) (the_task k i) then None
         else if \<exists>i\<in>set (k_ring k). ?sel (the_task k i) then Some EPERM else Some ESRCH)"
    unfolding rk(1) n F(3) reached_def by auto
  ultimately show ?thesis by blast
qed

theorem kill_pg_exact_witness:
  "fst (kill_pg 20 9 False (example_table 1)) = Some EPERM \<and>
   bit (t_signal (the_task (snd (kill_pg 10 15 False (example_table 1))) 1)) 14"
proof -
  let ?k = "example_table 1"
  note ev = example_table_def example_user_def INIT_TASK_def the_task_def current_def suser_def sig_permitted_def
  obtain r k' r2 k2 where e: "kill_pg 20 9 False ?k = (r, k')" "kill_pg 10 15 False ?k = (r2, k2)"
    by (cases "kill_pg 20 9 False ?k"; cases "kill_pg 10 15 False ?k")
  have d: "distinct (k_ring ?k)" by (simp add: example_table_def)
  have "r = Some EPERM" using kill_pg_exact[OF d _ _ _ e(1)] by (simp add: ev)
  moreover have "the_task k2 1 = deliver 15 (the_task ?k 1)" using kill_pg_exact[OF d _ _ _ e(2)] by (simp add: ev)
  moreover have "bit (t_signal (deliver 15 (the_task ?k 1))) 14"
    by (simp add: ev deliver_def generate_def Let_def bit_simps bit_S_bit PF_PTRACED_def sig_slot_def)
  ultimately show ?thesis using e by simp
qed

text \<open>
  C17. No \<^verbatim>\<open>kill\<close> of a process, a group or everything reaches a task the caller may not signal: an
  unprivileged caller changes only tasks that share a user id with it, or, for \<^verbatim>\<open>SIGCONT\<close>, its
  session. No task ends with \<^verbatim>\<open>SIGCONT\<close> and a stop signal both pending, when none had before.
\<close>

theorem kill_confined:
  assumes "distinct (k_ring k)" "sys_kill pid sig k = (r, k')"
  shows "(\<forall>i. the_task k' i \<noteq> the_task k i \<longrightarrow>
      suser (current k) \<or> t_euid (current k) = t_euid (the_task k i) \<or> t_uid (current k) = t_uid (the_task k i) \<or>
      word_of_int sig = SIGCONT \<and> t_session (current k) = t_session (the_task k i)) \<and>
    (\<forall>i. cont_stop_ok (the_task k i) \<longrightarrow> cont_stop_ok (the_task k' i))"
proof -
  let ?s = "word_of_int sig :: u32"
  have S: "the_task k' i = the_task k i \<or> ?s \<le> 32 \<and> sig_permitted ?s False (current k) (the_task k i) \<and>
      the_task k' i = after_sig ?s (the_task k i)" for i
    using sys_kill_sends[OF assms(1), of sig pid] assms(2) by (auto simp: sends_def)
  have "cont_stop_ok (the_task k' i)" if c: "cont_stop_ok (the_task k i)" for i
  proof (cases "the_task k' i = the_task k i")
    case False
    then have s: "?s \<le> 32" "the_task k' i = after_sig ?s (the_task k i)" using S[of i] by auto
    have "1 \<le> ?s" if "?s \<noteq> 0" using that by (simp add: word_le_nat_alt Suc_leI unat_gt_0)
    then show ?thesis unfolding s(2) after_sig_def using c s(1) deliver_cont_stop by auto
  qed (use c in simp)
  moreover have "suser (current k) \<or> t_euid (current k) = t_euid (the_task k i) \<or> t_uid (current k) = t_uid (the_task k i) \<or>
      ?s = SIGCONT \<and> t_session (current k) = t_session (the_task k i)" if "the_task k' i \<noteq> the_task k i" for i
    using S[of i] that by (auto simp: sig_permitted_def)
  ultimately show ?thesis by blast
qed

theorem kill_confined_witness:
  "the_task (snd (sys_kill (- 1) 9 (example_table 1))) 2 = the_task (example_table 1) 2"
proof -
  let ?k = "example_table 1"
  obtain r k' where e: "sys_kill (- 1) 9 ?k = (r, k')" by (cases "sys_kill (- 1) 9 ?k")
  have d: "distinct (k_ring ?k)" by (simp add: example_table_def)
  have n: "\<not> suser (current ?k)" "t_euid (current ?k) \<noteq> t_euid (the_task ?k 2)" "t_uid (current ?k) \<noteq> t_uid (the_task ?k 2)"
    by (simp_all add: example_table_def example_user_def INIT_TASK_def the_task_def current_def suser_def)
  show ?thesis using kill_confined[OF d e, THEN conjunct1, THEN spec, of 2] n e by auto
qed

end
