(* ===== verification/Timer_List.thy ===== *)
theory Timer_List
  imports Task
begin

text \<open>
  The dynamic kernel timers of \<^verbatim>\<open>kernel/sched.c\<close>: the list from \<^verbatim>\<open>next_timer\<close>, in which
  each element holds the ticks left after its predecessor expires, the static \<^verbatim>\<open>timer_table\<close>,
  and the bottom half that runs both. Refined to a queue of absolute deadlines.
\<close>

section \<open>The timers\<close>

text \<open>\<open>tl_id\<close> is the address of the structure, \<open>tl_function\<close> the address of its function.\<close>

record timer_list =
  tl_id :: nat
  tl_expires :: u32
  tl_data :: u32
  tl_function :: u32

text \<open>The list is the one reached from \<^verbatim>\<open>next_timer\<close> by \<^verbatim>\<open>next\<close>; interrupts are off.\<close>

fun add_timer_loop :: "timer_list \<Rightarrow> timer_list list \<Rightarrow> timer_list list" where
  "add_timer_loop timer [] = [timer]"
| "add_timer_loop timer (p # ps) =
     (if tl_expires p > tl_expires timer
      then timer # p\<lparr>tl_expires := tl_expires p - tl_expires timer\<rparr> # ps
      else p # add_timer_loop (timer\<lparr>tl_expires := tl_expires timer - tl_expires p\<rparr>) ps)"

definition add_timer :: "timer_list option \<Rightarrow> timer_list list \<Rightarrow> timer_list list" where
  "add_timer timer ls = (case timer of None \<Rightarrow> ls | Some t \<Rightarrow> add_timer_loop t ls)"

text \<open>The removed structure, with the ticks it had left in total, and the list without it.\<close>

fun del_timer_loop :: "nat \<Rightarrow> u32 \<Rightarrow> timer_list list \<Rightarrow> (timer_list \<times> timer_list list) option" where
  "del_timer_loop timer expires [] = None"
| "del_timer_loop timer expires (p # ps) =
     (if tl_id p = timer
      then Some (p\<lparr>tl_expires := tl_expires p + expires\<rparr>,
                 case ps of [] \<Rightarrow> [] | q # qs \<Rightarrow> q\<lparr>tl_expires := tl_expires q + tl_expires p\<rparr> # qs)
      else (case del_timer_loop timer (expires + tl_expires p) ps of
              None \<Rightarrow> None
            | Some (t, qs) \<Rightarrow> Some (t, p # qs)))"

definition del_timer :: "nat \<Rightarrow> timer_list list \<Rightarrow> (timer_list \<times> timer_list list) option" where
  "del_timer timer ls = del_timer_loop timer 0 ls"

section \<open>The tick and the bottom half\<close>

text \<open>
  The end of \<^verbatim>\<open>do_timer\<close>: the list, the ticks lost and whether the bottom half is marked.
\<close>

definition timer_tick :: "timer_list list \<Rightarrow> u32 \<Rightarrow> timer_list list \<times> u32 \<times> bool" where
  "timer_tick ls lost_ticks =
     (case ls of
        [] \<Rightarrow> ([], lost_ticks, False)
      | p # ps \<Rightarrow>
          if tl_expires p \<noteq> 0
          then (p\<lparr>tl_expires := tl_expires p - 1\<rparr> # ps, lost_ticks, tl_expires p - 1 = 0)
          else (ls, lost_ticks + 1, True))"

text \<open>
  The first loop of \<^verbatim>\<open>timer_bh\<close>: what it does with interrupts off, before it calls the function of the
  timer it took, and the loop. The function may change the list: \<open>fn\<close> is its effect. The last argument
  collects the timers that ran, in order.
\<close>

definition take_timer :: "timer_list list \<Rightarrow> (timer_list \<times> timer_list list) option" where
  "take_timer ls = (case ls of [] \<Rightarrow> None | p # ps \<Rightarrow> if tl_expires p = 0 then Some (p, ps) else None)"

partial_function (option) run_timers ::
  "(timer_list \<Rightarrow> timer_list list \<Rightarrow> timer_list list) \<Rightarrow> timer_list list \<Rightarrow> timer_list list \<Rightarrow>
   (timer_list list \<times> timer_list list) option" where
  "run_timers fn ls rn =
     (case take_timer ls of
        None \<Rightarrow> Some (ls, rn)
      | Some (p, ps) \<Rightarrow> run_timers fn (fn p ps) (rn @ [p]))"

text \<open>
  The loop over \<^verbatim>\<open>timer_table\<close> of \<^verbatim>\<open>timer_bh\<close>, from entry \<open>i\<close>: \<open>tbl\<close> holds the expiry times,
  \<open>fn\<close> is the effect of an entry's function on \<^verbatim>\<open>timer_active\<close> and the table.
\<close>

function table_loop ::
  "(nat \<Rightarrow> u32 \<times> u32 list \<Rightarrow> u32 \<times> u32 list) \<Rightarrow> u32 \<Rightarrow> nat \<Rightarrow> u32 \<times> u32 list \<Rightarrow> nat list \<Rightarrow> (u32 \<times> u32 list) \<times> nat list" where
  "table_loop fn jiffies i (timer_active, tbl) rn =
     (if 32 \<le> i then ((timer_active, tbl), rn)
      else let msk = push_bit i (1 :: u32) in
        if msk > timer_active then ((timer_active, tbl), rn)
        else if msk AND timer_active = 0 then table_loop fn jiffies (Suc i) (timer_active, tbl) rn
        else if tbl ! i > jiffies then table_loop fn jiffies (Suc i) (timer_active, tbl) rn
        else table_loop fn jiffies (Suc i) (fn i (timer_active AND NOT msk, tbl)) (rn @ [i]))"
  by pat_completeness auto
termination by (relation "measure (\<lambda>(_, _, i, _, _). 32 - i)") auto

definition timer_bh ::
  "(timer_list \<Rightarrow> timer_list list \<Rightarrow> timer_list list) \<Rightarrow> (nat \<Rightarrow> u32 \<times> u32 list \<Rightarrow> u32 \<times> u32 list) \<Rightarrow> u32 \<Rightarrow>
   timer_list list \<Rightarrow> u32 \<times> u32 list \<Rightarrow> ((timer_list list \<times> timer_list list) \<times> (u32 \<times> u32 list) \<times> nat list) option" where
  "timer_bh fn tfn jiffies ls st =
     (case run_timers fn ls [] of
        None \<Rightarrow> None
      | Some r \<Rightarrow> Some (r, table_loop tfn jiffies 0 st []))"

text \<open>The loop over the table in \<^verbatim>\<open>do_timer\<close>: whether it marks the bottom half.\<close>

function table_due :: "u32 \<Rightarrow> u32 \<Rightarrow> u32 list \<Rightarrow> nat \<Rightarrow> bool \<Rightarrow> bool" where
  "table_due jiffies timer_active tbl i marked =
     (if 32 \<le> i then marked
      else let msk = push_bit i (1 :: u32) in
        if msk > timer_active then marked
        else table_due jiffies timer_active tbl (Suc i)
               (marked \<or> (msk AND timer_active \<noteq> 0 \<and> \<not> tbl ! i > jiffies)))"
  by pat_completeness auto
termination by (relation "measure (\<lambda>(_, _, _, i, _). 32 - i)") auto

declare table_loop.simps [simp del] table_due.simps [simp del]

section \<open>The queue of deadlines\<close>

text \<open>A timer with its deadline in ticks from now, and the specification of the operations.\<close>

type_synonym deadline = "nat \<times> nat \<times> u32 \<times> u32"

definition dl :: "nat \<Rightarrow> timer_list \<Rightarrow> deadline" where
  "dl n t = (n, tl_id t, tl_function t, tl_data t)"

fun deadlines :: "nat \<Rightarrow> timer_list list \<Rightarrow> deadline list" where
  "deadlines n [] = []"
| "deadlines n (p # ps) = dl (n + unat (tl_expires p)) p # deadlines (n + unat (tl_expires p)) ps"

fun insert_deadline :: "deadline \<Rightarrow> deadline list \<Rightarrow> deadline list" where
  "insert_deadline d [] = [d]"
| "insert_deadline d (e # es) = (if fst e > fst d then d # e # es else e # insert_deadline d es)"

definition total :: "timer_list list \<Rightarrow> nat" where
  "total ls = sum_list (map (\<lambda>p. unat (tl_expires p)) ls)"

definition timers_ok :: "timer_list list \<Rightarrow> bool" where
  "timers_ok ls \<longleftrightarrow> distinct (map tl_id ls) \<and> total ls < 2 ^ 32"

lemma total_simps [simp]:
  "total [] = 0" "total (p # ps) = unat (tl_expires p) + total ps"
  by (simp_all add: total_def)

lemma unat_sub_le: "(b :: u32) \<le> a \<Longrightarrow> unat (a - b) = unat a - unat b"
  by (rule unat_sub)

lemma unat_add_lt: "unat (a :: u32) + unat b < 2 ^ 32 \<Longrightarrow> unat (a + b) = unat a + unat b"
  by (simp add: unat_plus_if')

lemma dl_update [simp]: "dl n (t\<lparr>tl_expires := e\<rparr>) = dl n t"
  by (simp add: dl_def)

lemma fst_dl [simp]: "fst (dl n t) = n"
  by (simp add: dl_def)

lemma add_timer_refines:
  "deadlines n (add_timer_loop t ls) = insert_deadline (dl (n + unat (tl_expires t)) t) (deadlines n ls)"
proof (induction t ls arbitrary: n rule: add_timer_loop.induct)
  case (2 t p ps)
  then show ?case
    by (cases "tl_expires p > tl_expires t")
      (simp_all add: unat_sub_le word_less_nat_alt word_le_nat_alt not_less)
qed simp

lemma deadlines_ge: "d \<in> set (deadlines n ls) \<Longrightarrow> n \<le> fst d"
  by (induction ls arbitrary: n) (simp, fastforce)

lemma sorted_deadlines: "sorted (map fst (deadlines n ls))"
  by (induction ls arbitrary: n) (auto dest: deadlines_ge)

lemma ids_deadlines: "map (fst \<circ> snd) (deadlines n ls) = map tl_id ls"
  by (induction ls arbitrary: n) (simp_all add: dl_def)

lemma deadlines_shift: "deadlines (n + m) ls = map (\<lambda>(k, x). (k + m, x)) (deadlines n ls)"
proof (induction ls arbitrary: n)
  case (Cons p ps)
  show ?case using Cons.IH[of "n + unat (tl_expires p)"] by (simp add: dl_def add.assoc add.commute add.left_commute)
qed simp

lemma total_add: "total (add_timer_loop t ls) = max (total ls) (unat (tl_expires t))"
proof (induction t ls rule: add_timer_loop.induct)
  case (2 t p ps)
  then show ?case
    by (cases "tl_expires p > tl_expires t")
      (auto simp: unat_sub_le word_less_nat_alt word_le_nat_alt not_less)
qed simp

lemma set_insert_deadline: "set (insert_deadline d ds) = insert d (set ds)"
  by (induction ds) auto

lemma distinct_insert_deadline:
  "distinct (map f (insert_deadline d ds)) \<longleftrightarrow> distinct (map f ds) \<and> f d \<notin> f ` set ds"
  by (induction ds) (auto simp: set_insert_deadline)

lemma timers_ok_add:
  assumes "timers_ok ls" "tl_id t \<notin> tl_id ` set ls"
  shows "timers_ok (add_timer_loop t ls)"
proof -
  have "tl_id ` set ls = (fst \<circ> snd) ` set (deadlines 0 ls)"
    using ids_deadlines[of 0 ls] by (metis list.set_map)
  then have "distinct (map (fst \<circ> snd) (deadlines 0 (add_timer_loop t ls)))"
    using assms by (simp add: add_timer_refines distinct_insert_deadline timers_ok_def ids_deadlines dl_def)
  then show ?thesis
    using assms(1) unsigned_less[of "tl_expires t"] by (simp add: timers_ok_def total_add ids_deadlines)
qed

text \<open>Removal keeps every other deadline and returns the structure with its own.\<close>

lemma del_timer_None: "del_timer_loop i e ls = None \<longleftrightarrow> i \<notin> tl_id ` set ls"
  by (induction i e ls rule: del_timer_loop.induct) (auto split: option.split)

lemma del_timer_refines:
  assumes "del_timer_loop i e ls = Some (t, ls')" "distinct (map tl_id ls)" "unat e + total ls < 2 ^ 32"
  shows "deadlines n ls' = filter (\<lambda>d. fst (snd d) \<noteq> i) (deadlines n ls) \<and>
    dl (n + unat (tl_expires t)) t \<in> set (deadlines (n + unat e) ls) \<and> tl_id t = i \<and> total ls' \<le> total ls"
  using assms
proof (induction i e ls arbitrary: n t ls' rule: del_timer_loop.induct)
  case (2 i e p ps)
  have keep: "filter (\<lambda>d. fst (snd d) \<noteq> i) (deadlines m ps) = deadlines m ps" if "i \<notin> tl_id ` set ps" for m
  proof -
    have "fst (snd d) \<in> tl_id ` set ps" if "d \<in> set (deadlines m ps)" for d
      using that ids_deadlines[of m ps] by (metis comp_apply image_eqI list.set_map)
    then show ?thesis using that by (auto simp: filter_id_conv)
  qed
  show ?case
  proof (cases "tl_id p = i")
    case True
    then have k: "i \<notin> tl_id ` set ps" using "2.prems"(2) by auto
    have t: "t = p\<lparr>tl_expires := tl_expires p + e\<rparr>" using "2.prems"(1) True by simp
    have u: "unat (tl_expires p + e) = unat (tl_expires p) + unat e" using "2.prems"(3) by (intro unat_add_lt) simp
    have tt: "tl_id t = i" "dl (n + unat (tl_expires t)) t \<in> set (deadlines (n + unat e) (p # ps))"
      using t u True by (simp_all add: ac_simps)
    show ?thesis
    proof (cases ps)
      case Nil
      then show ?thesis using "2.prems"(1) True tt by (simp add: dl_def)
    next
      case (Cons q qs)
      have l: "ls' = q\<lparr>tl_expires := tl_expires q + tl_expires p\<rparr> # qs" using "2.prems"(1) True Cons by simp
      have uq: "unat (tl_expires q + tl_expires p) = unat (tl_expires q) + unat (tl_expires p)"
        using "2.prems"(3) Cons by (intro unat_add_lt) simp
      have e: "n + unat (tl_expires q + tl_expires p) = n + unat (tl_expires p) + unat (tl_expires q)" using uq by simp
      have "deadlines n ls' = deadlines (n + unat (tl_expires p)) ps" unfolding l Cons by (simp add: e)
      then show ?thesis using keep[OF k] True tt l uq Cons by (simp add: dl_def)
    qed
  next
    case False
    then obtain qs where q: "del_timer_loop i (e + tl_expires p) ps = Some (t, qs)" "ls' = p # qs"
      using "2.prems"(1) by (auto split: option.splits)
    have u: "unat (e + tl_expires p) = unat e + unat (tl_expires p)" using "2.prems"(3) by (intro unat_add_lt) simp
    have b: "unat (e + tl_expires p) + total ps < 2 ^ 32" using "2.prems"(3) u by simp
    note IH = "2.IH"[OF False q(1) _ b]
    have "deadlines (n + unat (tl_expires p)) qs = filter (\<lambda>d. fst (snd d) \<noteq> i) (deadlines (n + unat (tl_expires p)) ps)"
      "tl_id t = i" "total qs \<le> total ps" using IH[of "n + unat (tl_expires p)"] "2.prems"(2) by simp_all
    moreover have "dl (n + unat (tl_expires t)) t \<in> set (deadlines (n + unat e) (p # ps))"
      using IH[of n] "2.prems"(2) u by (simp add: ac_simps)
    ultimately show ?thesis using False q(2) by (simp add: dl_def)
  qed
qed simp

section \<open>Ticks and bottom halves\<close>

text \<open>
  What happens to the timers: a tick of the clock; a step of the bottom half, which starts it when it is
  marked and otherwise takes one timer that is due or ends it; and what timer functions and the rest of
  the kernel do to the list. Ticks come at any time, also while the bottom half runs. The state is the
  queue, the ticks lost, whether the bottom half is marked and whether it is running.
\<close>

datatype 'q timer_event = Tm_tick | Tm_bh | Tm_other "'q \<Rightarrow> 'q"

fun timer_do ::
  "('q \<Rightarrow> u32 \<Rightarrow> 'q \<times> u32 \<times> bool) \<Rightarrow> ('q \<Rightarrow> ('t \<times> 'q) option) \<Rightarrow> 'q timer_event \<Rightarrow> 'q \<times> u32 \<times> bool \<times> bool \<Rightarrow>
   ('q \<times> u32 \<times> bool \<times> bool) \<times> 't list" where
  "timer_do tick tak Tm_tick (q, lost, marked, active) =
     (case tick q lost of (q1, lost1, m) \<Rightarrow> ((q1, lost1, marked \<or> m, active), []))"
| "timer_do tick tak Tm_bh (q, lost, marked, active) =
     (if active
      then (case tak q of
              None \<Rightarrow> ((q, lost, marked, False), [])
            | Some (t, q1) \<Rightarrow> ((q1, lost, marked, True), [t]))
      else ((q, lost, False, marked), []))"
| "timer_do tick tak (Tm_other f) (q, lost, marked, active) = ((f q, lost, marked, active), [])"

text \<open>The events in their order, and the timers that ran.\<close>

fun timer_run ::
  "('q \<Rightarrow> u32 \<Rightarrow> 'q \<times> u32 \<times> bool) \<Rightarrow> ('q \<Rightarrow> ('t \<times> 'q) option) \<Rightarrow> 'q timer_event list \<Rightarrow> 'q \<times> u32 \<times> bool \<times> bool \<Rightarrow>
   ('q \<times> u32 \<times> bool \<times> bool) \<times> 't list" where
  "timer_run tick tak [] st = (st, [])"
| "timer_run tick tak (e # es) st =
     (case timer_do tick tak e st of
        (st1, r1) \<Rightarrow> (case timer_run tick tak es st1 of (st2, r2) \<Rightarrow> (st2, r1 @ r2)))"

definition timer_ticks :: "'q timer_event list \<Rightarrow> nat" where
  "timer_ticks es = length (filter (\<lambda>e. e = Tm_tick) es)"

text \<open>
  What a queue of timers promises: a tick brings every deadline one tick nearer unless a timer is
  already due, and then counts as lost; it marks the bottom half exactly when a timer is due after it;
  the bottom half takes timers that are due, until there is none. A timer that nobody else removes then
  runs neither before its deadline nor after the bottom half that follows it.
\<close>

locale deadline_queue =
  fixes view :: "'q \<Rightarrow> (nat \<times> 'a) list" and payload :: "'t \<Rightarrow> 'a" and tick :: "'q \<Rightarrow> u32 \<Rightarrow> 'q \<times> u32 \<times> bool"
    and tak :: "'q \<Rightarrow> ('t \<times> 'q) option" and ok :: "'q \<Rightarrow> bool"
  assumes ok_distinct: "ok q \<Longrightarrow> distinct (map snd (view q))"
    and tick_late: "ok q \<Longrightarrow> 0 \<in> fst ` set (view q) \<Longrightarrow> tick q l = (q, l + 1, True)"
    and tick_view: "ok q \<Longrightarrow> 0 \<notin> fst ` set (view q) \<Longrightarrow> \<exists>q' m. tick q l = (q', l, m) \<and> ok q' \<and>
      view q' = map (\<lambda>(n, x). (n - 1, x)) (view q) \<and> (0 \<in> fst ` set (view q') \<longrightarrow> m)"
    and take_none: "ok q \<Longrightarrow> tak q = None \<Longrightarrow> 0 \<notin> fst ` set (view q)"
    and take_some: "ok q \<Longrightarrow> tak q = Some (t, q') \<Longrightarrow> ok q' \<and> view q = (0, payload t) # view q'"
begin

definition spares :: "'a \<Rightarrow> ('q \<Rightarrow> 'q) \<Rightarrow> bool" where
  "spares x f \<longleftrightarrow> (\<forall>q. ok q \<longrightarrow> ok (f q) \<and> (0 \<in> fst ` set (view (f q)) \<longrightarrow> 0 \<in> fst ` set (view q)) \<and>
     (\<forall>n. (n, x) \<in> set (view q) \<longrightarrow> (n, x) \<in> set (view (f q))))"

text \<open>After \<open>n\<close> counted ticks, with what ran.\<close>

definition tracks :: "'a \<Rightarrow> nat \<Rightarrow> nat \<Rightarrow> 'q \<times> u32 \<times> bool \<times> bool \<Rightarrow> 't list \<Rightarrow> bool" where
  "tracks x d n st rn \<longleftrightarrow> (case st of (q, lost, marked, active) \<Rightarrow>
     ok q \<and> (0 \<in> fst ` set (view q) \<longrightarrow> marked \<or> active) \<and>
     (if x \<in> payload ` set rn then d \<le> n else n \<le> d \<and> (d - n, x) \<in> set (view q)))"

lemma unique:
  assumes "ok q" "(a, x) \<in> set (view q)" "(b, x) \<in> set (view q)"
  shows "a = b"
  using ok_distinct[OF assms(1)] assms(2,3) unfolding distinct_map inj_on_def by (metis prod.inject snd_conv)

lemma do_tracks:
  assumes tr: "tracks x d n (q, lost, marked, active) rn" and oth: "\<And>f. e = Tm_other f \<Longrightarrow> spares x f"
  shows "\<exists>k q' lost' m' a' r. timer_do tick tak e (q, lost, marked, active) = ((q', lost', m', a'), r) \<and> k \<le> timer_ticks [e] \<and>
    lost' = lost + of_nat (timer_ticks [e] - k) \<and> tracks x d (n + k) (q', lost', m', a') (rn @ r)"
proof -
  have T: "ok q" "0 \<in> fst ` set (view q) \<Longrightarrow> marked \<or> active"
    "x \<in> payload ` set rn \<Longrightarrow> d \<le> n" "x \<notin> payload ` set rn \<Longrightarrow> n \<le> d \<and> (d - n, x) \<in> set (view q)"
    using tr by (auto simp: tracks_def split: if_splits)
  show ?thesis
  proof (cases e)
    case Tm_tick
    then have one: "timer_ticks [e] = 1" by (simp add: timer_ticks_def)
    show ?thesis
    proof (cases "0 \<in> fst ` set (view q)")
      case True
      have "timer_do tick tak e (q, lost, marked, active) = ((q, lost + 1, True, active), [])"
        by (simp add: Tm_tick tick_late[OF T(1) True])
      moreover have "tracks x d (n + 0) (q, lost + 1, True, active) (rn @ [])" using T by (simp add: tracks_def)
      ultimately show ?thesis using one by (intro exI[of _ 0]) auto
    next
      case False
      obtain q' m where t: "tick q lost = (q', lost, m)" "ok q'" "view q' = map (\<lambda>(n, x). (n - 1, x)) (view q)"
        "0 \<in> fst ` set (view q') \<longrightarrow> m" using tick_view[OF T(1) False] by blast
      have "timer_do tick tak e (q, lost, marked, active) = ((q', lost, marked \<or> m, active), [])"
        by (simp add: Tm_tick t(1))
      moreover have "n + 1 \<le> d \<and> (d - (n + 1), x) \<in> set (view q')" if "x \<notin> payload ` set rn"
      proof -
        have m: "n \<le> d" "(d - n, x) \<in> set (view q)" using T(4)[OF that] by auto
        then have "d - n \<noteq> 0" using False by force
        moreover have "(d - n - 1, x) \<in> set (view q')" using m(2) unfolding t(3) by force
        ultimately show ?thesis using m(1) by simp
      qed
      then have "tracks x d (n + 1) (q', lost, marked \<or> m, active) (rn @ [])" using T t(2,4) by (auto simp: tracks_def)
      ultimately show ?thesis using one by (intro exI[of _ 1]) auto
    qed
  next
    case (Tm_other f)
    have "spares x f" by (rule oth[OF Tm_other])
    then have "tracks x d (n + 0) (f q, lost, marked, active) (rn @ [])" using T by (auto simp: tracks_def spares_def)
    then show ?thesis by (intro exI[of _ 0]) (auto simp: Tm_other timer_ticks_def)
  next
    case Tm_bh
    have nt: "timer_ticks [e] = 0" by (simp add: Tm_bh timer_ticks_def)
    show ?thesis
    proof (cases active)
      case False
      then have "tracks x d (n + 0) (q, lost, False, marked) (rn @ [])" using T by (auto simp: tracks_def)
      then show ?thesis using False nt by (intro exI[of _ 0]) (auto simp: Tm_bh)
    next
      case True
      show ?thesis
      proof (cases "tak q")
        case None
        have "tracks x d (n + 0) (q, lost, marked, False) (rn @ [])" using T take_none[OF T(1) None] by (auto simp: tracks_def)
        then show ?thesis using True None nt by (intro exI[of _ 0]) (auto simp: Tm_bh)
      next
        case (Some r)
        obtain t q' where r: "r = (t, q')" by (cases r)
        have v: "ok q'" "view q = (0, payload t) # view q'" using take_some[OF T(1)] Some r by auto
        have "tracks x d (n + 0) (q', lost, marked, True) (rn @ [t])"
        proof (cases "x \<in> payload ` set rn")
          case False
          then have m: "n \<le> d" "(d - n, x) \<in> set (view q)" using T(4) by auto
          have "x = payload t \<Longrightarrow> d - n = 0" using unique[OF T(1) m(2), of 0] v(2) by auto
          then show ?thesis using m v False by (auto simp: tracks_def)
        qed (use T v in \<open>auto simp: tracks_def\<close>)
        then show ?thesis using True Some r nt by (intro exI[of _ 0]) (auto simp: Tm_bh)
      qed
    qed
  qed
qed

lemma run_tracks:
  assumes "tracks x d n st rn" "\<And>f. Tm_other f \<in> set es \<Longrightarrow> spares x f"
  shows "\<exists>k q' lost' m' a' r. timer_run tick tak es st = ((q', lost', m', a'), r) \<and> k \<le> timer_ticks es \<and>
    lost' = fst (snd st) + of_nat (timer_ticks es - k) \<and> tracks x d (n + k) (q', lost', m', a') (rn @ r)"
  using assms
proof (induction es arbitrary: n st rn)
  case Nil
  then show ?case by (cases st) (auto simp: timer_ticks_def intro!: exI[of _ 0])
next
  case (Cons e es)
  obtain q lost m a where st: "st = (q, lost, m, a)" by (cases st)
  have "\<And>f. e = Tm_other f \<Longrightarrow> spares x f" using Cons.prems(2) by auto
  from do_tracks[OF Cons.prems(1)[unfolded st] this] obtain k1 q1 l1 m1 a1 r1 where s1:
    "timer_do tick tak e st = ((q1, l1, m1, a1), r1)" "k1 \<le> timer_ticks [e]" "l1 = lost + of_nat (timer_ticks [e] - k1)"
    "tracks x d (n + k1) (q1, l1, m1, a1) (rn @ r1)" unfolding st by blast
  have "\<And>f. Tm_other f \<in> set es \<Longrightarrow> spares x f" using Cons.prems(2) by auto
  from Cons.IH[OF s1(4) this] obtain k2 q2 l2 m2 a2 r2 where s2:
    "timer_run tick tak es (q1, l1, m1, a1) = ((q2, l2, m2, a2), r2)" "k2 \<le> timer_ticks es" "l2 = l1 + of_nat (timer_ticks es - k2)"
    "tracks x d (n + k1 + k2) (q2, l2, m2, a2) (rn @ r1 @ r2)" by auto
  have tk: "timer_ticks (e # es) = timer_ticks [e] + timer_ticks es" by (simp add: timer_ticks_def)
  have "timer_ticks (e # es) - (k1 + k2) = (timer_ticks [e] - k1) + (timer_ticks es - k2)" using s1(2) s2(2) tk by simp
  then have "l2 = lost + of_nat (timer_ticks (e # es) - (k1 + k2))" using s1(3) s2(3) by (simp add: algebra_simps)
  then show ?case using s1 s2 tk by (intro exI[of _ "k1 + k2"]) (auto simp: st add.assoc)
qed

lemma on_time:
  assumes "ok q" "0 \<notin> fst ` set (view q) \<or> marked \<or> active" "(d, x) \<in> set (view q)" "\<And>f. Tm_other f \<in> set es \<Longrightarrow> spares x f"
    "timer_ticks es < 2 ^ 32" "timer_run tick tak es (q, lost, marked, active) = ((q', lost', marked', active'), rn)"
    "n = timer_ticks es - unat (lost' - lost)"
  shows "(x \<in> payload ` set rn \<longrightarrow> d \<le> n) \<and> (x \<notin> payload ` set rn \<longrightarrow> n \<le> d \<and> (d - n, x) \<in> set (view q')) \<and>
    (\<not> marked' \<and> \<not> active' \<longrightarrow> (x \<in> payload ` set rn \<longleftrightarrow> d \<le> n))"
proof -
  have "tracks x d 0 (q, lost, marked, active) []" using assms(1-3) by (auto simp: tracks_def)
  from run_tracks[OF this assms(4), where es = es]
  obtain k where k: "k \<le> timer_ticks es" "lost' = lost + of_nat (timer_ticks es - k)"
    "tracks x d k (q', lost', marked', active') rn" unfolding assms(6) by auto
  have "unat (of_nat (timer_ticks es - k) :: u32) = timer_ticks es - k"
    using assms(5) by (simp add: unsigned_of_nat take_bit_nat_eq_self)
  then have "k = n" using k(1,2) assms(7) by simp
  moreover have "0 < d - n" if "0 \<notin> fst ` set (view q')" "(d - n, x) \<in> set (view q')" using that by force
  ultimately show ?thesis using k(3) by (auto simp: tracks_def split: if_splits)
qed

end

section \<open>The timer list is such a queue\<close>

lemma tick_deadlines:
  assumes "\<forall>d\<in>set (deadlines 0 ls). 0 < fst d"
  shows "deadlines 0 (fst (timer_tick ls e)) = map (\<lambda>(n, x). (n - 1, x)) (deadlines 0 ls)"
proof (cases ls)
  case (Cons p ps)
  then have nz: "tl_expires p \<noteq> 0" using assms by (auto simp: unat_gt_0)
  then have "0 < unat (tl_expires p)" by (simp add: unat_gt_0)
  then have u: "unat (tl_expires p) = unat (tl_expires p - 1) + 1" using nz by (simp add: unat_minus_one)
  show ?thesis using Cons nz deadlines_shift[of "unat (tl_expires p - 1)" 1 ps] u
    by (simp add: timer_tick_def dl_def case_prod_unfold comp_def)
qed (simp add: timer_tick_def)

definition timer_view :: "timer_list \<Rightarrow> nat \<times> u32 \<times> u32" where
  "timer_view p = (tl_id p, tl_function p, tl_data p)"

text \<open>A timer is due exactly when the first one is.\<close>

lemma due_first: "0 \<in> fst ` set (deadlines 0 ls) \<longleftrightarrow> (case ls of [] \<Rightarrow> False | p # _ \<Rightarrow> tl_expires p = 0)"
proof (cases ls)
  case (Cons p ps)
  have "0 \<notin> fst ` set (deadlines n ps)" if "0 < n" for n using that deadlines_ge[of _ n ps] by fastforce
  then have "0 \<notin> fst ` set (deadlines (unat (tl_expires p)) ps)" if "tl_expires p \<noteq> 0" using that by (simp add: unat_gt_0)
  then show ?thesis using Cons by (cases "tl_expires p = 0") (simp_all add: unat_eq_zero)
qed simp

lemma tick_ok: "timers_ok ls \<Longrightarrow> timers_ok (fst (timer_tick ls l))"
  by (cases ls) (auto simp: timers_ok_def timer_tick_def unat_minus_one)

interpretation tq: deadline_queue "deadlines 0" timer_view timer_tick take_timer timers_ok
proof
  fix ls ls' :: "timer_list list" and l and t :: timer_list
  assume ok: "timers_ok ls"
  show "distinct (map snd (deadlines 0 ls))"
  proof -
    have "distinct (map fst (map snd (deadlines 0 ls)))" using ok ids_deadlines[of 0 ls] by (simp add: timers_ok_def)
    then show ?thesis by (auto simp: distinct_map dest: inj_on_imageI2)
  qed
  show "timer_tick ls l = (ls, l + 1, True)" if "0 \<in> fst ` set (deadlines 0 ls)"
    using that unfolding due_first by (cases ls) (simp_all add: timer_tick_def)
  show "\<exists>q' m. timer_tick ls l = (q', l, m) \<and> timers_ok q' \<and> deadlines 0 q' = map (\<lambda>(n, x). (n - 1, x)) (deadlines 0 ls) \<and>
      (0 \<in> fst ` set (deadlines 0 q') \<longrightarrow> m)" if late: "0 \<notin> fst ` set (deadlines 0 ls)"
  proof -
    have "\<forall>d\<in>set (deadlines 0 ls). 0 < fst d" using late by force
    note D = tick_deadlines[OF this, of l] tick_ok[OF ok, of l]
    have f: "fst (snd (timer_tick ls l)) = l" "0 \<in> fst ` set (deadlines 0 (fst (timer_tick ls l))) \<longrightarrow> snd (snd (timer_tick ls l))"
      using late unfolding due_first by (cases ls; simp add: timer_tick_def)+
    show ?thesis using D f by (cases "timer_tick ls l") auto
  qed
  show "0 \<notin> fst ` set (deadlines 0 ls)" if "take_timer ls = None"
    using that unfolding due_first by (auto simp: take_timer_def split: list.splits if_splits)
  show "timers_ok ls' \<and> deadlines 0 ls = (0, timer_view t) # deadlines 0 ls'" if "take_timer ls = Some (t, ls')"
    using that ok by (auto simp: take_timer_def timers_ok_def timer_view_def dl_def split: list.splits if_splits)
qed

section \<open>The bottom half ends\<close>

definition due :: "timer_list list \<Rightarrow> nat" where
  "due ls = length (takeWhile (\<lambda>p. tl_expires p = 0) ls)"

lemma run_timers_ends:
  assumes fn: "\<And>p ps. due (fn p ps) \<le> due ps"
  shows "\<exists>ls' rn'. run_timers fn ls rn = Some (ls', rn') \<and> due ls' = 0"
proof (induction "due ls" arbitrary: ls rn rule: less_induct)
  case less
  show ?case
  proof (cases ls)
    case Nil
    then show ?thesis by (simp add: run_timers.simps take_timer_def due_def)
  next
    case (Cons p ps)
    show ?thesis
    proof (cases "tl_expires p = 0")
      case True
      then have "due (fn p ps) < due ls" using fn[of p ps] Cons by (simp add: due_def)
      moreover have "run_timers fn ls rn = run_timers fn (fn p ps) (rn @ [p])"
        using Cons True by (subst run_timers.simps) (simp add: take_timer_def)
      ultimately show ?thesis using less[of "fn p ps" "rn @ [p]"] by simp
    next
      case False
      then show ?thesis using Cons by (simp add: run_timers.simps take_timer_def due_def)
    qed
  qed
qed

lemma due_add: "tl_expires t \<noteq> 0 \<Longrightarrow> due (add_timer_loop t ls) \<le> due ls"
  by (induction t ls rule: add_timer_loop.induct) (auto simp: due_def)

definition still :: "nat \<Rightarrow> u32 \<times> u32 list \<Rightarrow> u32 \<times> u32 list" where
  "still i st = st"

lemma power_bit_and: "2 ^ i AND (a :: u32) = 0 \<longleftrightarrow> \<not> bit a i"
  by (simp add: bit_iff_and_push_bit_not_eq_0 and.commute)

lemma no_high_bits:
  assumes "push_bit i (1 :: u32) > a" "i < 32" "i \<le> j"
  shows "\<not> bit a j"
proof
  assume b: "bit a j"
  then have j: "j < 32" using bit_imp_le_length by fastforce
  have "odd (unat a div 2 ^ j)" using b by (simp add: bit_unsigned_iff flip: bit_iff_odd)
  then have "2 ^ j \<le> unat a" by (cases "unat a < 2 ^ j") auto
  moreover have "unat (push_bit i (1 :: u32)) = 2 ^ i"
  proof -
    have "unat (word_of_nat (2 ^ i) :: u32) = 2 ^ i"
      using assms(2) by (simp only: unsigned_of_nat) (simp add: take_bit_nat_eq_self)
    then show ?thesis by simp
  qed
  moreover have "unat a < unat (push_bit i (1 :: u32))" using assms(1) by (simp add: word_less_nat_alt)
  ultimately have "(2::nat) ^ j < 2 ^ i" by linarith
  then show False using assms(3) by simp
qed

lemma table_loop_still:
  "length tbl = 32 \<Longrightarrow>
   (case table_loop still jiffies i (a, tbl) rn of ((a', tbl'), rn') \<Rightarrow>
      tbl' = tbl \<and> rn' = rn @ filter (\<lambda>j. bit a j \<and> tbl ! j \<le> jiffies) [i..<32] \<and>
      (\<forall>j. bit a' j \<longleftrightarrow> bit a j \<and> \<not> (i \<le> j \<and> tbl ! j \<le> jiffies)))"
proof (induction "32 - i" arbitrary: i a rn)
  case 0
  then have i: "32 \<le> i" by simp
  have "\<not> bit a j" if "i \<le> j" for j using that i bit_imp_le_length[of a j] by fastforce
  then show ?case using i by (subst table_loop.simps) auto
next
  case (Suc n)
  then have i: "i < 32" "n = 32 - Suc i" by simp_all
  let ?m = "push_bit i (1 :: u32)"
  have up: "[i..<32] = i # [Suc i..<32]" using i(1) by (rule upt_conv_Cons)
  note IH = Suc.hyps(1)[OF i(2) Suc.prems]
  consider "?m > a" | "\<not> ?m > a" "\<not> bit a i" | "\<not> ?m > a" "bit a i" "tbl ! i > jiffies" | "\<not> ?m > a" "bit a i" "\<not> tbl ! i > jiffies"
    by blast
  then show ?case
  proof cases
    case 1
    then have n: "\<And>j. i \<le> j \<Longrightarrow> \<not> bit a j" using no_high_bits i by blast
    then have "filter (\<lambda>j. bit a j \<and> tbl ! j \<le> jiffies) [i..<32] = []" by (simp add: filter_empty_conv)
    moreover have "table_loop still jiffies i (a, tbl) rn = ((a, tbl), rn)"
      using 1 i by (subst table_loop.simps) (simp add: Let_def)
    ultimately show ?thesis using n by auto
  next
    case 2
    have e: "table_loop still jiffies i (a, tbl) rn = table_loop still jiffies (Suc i) (a, tbl) rn"
      using 2 i by (subst table_loop.simps) (simp add: Let_def power_bit_and)
    have h: "filter (\<lambda>j. bit a j \<and> tbl ! j \<le> jiffies) [i..<32] = filter (\<lambda>j. bit a j \<and> tbl ! j \<le> jiffies) [Suc i..<32]"
      using 2 up by simp
    have g: "bit a j \<and> \<not> (Suc i \<le> j \<and> tbl ! j \<le> jiffies) \<longleftrightarrow> bit a j \<and> \<not> (i \<le> j \<and> tbl ! j \<le> jiffies)" for j
      using 2(2) by (metis Suc_leI le_neq_implies_less Suc_leD)
    show ?thesis unfolding e h using IH[where a = a and rn = rn] unfolding g by simp
  next
    case 3
    have e: "table_loop still jiffies i (a, tbl) rn = table_loop still jiffies (Suc i) (a, tbl) rn"
      using 3 i by (subst table_loop.simps) (simp add: Let_def power_bit_and)
    have h: "filter (\<lambda>j. bit a j \<and> tbl ! j \<le> jiffies) [i..<32] = filter (\<lambda>j. bit a j \<and> tbl ! j \<le> jiffies) [Suc i..<32]"
      using 3 up by simp
    have g: "bit a j \<and> \<not> (Suc i \<le> j \<and> tbl ! j \<le> jiffies) \<longleftrightarrow> bit a j \<and> \<not> (i \<le> j \<and> tbl ! j \<le> jiffies)" for j
      using 3(3) by (metis Suc_leI le_neq_implies_less Suc_leD linorder_not_le)
    show ?thesis unfolding e h using IH[where a = a and rn = rn] unfolding g by simp
  next
    case 4
    let ?a = "a AND NOT (2 ^ i)"
    have b: "bit ?a j \<longleftrightarrow> bit a j \<and> j \<noteq> i" for j
      using i by (auto simp: bit_simps dest: bit_imp_le_length)
    have e: "table_loop still jiffies i (a, tbl) rn = table_loop still jiffies (Suc i) (?a, tbl) (rn @ [i])"
      using 4 i by (subst table_loop.simps) (simp add: Let_def power_bit_and still_def)
    have f: "filter (\<lambda>j. bit ?a j \<and> tbl ! j \<le> jiffies) [Suc i..<32] = filter (\<lambda>j. bit a j \<and> tbl ! j \<le> jiffies) [Suc i..<32]"
      by (rule filter_cong) (auto simp: b)
    have g: "bit ?a j \<and> \<not> (Suc i \<le> j \<and> tbl ! j \<le> jiffies) \<longleftrightarrow> bit a j \<and> \<not> (i \<le> j \<and> tbl ! j \<le> jiffies)" for j
      using 4(3) unfolding b by (metis Suc_leI le_neq_implies_less Suc_leD linorder_not_le)
    have h: "filter (\<lambda>j. bit a j \<and> tbl ! j \<le> jiffies) [i..<32] = i # filter (\<lambda>j. bit a j \<and> tbl ! j \<le> jiffies) [Suc i..<32]"
      using 4 up by simp
    show ?thesis unfolding e h using IH[where a = ?a and rn = "rn @ [i]"] unfolding f g by (simp split: prod.splits)
  qed
qed

section \<open>Properties\<close>

lemma deadlines_inj: "deadlines n xs = deadlines n ys \<Longrightarrow> xs = ys"
proof (induction xs arbitrary: n ys)
  case Nil
  then show ?case by (cases ys) auto
next
  case (Cons x xs)
  then obtain y ys' where y: "ys = y # ys'" by (cases ys) auto
  then have "unat (tl_expires x) = unat (tl_expires y)" "tl_id x = tl_id y" "tl_function x = tl_function y" "tl_data x = tl_data y"
    using Cons.prems by (auto simp: dl_def)
  then have "x = y" by (simp add: word_unat_eq_iff)
  then show ?case using Cons y by auto
qed

text \<open>
  C24. The list of ticks left refines a queue of absolute deadlines: \<^verbatim>\<open>add_timer\<close> inserts the new
  timer at its own deadline, behind the timers due no later, and moves no other deadline.
\<close>

theorem add_timer_deadline:
  "deadlines 0 (add_timer (Some t) ls) = insert_deadline (unat (tl_expires t), timer_view t) (deadlines 0 ls) \<and>
   sorted (map fst (deadlines 0 (add_timer (Some t) ls)))"
  using sorted_deadlines[of 0 "add_timer_loop t ls"]
  by (simp add: add_timer_def add_timer_refines dl_def timer_view_def)

text \<open>
  \<^verbatim>\<open>del_timer\<close> undoes \<^verbatim>\<open>add_timer\<close>: the list is as before and the structure has the ticks it
  was added with, wherever it stood in the list.
\<close>

lemma add_del_timer:
  assumes "timers_ok ls" "tl_id t \<notin> tl_id ` set ls"
  shows "del_timer (tl_id t) (add_timer (Some t) ls) = Some (t, ls)"
proof -
  let ?a = "add_timer_loop t ls" and ?d = "dl (unat (tl_expires t)) t"
  have ok: "timers_ok ?a" by (rule timers_ok_add[OF assms])
  have r: "deadlines 0 ?a = insert_deadline ?d (deadlines 0 ls)" using add_timer_refines[of 0] by simp
  have ids: "(fst \<circ> snd) ` set (deadlines 0 xs) = tl_id ` set xs" for xs
    using ids_deadlines[of 0 xs] by (metis list.set_map)
  have "tl_id t \<in> (fst \<circ> snd) ` set (deadlines 0 ?a)" unfolding r set_insert_deadline by (simp add: dl_def)
  then have "del_timer_loop (tl_id t) 0 ?a \<noteq> None" unfolding del_timer_None ids by simp
  then obtain u ls' where d: "del_timer_loop (tl_id t) 0 ?a = Some (u, ls')" by auto
  have R: "deadlines 0 ls' = filter (\<lambda>d. fst (snd d) \<noteq> tl_id t) (deadlines 0 ?a)"
    "dl (unat (tl_expires u)) u \<in> set (deadlines 0 ?a)" "tl_id u = tl_id t"
    using del_timer_refines[OF d, of 0] ok by (simp_all add: timers_ok_def)
  have keep: "\<forall>d\<in>set (deadlines 0 ls). fst (snd d) \<noteq> tl_id t" using ids[of ls] assms(2) by force
  have "filter (\<lambda>d. fst (snd d) \<noteq> tl_id t) (insert_deadline ?d ds) = ds"
    if "\<forall>d\<in>set ds. fst (snd d) \<noteq> tl_id t" for ds
    using that by (induction ds) (simp_all add: dl_def)
  then have "ls' = ls" using keep R(1) deadlines_inj unfolding r by metis
  moreover have "dl (unat (tl_expires u)) u = ?d"
    using R(2,3) keep unfolding r set_insert_deadline by (auto simp: dl_def)
  then have "u = t" by (simp add: dl_def word_unat_eq_iff)
  ultimately show ?thesis using d by (simp add: del_timer_def add_timer_def)
qed

definition example_timer :: "nat \<Rightarrow> u32 \<Rightarrow> timer_list" where
  "example_timer i e = \<lparr>tl_id = i, tl_expires = e, tl_data = 0, tl_function = 0\<rparr>"

theorem add_del_timer_witness:
  "del_timer 3 (add_timer (Some (example_timer 3 7)) [example_timer 1 5, example_timer 2 10]) =
     Some (example_timer 3 7, [example_timer 1 5, example_timer 2 10])"
  using add_del_timer[of "[example_timer 1 5, example_timer 2 10]" "example_timer 3 7"]
  by (simp add: timers_ok_def example_timer_def)

text \<open>What the rest of the kernel may do to the list while timer \<open>x\<close> is pending.\<close>

definition spares_timer :: "nat \<times> u32 \<times> u32 \<Rightarrow> (timer_list list \<Rightarrow> timer_list list) \<Rightarrow> bool" where
  "spares_timer x f \<longleftrightarrow> (\<forall>ls. timers_ok ls \<longrightarrow> timers_ok (f ls) \<and> (due ls = 0 \<longrightarrow> due (f ls) = 0) \<and>
     (\<forall>n. (n, x) \<in> set (deadlines 0 ls) \<longrightarrow> (n, x) \<in> set (deadlines 0 (f ls))))"

lemma due_zero: "due ls = 0 \<longleftrightarrow> 0 \<notin> fst ` set (deadlines 0 ls)"
  unfolding due_first by (cases ls) (simp_all add: due_def)

lemma spares_eq: "spares_timer x f = tq.spares x f"
  by (auto simp: spares_timer_def tq.spares_def due_zero)

text \<open>Adding a timer that is not in the list and not due at once, and removing another one.\<close>

lemma spares_add:
  assumes "tl_expires t \<noteq> 0"
  shows "spares_timer x (\<lambda>ls. if tl_id t \<in> tl_id ` set ls then ls else add_timer (Some t) ls)"
proof -
  have "due (add_timer_loop t ls) = 0" if "due ls = 0" for ls using due_add[OF assms, of ls] that by simp
  moreover have "(n, x) \<in> set (deadlines 0 (add_timer_loop t ls))" if "(n, x) \<in> set (deadlines 0 ls)" for n ls
    using that by (simp add: add_timer_refines set_insert_deadline)
  ultimately show ?thesis using timers_ok_add by (simp add: spares_timer_def add_timer_def)
qed

lemma spares_del:
  assumes "i \<noteq> fst x"
  shows "spares_timer x (\<lambda>ls. case del_timer i ls of None \<Rightarrow> ls | Some (t, ls') \<Rightarrow> ls')"
  unfolding spares_timer_def
proof (intro allI impI)
  fix ls assume ok: "timers_ok ls"
  show "timers_ok (case del_timer i ls of None \<Rightarrow> ls | Some (t, ls') \<Rightarrow> ls') \<and>
      (due ls = 0 \<longrightarrow> due (case del_timer i ls of None \<Rightarrow> ls | Some (t, ls') \<Rightarrow> ls') = 0) \<and>
      (\<forall>n. (n, x) \<in> set (deadlines 0 ls) \<longrightarrow> (n, x) \<in> set (deadlines 0 (case del_timer i ls of None \<Rightarrow> ls | Some (t, ls') \<Rightarrow> ls')))"
  proof (cases "del_timer i ls")
    case (Some r)
    obtain t ls' where r: "r = (t, ls')" by (cases r)
    have D: "deadlines 0 ls' = filter (\<lambda>d. fst (snd d) \<noteq> i) (deadlines 0 ls)" "total ls' \<le> total ls"
      using del_timer_refines[of i 0 ls t ls' 0] Some ok by (auto simp: r del_timer_def timers_ok_def)
    have "map tl_id ls' = map (fst \<circ> snd) (filter (\<lambda>d. fst (snd d) \<noteq> i) (deadlines 0 ls))" using D(1) ids_deadlines[of 0 ls'] by simp
    then have "distinct (map tl_id ls')" using ok ids_deadlines[of 0 ls] by (metis distinct_map_filter timers_ok_def)
    then show ?thesis using Some r D ok assms by (auto simp: timers_ok_def due_zero)
  qed (use ok in simp)
qed

text \<open>
  C9. Timers run on time. In any interleaving of clock ticks, steps of the timer bottom half and changes
  to the list that leave timer \<open>x\<close> alone and make no timer due at once, with \<open>n\<close> the ticks that came less
  those counted as lost: timer \<open>x\<close> with \<open>d\<close> ticks to go has not run when \<open>n < d\<close>, and is then \<open>n\<close> ticks nearer;
  and it has run when \<open>d \<le> n\<close> and the bottom half is neither marked nor running. A tick is lost exactly
  when it finds a timer due, whose bottom half has not run yet; that many ticks timers can be late.
\<close>

theorem timers_on_time:
  assumes "timers_ok ls" "due ls = 0 \<or> marked \<or> active" "(d, x) \<in> set (deadlines 0 ls)"
    "\<forall>f. Tm_other f \<in> set es \<longrightarrow> spares_timer x f" "timer_ticks es < 2 ^ 32"
    "timer_run timer_tick take_timer es (ls, lost, marked, active) = ((ls', lost', marked', active'), rn)"
    "n = timer_ticks es - unat (lost' - lost)"
  shows "(x \<in> timer_view ` set rn \<longrightarrow> d \<le> n) \<and>
    (x \<notin> timer_view ` set rn \<longrightarrow> n \<le> d \<and> (d - n, x) \<in> set (deadlines 0 ls')) \<and>
    (\<not> marked' \<and> \<not> active' \<longrightarrow> (x \<in> timer_view ` set rn \<longleftrightarrow> d \<le> n))"
  by (rule tq.on_time) (use assms in \<open>auto simp: due_zero spares_eq\<close>)

theorem timers_on_time_witness:
  "\<exists>ls' lost' rn. timer_run timer_tick take_timer ([Tm_tick, Tm_tick, Tm_tick, Tm_bh, Tm_bh, Tm_bh, Tm_tick, Tm_bh, Tm_bh, Tm_bh] :: timer_list list timer_event list)
      ([example_timer 1 2, example_timer 2 1], 0, False, False) = ((ls', lost', False, False), rn) \<and>
    lost' = 1 \<and> (2, 0, 0) \<in> timer_view ` set rn"
proof -
  let ?es = "[Tm_tick, Tm_tick, Tm_tick, Tm_bh, Tm_bh, Tm_bh, Tm_tick, Tm_bh, Tm_bh, Tm_bh] :: timer_list list timer_event list"
  let ?ls = "[example_timer 1 2, example_timer 2 1]"
  have r: "timer_run timer_tick take_timer ?es (?ls, 0, False, False) = (([], 1, False, False), [example_timer 1 0, example_timer 2 0])"
    by (simp add: timer_tick_def take_timer_def example_timer_def)
  have "(3, 2, 0, 0) \<in> set (deadlines 0 ?ls)" "timers_ok ?ls" "due ?ls = 0"
    by (simp_all add: example_timer_def dl_def timers_ok_def due_def)
  from timers_on_time[OF this(2) _ this(1) _ _ r refl] this(3) have "(2, 0, 0) \<in> timer_view ` set [example_timer 1 0, example_timer 2 0]"
    by (simp add: timer_ticks_def)
  then show ?thesis using r by blast
qed

text \<open>
  The timer bottom half ends, whatever the functions of the timers add or remove, as long as none
  of them makes more timers due at once; it leaves no timer of the list due. Of the fixed table it runs
  exactly the active entries that have expired, in order, and makes exactly those inactive.
\<close>

lemma timer_bh_ends:
  assumes "\<And>p ps. due (fn p ps) \<le> due ps" "length tbl = 32"
  shows "\<exists>ls' rn a. timer_bh fn still jiffies ls (timer_active, tbl) =
      Some ((ls', rn), (a, tbl), filter (\<lambda>i. bit timer_active i \<and> tbl ! i \<le> jiffies) [0..<32]) \<and>
    due ls' = 0 \<and> (\<forall>i. bit a i \<longleftrightarrow> bit timer_active i \<and> \<not> tbl ! i \<le> jiffies)"
proof -
  obtain ls' rn where r: "run_timers fn ls [] = Some (ls', rn)" "due ls' = 0"
    using run_timers_ends[of fn ls "[]", OF assms(1)] by blast
  obtain a tbl' rn' where t: "table_loop still jiffies 0 (timer_active, tbl) [] = ((a, tbl'), rn')"
    by (cases "table_loop still jiffies 0 (timer_active, tbl) []") auto
  show ?thesis
    using table_loop_still[OF assms(2), where i = 0 and rn = "[]" and a = timer_active and jiffies = jiffies] r t
    by (intro exI[of _ ls'] exI[of _ rn] exI[of _ a]) (simp add: timer_bh_def)
qed

text \<open>A function that arms its own timer again, five ticks later.\<close>

definition rearm :: "timer_list \<Rightarrow> timer_list list \<Rightarrow> timer_list list" where
  "rearm p ps = add_timer (Some (p\<lparr>tl_expires := 5\<rparr>)) ps"

theorem timer_bh_ends_witness:
  "\<exists>ls' rn a. timer_bh rearm still 9 [example_timer 1 0] (3, 9 # replicate 31 10) =
     Some ((ls', rn), (a, 9 # replicate 31 10), [0]) \<and> due ls' = 0 \<and> bit a 1"
proof -
  have d: "\<And>p ps. due (rearm p ps) \<le> due ps" by (simp add: rearm_def add_timer_def due_add)
  have l: "length ((9 :: u32) # replicate 31 10) = 32" by simp
  have b: "bit (3 :: u32) i \<longleftrightarrow> i \<in> {0, 1}" for i by (cases i) (auto simp: bit_numeral_rec bit_1_iff numeral_One split: nat.splits)
  have f: "filter (\<lambda>i. bit (3 :: u32) i \<and> (9 # replicate 31 10) ! i \<le> (9 :: u32)) [0..<32] = [0]"
    unfolding b by (simp add: upt_rec)
  obtain ls' rn a where w: "timer_bh rearm still 9 [example_timer 1 0] (3, 9 # replicate 31 10) =
      Some ((ls', rn), (a, 9 # replicate 31 10), filter (\<lambda>i. bit (3 :: u32) i \<and> (9 # replicate 31 10) ! i \<le> (9 :: u32)) [0..<32])"
    "due ls' = 0" "\<forall>i. bit a i \<longleftrightarrow> bit (3 :: u32) i \<and> \<not> (9 # replicate 31 10) ! i \<le> (9 :: u32)"
    using timer_bh_ends[of rearm, OF d l, of 9 "[example_timer 1 0]" 3] by blast
  have "bit a 1" using w(3) b by simp
  then show ?thesis using w(1,2) unfolding f by blast
qed

end
