(* ===== verification/Wait_Queue.thy ===== *)
theory Wait_Queue
  imports Task
begin

text \<open>
  Wait queues: circular singly linked lists of entries that live on the sleepers' stacks
  (\<^verbatim>\<open>include/linux/sched.h\<close>), and the two wake-up calls that walk them
  (\<^verbatim>\<open>kernel/sched.c\<close>). Entries are addresses in an explicit store; address 0 is \<^verbatim>\<open>NULL\<close>.
\<close>

section \<open>The store\<close>

record wait_queue =
  wq_task :: "nat option"
  wq_next :: nat

type_synonym wq_heap = "nat \<Rightarrow> wait_queue"

definition set_next :: "nat \<Rightarrow> nat \<Rightarrow> wq_heap \<Rightarrow> wq_heap" where
  "set_next a b h = h(a := (h a)\<lparr>wq_next := b\<rparr>)"

section \<open>Adding and removing\<close>

text \<open>\<open>p\<close> is the value of the head pointer; the result holds its new value and the new store.\<close>

definition add_wait_queue :: "nat \<Rightarrow> nat \<Rightarrow> wq_heap \<Rightarrow> nat \<times> wq_heap" where
  "add_wait_queue p wait h =
     (if p = 0 then (wait, set_next wait wait h)
      else (p, set_next p wait (set_next wait (wq_next (h p)) h)))"

text \<open>The loop that finds the predecessor of \<open>wait\<close>; it does not end when \<open>wait\<close> is on no ring.\<close>

partial_function (option) find_prev :: "wq_heap \<Rightarrow> nat \<Rightarrow> nat \<Rightarrow> nat option" where
  "find_prev h wait tmp =
     (if wq_next (h tmp) \<noteq> wait then find_prev h wait (wq_next (h tmp)) else Some tmp)"

definition remove_wait_queue :: "nat \<Rightarrow> nat \<Rightarrow> wq_heap \<Rightarrow> (nat \<times> wq_heap) option" where
  "remove_wait_queue p wait h =
     (let p1 = (if p = wait then wq_next (h wait) else p) in
      if p = wait \<and> p1 = wait then Some (0, set_next wait 0 h)
      else (case find_prev h wait wait of
              None \<Rightarrow> None
            | Some tmp \<Rightarrow> Some (p1, set_next wait 0 (set_next tmp (wq_next (h wait)) h))))"

section \<open>Waking\<close>

text \<open>The state of the walk is the table of tasks and \<^verbatim>\<open>need_resched\<close>.\<close>

definition wake_task :: "(int \<Rightarrow> bool) \<Rightarrow> nat \<Rightarrow> kstate \<times> bool \<Rightarrow> kstate \<times> bool" where
  "wake_task sel i s =
     (case s of (k, need_resched) \<Rightarrow>
        let p = the_task k i in
        if sel (t_state p)
        then (put_task i (p\<lparr>t_state := TASK_RUNNING\<rparr>) k,
              if t_counter p > t_counter (current k) then True else need_resched)
        else (k, need_resched))"

partial_function (option) wake_loop ::
  "(int \<Rightarrow> bool) \<Rightarrow> wq_heap \<Rightarrow> nat \<Rightarrow> nat \<Rightarrow> kstate \<times> bool \<Rightarrow> (kstate \<times> bool) option" where
  "wake_loop sel h q tmp s =
     (let s1 = (case wq_task (h tmp) of None \<Rightarrow> s | Some i \<Rightarrow> wake_task sel i s) in
      if wq_next (h tmp) = 0 then Some s1
      else if wq_next (h tmp) = q then Some s1
      else wake_loop sel h q (wq_next (h tmp)) s1)"

text \<open>\<open>q\<close> is a pointer to the head, \<^const>\<open>None\<close> for a null pointer.\<close>

definition wake_up :: "nat option \<Rightarrow> wq_heap \<Rightarrow> kstate \<times> bool \<Rightarrow> (kstate \<times> bool) option" where
  "wake_up q h s =
     (case q of
        None \<Rightarrow> Some s
      | Some p \<Rightarrow> if p = 0 then Some s
                  else wake_loop (\<lambda>st. st = TASK_UNINTERRUPTIBLE \<or> st = TASK_INTERRUPTIBLE) h p p s)"

definition wake_up_interruptible :: "nat option \<Rightarrow> wq_heap \<Rightarrow> kstate \<times> bool \<Rightarrow> (kstate \<times> bool) option" where
  "wake_up_interruptible q h s =
     (case q of
        None \<Rightarrow> Some s
      | Some p \<Rightarrow> if p = 0 then Some s
                  else wake_loop (\<lambda>st. st = TASK_INTERRUPTIBLE) h p p s)"

section \<open>Rings\<close>

text \<open>The entries \<open>xs\<close> in the order of the links, from \<open>a\<close> to the entry \<open>b\<close> that follows the last.\<close>

fun chain :: "wq_heap \<Rightarrow> nat \<Rightarrow> nat list \<Rightarrow> nat \<Rightarrow> bool" where
  "chain h a [] b \<longleftrightarrow> a = b"
| "chain h a (x # xs) b \<longleftrightarrow> a = x \<and> x \<noteq> 0 \<and> chain h (wq_next (h x)) xs b"

definition ring :: "wq_heap \<Rightarrow> nat \<Rightarrow> nat list \<Rightarrow> bool" where
  "ring h q xs \<longleftrightarrow> distinct xs \<and> (if q = 0 then xs = [] else xs \<noteq> [] \<and> chain h q xs q)"

lemma wq_next_set_next [simp]:
  "wq_next (set_next a b h x) = (if x = a then b else wq_next (h x))"
  "wq_task (set_next a b h x) = wq_task (h x)"
  by (simp_all add: set_next_def)

lemma chain_append: "chain h a (xs @ ys) b \<longleftrightarrow> (\<exists>c. chain h a xs c \<and> chain h c ys b)"
  by (induction xs arbitrary: a) auto

lemma chain_cong:
  "(\<And>x. x \<in> set xs \<Longrightarrow> wq_next (h' x) = wq_next (h x)) \<Longrightarrow> chain h' a xs b = chain h a xs b"
  by (induction xs arbitrary: a) auto

lemma chain_nonzero: "chain h a xs b \<Longrightarrow> x \<in> set xs \<Longrightarrow> x \<noteq> 0"
  by (induction xs arbitrary: a) auto

lemma ring_hd: "ring h q xs \<Longrightarrow> q \<noteq> 0 \<Longrightarrow> \<exists>ys. xs = q # ys"
  by (cases xs) (auto simp: ring_def)

lemma ring_rotate:
  assumes "ring h q (as @ w # bs)"
  shows "ring h w (w # bs @ as)"
proof -
  have q: "q \<noteq> 0" "distinct (as @ w # bs)" "chain h q (as @ w # bs) q" using assms by (auto simp: ring_def split: if_splits)
  then have "w \<noteq> 0" using chain_nonzero by fastforce
  moreover have "chain h w (w # bs @ as) w" using q(3) by (auto simp: chain_append)
  ultimately show ?thesis using q(2) by (auto simp: ring_def)
qed

text \<open>Adding puts the entry behind the head.\<close>

definition ring_add :: "nat \<Rightarrow> nat list \<Rightarrow> nat list" where
  "ring_add w xs = (case xs of [] \<Rightarrow> [w] | x # ys \<Rightarrow> x # w # ys)"

lemma add_ring:
  assumes "ring h q xs" "w \<noteq> 0" "w \<notin> set xs" "add_wait_queue q w h = (q', h')"
  shows "ring h' q' (ring_add w xs)"
proof (cases "q = 0")
  case True
  then show ?thesis using assms by (auto simp: ring_def add_wait_queue_def ring_add_def)
next
  case False
  then obtain ys where xs: "xs = q # ys" using ring_hd[OF assms(1)] by blast
  have c: "chain h (wq_next (h q)) ys q" "distinct (q # ys)" using assms(1) xs False by (auto simp: ring_def)
  have qh: "q' = q" "h' = set_next q w (set_next w (wq_next (h q)) h)"
    using assms(4) False by (auto simp: add_wait_queue_def)
  have wq: "w \<noteq> q" "w \<notin> set ys" using assms(3) xs by auto
  have "chain h' (wq_next (h q)) ys q = chain h (wq_next (h q)) ys q"
    by (rule chain_cong) (use c(2) wq qh in auto)
  then show ?thesis using c wq assms(2) False qh xs by (auto simp: ring_def ring_add_def)
qed

lemma find_prev_chain:
  assumes "chain h a xs w" "xs \<noteq> []" "w \<notin> set (tl xs)"
  shows "find_prev h w a = Some (last xs)"
  using assms
proof (induction xs arbitrary: a)
  case (Cons x xs)
  show ?case
  proof (cases xs)
    case Nil
    then show ?thesis using Cons.prems by (subst find_prev.simps) simp
  next
    case (Cons y ys)
    then have "wq_next (h x) = y" "y \<noteq> w" "w \<notin> set (tl xs)" "chain h y xs w"
      using \<open>chain h a (x # xs) w\<close> \<open>w \<notin> set (tl (x # xs))\<close> by auto
    then show ?thesis using Cons.IH[of y] Cons Cons.prems by (subst find_prev.simps) simp
  qed
qed simp

lemma chain_relink:
  assumes "chain h a xs w" "xs \<noteq> []" "distinct xs" "x \<notin> set xs"
  shows "chain (set_next x 0 (set_next (last xs) c h)) a xs c"
proof -
  obtain ys l where xs: "xs = ys @ [l]" using assms(2) by (cases xs rule: rev_cases) auto
  obtain d where d: "chain h a ys d" "chain h d [l] w" using assms(1) unfolding xs chain_append by blast
  have "chain (set_next x 0 (set_next l c h)) a ys d = chain h a ys d"
    by (rule chain_cong) (use assms(3,4) xs in auto)
  then show ?thesis unfolding xs chain_append using d assms(4) xs by auto
qed

lemma remove_ring:
  assumes "ring h q xs" "w \<in> set xs"
  shows "\<exists>q' h'. remove_wait_queue q w h = Some (q', h') \<and> ring h' q' (remove1 w xs) \<and>
    wq_next (h' w) = 0 \<and> (\<forall>a. wq_task (h' a) = wq_task (h a)) \<and> (\<forall>a. a \<notin> set xs \<longrightarrow> h' a = h a)"
proof -
  obtain as bs where xs: "xs = as @ w # bs" using assms(2) by (meson split_list)
  have q: "q \<noteq> 0" "distinct xs" "chain h q xs q" using assms by (auto simp: ring_def split: if_splits)
  have rm: "remove1 w xs = as @ bs" using q(2) xs by (simp add: remove1_append)
  have c: "chain h q as w" "w \<noteq> 0" "chain h (wq_next (h w)) bs q" using q(3) xs by (auto simp: chain_append)
  have rot: "chain h w (w # bs @ as) w" using c chain_append by auto
  have wn: "w \<notin> set as" "w \<notin> set bs" using q(2) xs by auto
  have fp: "find_prev h w w = Some (last (w # bs @ as))"
    by (rule find_prev_chain[OF rot]) (use wn in auto)
  let ?l = "last (w # bs @ as)"
  let ?h = "set_next w 0 (set_next ?l (wq_next (h w)) h)"
  have lx: "?l \<in> set xs" using xs last_in_set[of "w # bs @ as"] by auto
  have frame: "?h a = h a" if "a \<notin> set xs" for a using that lx assms(2) by (auto simp: set_next_def)
  show ?thesis
  proof (cases as)
    case Nil
    then have qw: "q = w" using c(1) by simp
    show ?thesis
    proof (cases "bs = []")
      case True
      then have "wq_next (h w) = w" using c(3) qw by simp
      then show ?thesis using qw True Nil rm xs by (simp add: remove_wait_queue_def ring_def set_next_def)
    next
      case False
      then have nw: "wq_next (h w) \<noteq> w" "wq_next (h w) \<noteq> 0" using c(3) wn(2) by (cases bs; auto)+
      have "chain ?h (wq_next (h w)) bs (wq_next (h w))"
        using chain_relink[OF c(3) False _ wn(2)] q(2) xs Nil False by simp
      then have "ring ?h (wq_next (h w)) (remove1 w xs)" unfolding rm using nw False Nil q(2) xs by (simp add: ring_def)
      moreover have "remove_wait_queue q w h = Some (wq_next (h w), ?h)"
        using qw nw fp by (simp add: remove_wait_queue_def Let_def)
      ultimately show ?thesis using frame by (intro exI conjI) auto
    qed
  next
    case (Cons a as')
    then have qa: "q = a" "q \<noteq> w" using c(1) wn(1) by auto
    have l: "?l = last as" using Cons by simp
    have "chain ?h q as (wq_next (h w))"
      unfolding l by (rule chain_relink[OF c(1)]) (use Cons q(2) xs wn in auto)
    moreover have "last as \<notin> set bs" using q(2) xs last_in_set[of as] Cons by auto
    then have "chain ?h (wq_next (h w)) bs q = chain h (wq_next (h w)) bs q"
      unfolding l by (intro chain_cong) (use wn in auto)
    ultimately have "chain ?h q (as @ bs) q" using c(3) chain_append by blast
    moreover have "distinct (as @ bs)" "as @ bs \<noteq> []" using q(2) xs Cons by auto
    ultimately have "ring ?h q (remove1 w xs)" unfolding rm ring_def using q(1) by simp
    moreover have "remove_wait_queue q w h = Some (q, ?h)" using qa fp by (simp add: remove_wait_queue_def Let_def)
    ultimately show ?thesis using frame by (intro exI conjI) auto
  qed
qed

section \<open>The walk of a wake-up\<close>

definition sleepers :: "wq_heap \<Rightarrow> nat list \<Rightarrow> nat list" where
  "sleepers h xs = List.map_filter (\<lambda>a. wq_task (h a)) xs"

lemma sleepers_simps [simp]:
  "sleepers h [] = []"
  "sleepers h (a # as) = (case wq_task (h a) of None \<Rightarrow> sleepers h as | Some i \<Rightarrow> i # sleepers h as)"
  by (simp_all add: sleepers_def List.map_filter_simps split: option.split)

lemma wake_loop_chain:
  assumes "chain h a xs q" "xs \<noteq> []" "q \<notin> set (tl xs)" "q \<noteq> 0"
  shows "wake_loop sel h q a s = Some (fold (wake_task sel) (sleepers h xs) s)"
  using assms
proof (induction xs arbitrary: a s)
  case (Cons x xs)
  show ?case
  proof (cases xs)
    case Nil
    then show ?thesis using Cons.prems by (subst wake_loop.simps) (auto split: option.split)
  next
    case (Cons y ys)
    then have y: "wq_next (h x) = y" "y \<noteq> q" "y \<noteq> 0" "q \<notin> set (tl xs)" "chain h y xs q"
      using \<open>chain h a (x # xs) q\<close> \<open>q \<notin> set (tl (x # xs))\<close> by auto
    then show ?thesis using Cons.IH[of y] Cons Cons.prems
      by (subst wake_loop.simps) (auto simp: Let_def split: option.split)
  qed
qed simp

lemma wake_fold:
  "case fold (wake_task sel) is (k, r) of (k', r') \<Rightarrow>
     (\<forall>i. the_task k' i = (if i \<in> set is \<and> sel (t_state (the_task k i)) then (the_task k i)\<lparr>t_state := TASK_RUNNING\<rparr>
                           else the_task k i)) \<and>
     (r' \<longleftrightarrow> r \<or> (\<exists>i\<in>set is. sel (t_state (the_task k i)) \<and> t_counter (the_task k i) > t_counter (current k))) \<and>
     k_current k' = k_current k \<and> k_ring k' = k_ring k"
  if "\<not> sel TASK_RUNNING"
proof (induction "is" arbitrary: k r)
  case (Cons j js)
  obtain k1 r1 where w: "wake_task sel j (k, r) = (k1, r1)" by (cases "wake_task sel j (k, r)")
  have t: "the_task k1 i = (if i = j \<and> sel (t_state (the_task k j)) then (the_task k j)\<lparr>t_state := TASK_RUNNING\<rparr> else the_task k i)" for i
    using w by (auto simp: wake_task_def Let_def split: if_splits)
  have r: "r1 \<longleftrightarrow> r \<or> sel (t_state (the_task k j)) \<and> t_counter (the_task k j) > t_counter (current k)"
    using w by (auto simp: wake_task_def Let_def split: if_splits)
  have c: "k_current k1 = k_current k" "k_ring k1 = k_ring k" "t_counter (the_task k1 i) = t_counter (the_task k i)" for i
    using w t[of i] by (auto simp: wake_task_def Let_def split: if_splits)
  then have cc: "t_counter (current k1) = t_counter (current k)" by (simp add: current_def)
  have e: "sel (t_state (the_task k1 i)) \<longleftrightarrow> i \<noteq> j \<and> sel (t_state (the_task k i))" for i
    using that t[of i] by auto
  have "(if i \<in> set js \<and> sel (t_state (the_task k1 i)) then (the_task k1 i)\<lparr>t_state := TASK_RUNNING\<rparr> else the_task k1 i) =
      (if i \<in> set (j # js) \<and> sel (t_state (the_task k i)) then (the_task k i)\<lparr>t_state := TASK_RUNNING\<rparr> else the_task k i)" for i
    unfolding e using t[of i] by auto
  moreover have "r1 \<or> (\<exists>i\<in>set js. sel (t_state (the_task k1 i)) \<and> t_counter (the_task k1 i) > t_counter (current k1)) \<longleftrightarrow>
      r \<or> (\<exists>i\<in>set (j # js). sel (t_state (the_task k i)) \<and> t_counter (the_task k i) > t_counter (current k))"
    unfolding e c(3) cc r by auto
  ultimately show ?case using Cons.IH[of k1 r1] w c(1,2) by (simp add: case_prod_unfold)
qed simp

lemma wake_up_fold:
  assumes "ring h q xs"
  shows "wake_up (Some q) h s =
      Some (fold (wake_task (\<lambda>st. st = TASK_UNINTERRUPTIBLE \<or> st = TASK_INTERRUPTIBLE)) (sleepers h xs) s)"
    "wake_up_interruptible (Some q) h s = Some (fold (wake_task (\<lambda>st. st = TASK_INTERRUPTIBLE)) (sleepers h xs) s)"
proof -
  have "q \<noteq> 0 \<Longrightarrow> wake_loop sel h q q s = Some (fold (wake_task sel) (sleepers h xs) s)" for sel
    by (rule wake_loop_chain) (use assms ring_hd[OF assms] in \<open>auto simp: ring_def\<close>)
  moreover have "q = 0 \<Longrightarrow> xs = []" using assms by (simp add: ring_def)
  ultimately show "wake_up (Some q) h s =
      Some (fold (wake_task (\<lambda>st. st = TASK_UNINTERRUPTIBLE \<or> st = TASK_INTERRUPTIBLE)) (sleepers h xs) s)"
    "wake_up_interruptible (Some q) h s = Some (fold (wake_task (\<lambda>st. st = TASK_INTERRUPTIBLE)) (sleepers h xs) s)"
    by (auto simp: wake_up_def wake_up_interruptible_def)
qed

section \<open>Properties\<close>

text \<open>
  C10. The pointer operations implement a list of waiting entries: adding puts the new entry behind
  the head, and removing any entry of the queue then ends and leaves a closed ring of exactly the
  others in their order, without touching entries of other queues.
\<close>

theorem wait_queue_ring:
  assumes "ring h q xs" "w \<noteq> 0" "w \<notin> set xs" "add_wait_queue q w h = (q1, h1)" "v \<in> insert w (set xs)"
  shows "ring h1 q1 (ring_add w xs) \<and>
    (\<exists>q2 h2. remove_wait_queue q1 v h1 = Some (q2, h2) \<and> ring h2 q2 (remove1 v (ring_add w xs)) \<and>
       (\<forall>a. a \<noteq> w \<and> a \<notin> set xs \<longrightarrow> h2 a = h a))"
proof -
  have r: "ring h1 q1 (ring_add w xs)" by (rule add_ring[OF assms(1-4)])
  have s: "set (ring_add w xs) = insert w (set xs)" by (auto simp: ring_add_def split: list.split)
  have f: "a \<noteq> w \<and> a \<notin> set xs \<Longrightarrow> h1 a = h a" for a
    using assms(4) ring_hd[OF assms(1)] by (auto simp: add_wait_queue_def set_next_def split: if_splits)
  obtain q2 h2 where d: "remove_wait_queue q1 v h1 = Some (q2, h2)" "ring h2 q2 (remove1 v (ring_add w xs))"
    "\<forall>a. a \<notin> set (ring_add w xs) \<longrightarrow> h2 a = h1 a"
    using remove_ring[OF r, of v] assms(5) s by auto
  then show ?thesis using r s f by auto
qed

definition example_wq :: wq_heap where
  "example_wq = (\<lambda>_. \<lparr>wq_task = None, wq_next = 0\<rparr>)(4 := \<lparr>wq_task = Some 1, wq_next = 4\<rparr>)"

theorem wait_queue_ring_witness:
  "\<exists>q2 h2. remove_wait_queue 4 4 (snd (add_wait_queue 4 7 example_wq)) = Some (q2, h2) \<and> ring h2 q2 [7]"
proof -
  have r: "ring example_wq 4 [4]" by (simp add: ring_def example_wq_def)
  obtain q1 h1 where a: "add_wait_queue 4 7 example_wq = (q1, h1)" by (cases "add_wait_queue 4 7 example_wq")
  then have "q1 = 4" by (simp add: add_wait_queue_def)
  then show ?thesis using wait_queue_ring[OF r _ _ a, of 4] a by (auto simp: ring_add_def)
qed

text \<open>
  C38. \<^verbatim>\<open>wake_up\<close> walks the whole queue and ends: it makes exactly the tasks that sleep in the queue
  runnable, changes nothing else of the table, and asks for a reschedule exactly when it was asked
  already or one of them has more time left than the running task.
\<close>

theorem wake_up_exact:
  assumes "ring h q xs"
  shows "case wake_up (Some q) h (k, need_resched) of None \<Rightarrow> False | Some (k', r') \<Rightarrow>
    (\<forall>i. the_task k' i =
       (if i \<in> set (sleepers h xs) \<and> t_state (the_task k i) \<in> {TASK_UNINTERRUPTIBLE, TASK_INTERRUPTIBLE}
        then (the_task k i)\<lparr>t_state := TASK_RUNNING\<rparr> else the_task k i)) \<and>
    (r' \<longleftrightarrow> need_resched \<or> (\<exists>i\<in>set (sleepers h xs). t_state (the_task k i) \<in> {TASK_UNINTERRUPTIBLE, TASK_INTERRUPTIBLE} \<and>
       t_counter (the_task k i) > t_counter (current k)))"
  using wake_fold[of "\<lambda>st. st = TASK_UNINTERRUPTIBLE \<or> st = TASK_INTERRUPTIBLE" "sleepers h xs" k need_resched]
  by (simp add: wake_up_fold[OF assms] case_prod_unfold)

theorem wake_up_exact_witness:
  "case wake_up (Some 4) example_wq (put_task 1 (INIT_TASK\<lparr>t_state := TASK_INTERRUPTIBLE, t_counter := 99\<rparr>)
       \<lparr>k_task = (\<lambda>_. Some INIT_TASK), k_ring = [1], k_current = 0, k_woken = []\<rparr>, False) of
     None \<Rightarrow> False | Some (k', r') \<Rightarrow> t_state (the_task k' 1) = TASK_RUNNING \<and> r'"
proof -
  let ?k = "put_task 1 (INIT_TASK\<lparr>t_state := TASK_INTERRUPTIBLE, t_counter := 99\<rparr>)
       \<lparr>k_task = (\<lambda>_. Some INIT_TASK), k_ring = [1], k_current = 0, k_woken = []\<rparr>"
  have r: "ring example_wq 4 [4]" by (simp add: ring_def example_wq_def)
  have s: "sleepers example_wq [4] = [1]" by (simp add: example_wq_def)
  have c: "t_counter (current ?k) = 15" by (simp add: current_def the_task_def INIT_TASK_def)
  show ?thesis using wake_up_exact[OF r, of ?k False] s c
    by (cases "wake_up (Some 4) example_wq (?k, False)") auto
qed

end
