(* ===== verification/Semaphore.thy ===== *)
theory Semaphore
  imports Wait_Queue
begin

text \<open>
  Kernel semaphores: \<^verbatim>\<open>down\<close> and \<^verbatim>\<open>up\<close> (\<^verbatim>\<open>include/linux/sched.h\<close>) with the sleeping part
  \<^verbatim>\<open>__down\<close> (\<^verbatim>\<open>kernel/sched.c\<close>). A task in \<^verbatim>\<open>__down\<close> is split at the points where others
  may run: an interrupt may call \<^verbatim>\<open>up\<close> at any of them.
\<close>

section \<open>State\<close>

text \<open>
  \<open>Before_test\<close>: about to evaluate the condition of the loop. \<open>In_schedule\<close>: in the call of
  \<^verbatim>\<open>schedule\<close> in its body. The entry \<open>wait\<close> on the stack of task \<open>i\<close> has address \<open>Suc i\<close>.
\<close>

datatype down_pc = Outside | Before_test | In_schedule

record sem_state =
  sm_count :: int
  sm_wait :: nat
  sm_heap :: wq_heap
  sm_k :: kstate
  sm_pc :: "nat \<Rightarrow> down_pc"
  sm_downs :: nat
  sm_ups :: nat

definition wait_addr :: "nat \<Rightarrow> nat" where
  "wait_addr i = Suc i"

definition set_tstate :: "nat \<Rightarrow> int \<Rightarrow> kstate \<Rightarrow> kstate" where
  "set_tstate i st k = put_task i ((the_task k i)\<lparr>t_state := st\<rparr>) k"

section \<open>Operations\<close>

text \<open>The last statement of \<^verbatim>\<open>down\<close>.\<close>

definition down_take :: "sem_state \<Rightarrow> sem_state" where
  "down_take s = s\<lparr>sm_count := wrap32 (sm_count s - 1), sm_downs := Suc (sm_downs s)\<rparr>"

definition down :: "nat \<Rightarrow> sem_state \<Rightarrow> sem_state" where
  "down i s =
     (if sm_count s \<le> 0
      then (case add_wait_queue (sm_wait s) (wait_addr i)
                   ((sm_heap s)(wait_addr i := \<lparr>wq_task = Some i, wq_next = 0\<rparr>)) of
              (p, h) \<Rightarrow> s\<lparr>sm_wait := p, sm_heap := h, sm_k := set_tstate i TASK_UNINTERRUPTIBLE (sm_k s),
                         sm_pc := (sm_pc s)(i := Before_test)\<rparr>)
      else down_take s)"

definition down_test :: "nat \<Rightarrow> sem_state \<Rightarrow> sem_state option" where
  "down_test i s =
     (if sm_count s \<le> 0 then Some (s\<lparr>sm_pc := (sm_pc s)(i := In_schedule)\<rparr>)
      else (case remove_wait_queue (sm_wait s) (wait_addr i) (sm_heap s) of
              None \<Rightarrow> None
            | Some (p, h) \<Rightarrow>
                Some (down_take (s\<lparr>sm_wait := p, sm_heap := h, sm_k := set_tstate i TASK_RUNNING (sm_k s),
                                   sm_pc := (sm_pc s)(i := Outside)\<rparr>))))"

definition down_resume :: "nat \<Rightarrow> sem_state \<Rightarrow> sem_state" where
  "down_resume i s =
     s\<lparr>sm_k := set_tstate i TASK_UNINTERRUPTIBLE (sm_k s), sm_pc := (sm_pc s)(i := Before_test)\<rparr>"

definition up :: "sem_state \<Rightarrow> sem_state option" where
  "up s =
     (let s1 = s\<lparr>sm_count := wrap32 (sm_count s + 1), sm_ups := Suc (sm_ups s)\<rparr> in
      case wake_up (Some (sm_wait s1)) (sm_heap s1) (sm_k s1, False) of
        None \<Rightarrow> None
      | Some (k, _) \<Rightarrow> Some (s1\<lparr>sm_k := k\<rparr>))"

text \<open>
  A task leaves \<^verbatim>\<open>schedule\<close> only when it is runnable. \<^verbatim>\<open>count\<close> is an \<^verbatim>\<open>int\<close>: a caller
  that performs \<open>2\<^sup>3\<^sup>1\<close> more \<^verbatim>\<open>up\<close> than \<^verbatim>\<open>down\<close> is outside of the model.
\<close>

inductive sem_step :: "sem_state \<Rightarrow> sem_state \<Rightarrow> bool" where
  sem_down: "sm_pc s i = Outside \<Longrightarrow> sem_step s (down i s)"
| sem_test: "sm_pc s i = Before_test \<Longrightarrow> down_test i s = Some s' \<Longrightarrow> sem_step s s'"
| sem_resume: "sm_pc s i = In_schedule \<Longrightarrow> t_state (the_task (sm_k s) i) = TASK_RUNNING \<Longrightarrow> sem_step s (down_resume i s)"
| sem_up: "sm_count s < 2 ^ 31 - 1 \<Longrightarrow> up s = Some s' \<Longrightarrow> sem_step s s'"

inductive_cases sem_stepE: "sem_step s s'"

text \<open>A semaphore with \<open>n\<close> units and nobody waiting.\<close>

definition sem_init :: "int \<Rightarrow> sem_state \<Rightarrow> bool" where
  "sem_init n s \<longleftrightarrow> 0 \<le> n \<and> n < 2 ^ 31 \<and> sm_count s = n \<and> sm_wait s = 0 \<and> sm_downs s = 0 \<and> sm_ups s = 0 \<and>
     (\<forall>i. sm_pc s i = Outside)"

section \<open>Invariant\<close>

definition sem_queue_ok :: "sem_state \<Rightarrow> bool" where
  "sem_queue_ok s \<longleftrightarrow> (\<exists>xs. ring (sm_heap s) (sm_wait s) xs \<and> set xs = wait_addr ` {i. sm_pc s i \<noteq> Outside} \<and>
     (\<forall>i. sm_pc s i \<noteq> Outside \<longrightarrow> wq_task (sm_heap s (wait_addr i)) = Some i))"

definition sem_inv :: "int \<Rightarrow> sem_state \<Rightarrow> bool" where
  "sem_inv n s \<longleftrightarrow> sem_queue_ok s \<and> 0 \<le> sm_count s \<and> sm_count s < 2 ^ 31 \<and>
     sm_count s + int (sm_downs s) = n + int (sm_ups s) \<and>
     (\<forall>i. sm_pc s i \<noteq> Outside \<longrightarrow> t_state (the_task (sm_k s) i) \<in> {TASK_UNINTERRUPTIBLE, TASK_RUNNING}) \<and>
     (\<forall>i. sm_pc s i = In_schedule \<longrightarrow> 0 < sm_count s \<longrightarrow> t_state (the_task (sm_k s) i) = TASK_RUNNING)"

lemma wait_addr_inj [simp]: "wait_addr i = wait_addr j \<longleftrightarrow> i = j" "wait_addr i \<noteq> 0"
  by (simp_all add: wait_addr_def)

lemma set_tstate_task [simp]:
  "the_task (set_tstate i st k) j = (if i = j then (the_task k i)\<lparr>t_state := st\<rparr> else the_task k j)"
  by (simp add: set_tstate_def)

lemma sleepers_queue:
  assumes "set xs = wait_addr ` A" "\<And>i. i \<in> A \<Longrightarrow> wq_task (h (wait_addr i)) = Some i"
  shows "set (sleepers h xs) = A"
proof -
  have "set (sleepers h xs) = {i. \<exists>a\<in>set xs. wq_task (h a) = Some i}"
    by (induction xs) (auto split: option.splits)
  then show ?thesis using assms by auto
qed

lemma down_queue_ok:
  assumes "sem_queue_ok s" "sm_pc s i = Outside"
  shows "sem_queue_ok (down i s)"
proof (cases "sm_count s \<le> 0")
  case False
  then show ?thesis using assms(1) by (simp add: down_def down_take_def sem_queue_ok_def)
next
  case True
  let ?h = "(sm_heap s)(wait_addr i := \<lparr>wq_task = Some i, wq_next = 0\<rparr>)"
  obtain xs where xs: "ring (sm_heap s) (sm_wait s) xs" "set xs = wait_addr ` {i. sm_pc s i \<noteq> Outside}"
    "\<forall>i. sm_pc s i \<noteq> Outside \<longrightarrow> wq_task (sm_heap s (wait_addr i)) = Some i"
    using assms(1) by (auto simp: sem_queue_ok_def)
  have ni: "wait_addr i \<notin> set xs" using xs(2) assms(2) by auto
  have "chain ?h (sm_wait s) xs (sm_wait s) = chain (sm_heap s) (sm_wait s) xs (sm_wait s)"
    by (rule chain_cong) (use ni in auto)
  then have r: "ring ?h (sm_wait s) xs" using xs(1) by (simp add: ring_def)
  obtain p h where a: "add_wait_queue (sm_wait s) (wait_addr i) ?h = (p, h)"
    by (cases "add_wait_queue (sm_wait s) (wait_addr i) ?h")
  have "ring h p (ring_add (wait_addr i) xs)" by (rule add_ring[OF r _ ni a]) simp
  moreover have "set (ring_add (wait_addr i) xs) = wait_addr ` {j. ((sm_pc s)(i := Before_test)) j \<noteq> Outside}"
    using xs(2) by (auto simp: ring_add_def split: list.split)
  moreover have "wq_task (h x) = wq_task (?h x)" for x
    using a by (auto simp: add_wait_queue_def split: if_splits)
  ultimately show ?thesis using True a xs(3) unfolding down_def sem_queue_ok_def
    by (intro exI[of _ "ring_add (wait_addr i) xs"]) simp
qed

lemma test_queue_ok:
  assumes "sem_queue_ok s" "sm_pc s i \<noteq> Outside"
  shows "\<exists>p h. remove_wait_queue (sm_wait s) (wait_addr i) (sm_heap s) = Some (p, h) \<and>
    (\<exists>xs. ring h p xs \<and> set xs = wait_addr ` {j. ((sm_pc s)(i := Outside)) j \<noteq> Outside} \<and>
     (\<forall>j. ((sm_pc s)(i := Outside)) j \<noteq> Outside \<longrightarrow> wq_task (h (wait_addr j)) = Some j))"
proof -
  obtain xs where xs: "ring (sm_heap s) (sm_wait s) xs" "set xs = wait_addr ` {i. sm_pc s i \<noteq> Outside}"
    "\<forall>i. sm_pc s i \<noteq> Outside \<longrightarrow> wq_task (sm_heap s (wait_addr i)) = Some i"
    using assms(1) by (auto simp: sem_queue_ok_def)
  have "wait_addr i \<in> set xs" using xs(2) assms(2) by auto
  then obtain p h where d: "remove_wait_queue (sm_wait s) (wait_addr i) (sm_heap s) = Some (p, h)"
    "ring h p (remove1 (wait_addr i) xs)" "\<forall>a. wq_task (h a) = wq_task (sm_heap s a)"
    using remove_ring[OF xs(1)] by blast
  have "distinct xs" using xs(1) by (simp add: ring_def)
  then have "set (remove1 (wait_addr i) xs) = wait_addr ` {j. ((sm_pc s)(i := Outside)) j \<noteq> Outside}"
    using xs(2) by (auto simp: set_remove1_eq split: if_splits)
  then show ?thesis using d xs(3) by (intro exI[of _ p] exI[of _ h] conjI exI[of _ "remove1 (wait_addr i) xs"]) auto
qed

lemma up_wakes:
  assumes "sem_queue_ok s"
  shows "\<exists>s'. up s = Some s' \<and> sm_pc s' = sm_pc s \<and> sm_heap s' = sm_heap s \<and> sm_wait s' = sm_wait s \<and>
    sm_count s' = wrap32 (sm_count s + 1) \<and> sm_downs s' = sm_downs s \<and> sm_ups s' = Suc (sm_ups s) \<and>
    (\<forall>i. the_task (sm_k s') i =
      (if sm_pc s i \<noteq> Outside \<and> t_state (the_task (sm_k s) i) \<in> {TASK_UNINTERRUPTIBLE, TASK_INTERRUPTIBLE}
       then (the_task (sm_k s) i)\<lparr>t_state := TASK_RUNNING\<rparr> else the_task (sm_k s) i))"
proof -
  obtain xs where xs: "ring (sm_heap s) (sm_wait s) xs" "set xs = wait_addr ` {i. sm_pc s i \<noteq> Outside}"
    "\<forall>i. sm_pc s i \<noteq> Outside \<longrightarrow> wq_task (sm_heap s (wait_addr i)) = Some i"
    using assms(1) by (auto simp: sem_queue_ok_def)
  have sl: "set (sleepers (sm_heap s) xs) = {i. sm_pc s i \<noteq> Outside}"
    by (rule sleepers_queue[OF xs(2)]) (use xs(3) in auto)
  let ?sel = "\<lambda>st. st = TASK_UNINTERRUPTIBLE \<or> st = TASK_INTERRUPTIBLE"
  obtain k' r' where k: "fold (wake_task ?sel) (sleepers (sm_heap s) xs) (sm_k s, False) = (k', r')"
    by (cases "fold (wake_task ?sel) (sleepers (sm_heap s) xs) (sm_k s, False)")
  show ?thesis using wake_fold[of ?sel "sleepers (sm_heap s) xs" "sm_k s" False] k sl
    by (simp add: up_def Let_def wake_up_fold(1)[OF xs(1)])
qed

lemma sem_down_inv:
  assumes "sem_inv n s" "sm_pc s i = Outside"
  shows "sem_inv n (down i s)"
proof -
  have q: "sem_queue_ok (down i s)" using assms by (simp add: sem_inv_def down_queue_ok)
  show ?thesis
  proof (cases "sm_count s \<le> 0")
    case True
    then show ?thesis using assms q by (auto simp: sem_inv_def down_def split: prod.splits if_splits)
  next
    case False
    then have "wrap32 (sm_count s - 1) = sm_count s - 1" using assms(1) by (intro wrap32_id) (auto simp: sem_inv_def)
    then show ?thesis using assms q False by (auto simp: sem_inv_def down_def down_take_def)
  qed
qed

lemma down_test_takes:
  assumes "sem_inv n s" "sm_pc s i \<noteq> Outside" "0 < sm_count s"
  shows "\<exists>s'. down_test i s = Some s' \<and> sem_inv n s' \<and> sm_pc s' = (sm_pc s)(i := Outside) \<and>
    sm_count s' = sm_count s - 1 \<and> sm_downs s' = Suc (sm_downs s)"
proof -
  obtain p h xs where d: "remove_wait_queue (sm_wait s) (wait_addr i) (sm_heap s) = Some (p, h)"
    "ring h p xs" "set xs = wait_addr ` {j. ((sm_pc s)(i := Outside)) j \<noteq> Outside}"
    "\<forall>j. ((sm_pc s)(i := Outside)) j \<noteq> Outside \<longrightarrow> wq_task (h (wait_addr j)) = Some j"
    using test_queue_ok[of s i] assms(1,2) by (auto simp: sem_inv_def)
  have w: "wrap32 (sm_count s - 1) = sm_count s - 1" using assms(1,3) by (intro wrap32_id) (auto simp: sem_inv_def)
  let ?s = "down_take (s\<lparr>sm_wait := p, sm_heap := h, sm_k := set_tstate i TASK_RUNNING (sm_k s),
      sm_pc := (sm_pc s)(i := Outside)\<rparr>)"
  have "sem_queue_ok ?s" unfolding sem_queue_ok_def by (rule exI[of _ xs]) (use d in \<open>simp add: down_take_def\<close>)
  then have "sem_inv n ?s" using assms w by (auto simp: sem_inv_def down_take_def)
  then show ?thesis using d(1) assms(3) w by (simp add: down_test_def down_take_def)
qed

lemma sem_test_inv:
  assumes "sem_inv n s" "sm_pc s i = Before_test" "down_test i s = Some s'"
  shows "sem_inv n s'"
proof (cases "sm_count s \<le> 0")
  case True
  then have s': "s' = s\<lparr>sm_pc := (sm_pc s)(i := In_schedule)\<rparr>" using assms(3) by (simp add: down_test_def)
  have "{j. ((sm_pc s)(i := In_schedule)) j \<noteq> Outside} = {j. sm_pc s j \<noteq> Outside}" using assms(2) by auto
  then have "sem_queue_ok s'" using assms(1,2) unfolding s' sem_inv_def sem_queue_ok_def by auto
  then show ?thesis using True assms(1,2) s' by (auto simp: sem_inv_def)
next
  case False
  then show ?thesis using down_test_takes[OF assms(1), of i] assms(2,3) by auto
qed

lemma sem_resume_inv:
  assumes "sem_inv n s" "sm_pc s i = In_schedule"
  shows "sem_inv n (down_resume i s)"
proof -
  have "{j. ((sm_pc s)(i := Before_test)) j \<noteq> Outside} = {j. sm_pc s j \<noteq> Outside}" using assms(2) by auto
  then have "sem_queue_ok (down_resume i s)"
    using assms unfolding sem_inv_def sem_queue_ok_def down_resume_def by auto
  then show ?thesis using assms by (auto simp: sem_inv_def down_resume_def)
qed

lemma sem_up_inv:
  assumes "sem_inv n s" "sm_count s < 2 ^ 31 - 1" "up s = Some s'"
  shows "sem_inv n s'"
proof -
  have q: "sem_queue_ok s" using assms(1) by (simp add: sem_inv_def)
  have w: "wrap32 (sm_count s + 1) = sm_count s + 1" using assms(1,2) by (intro wrap32_id) (auto simp: sem_inv_def)
  obtain t where t: "up s = Some t" "sm_pc t = sm_pc s" "sm_heap t = sm_heap s" "sm_wait t = sm_wait s"
    "sm_count t = sm_count s + 1" "sm_downs t = sm_downs s" "sm_ups t = Suc (sm_ups s)"
    "\<forall>i. the_task (sm_k t) i =
      (if sm_pc s i \<noteq> Outside \<and> t_state (the_task (sm_k s) i) \<in> {TASK_UNINTERRUPTIBLE, TASK_INTERRUPTIBLE}
       then (the_task (sm_k s) i)\<lparr>t_state := TASK_RUNNING\<rparr> else the_task (sm_k s) i)"
    using up_wakes[OF q] unfolding w by blast
  have "s' = t" using t(1) assms(3) by simp
  moreover have "sem_queue_ok t" using q t(2-4) by (simp add: sem_queue_ok_def)
  moreover have "t_state (the_task (sm_k t) i) = TASK_RUNNING" if "sm_pc s i \<noteq> Outside" for i
  proof -
    have "t_state (the_task (sm_k s) i) \<in> {TASK_UNINTERRUPTIBLE, TASK_RUNNING}" using assms(1) that by (auto simp: sem_inv_def)
    then show ?thesis using t(8) that by auto
  qed
  ultimately show ?thesis using assms(1,2) t(2-7) by (auto simp: sem_inv_def)
qed

interpretation sems: invariant_system "sem_init n" sem_step "sem_inv n" for n
proof
  show "sem_init n s \<Longrightarrow> sem_inv n s" for s
    by (auto simp: sem_init_def sem_inv_def sem_queue_ok_def ring_def)
  show "sem_inv n s \<Longrightarrow> sem_step s t \<Longrightarrow> sem_inv n t" for s t
    by (auto elim!: sem_stepE intro: sem_down_inv sem_test_inv sem_resume_inv sem_up_inv)
qed

section \<open>Properties\<close>

text \<open>
  C7. A semaphore with \<open>n\<close> units never hands out more than it has: in every reachable state, whatever
  the interleaving of tasks and interrupts, its count is not negative and is \<open>n\<close> plus the number of
  \<^verbatim>\<open>up\<close> calls less the number of completed \<^verbatim>\<open>down\<close> calls. Neither a wake-up nor a removal from
  its queue ever runs away.
\<close>

theorem semaphore_safe:
  assumes "reach (sem_init n) sem_step s"
  shows "0 \<le> sm_count s \<and> sm_count s = n + int (sm_ups s) - int (sm_downs s) \<and> up s \<noteq> None \<and>
    (\<forall>i. sm_pc s i = Before_test \<longrightarrow> down_test i s \<noteq> None)"
proof -
  have inv: "sem_inv n s" by (rule sems.reach_inv[OF assms])
  then have "up s \<noteq> None" using up_wakes[of s] by (auto simp: sem_inv_def)
  moreover have "down_test i s \<noteq> None" if "sm_pc s i = Before_test" for i
    using down_test_takes[OF inv, of i] that by (cases "0 < sm_count s") (auto simp: down_test_def)
  ultimately show ?thesis using inv by (auto simp: sem_inv_def)
qed

definition example_sem :: sem_state where
  "example_sem = \<lparr>sm_count = 1, sm_wait = 0, sm_heap = (\<lambda>_. \<lparr>wq_task = None, wq_next = 0\<rparr>),
     sm_k = \<lparr>k_task = (\<lambda>_. Some INIT_TASK), k_ring = [1, 2], k_current = 1, k_woken = []\<rparr>,
     sm_pc = (\<lambda>_. Outside), sm_downs = 0, sm_ups = 0\<rparr>"

text \<open>Task 1 holds the semaphore, task 2 waits for it.\<close>

definition example_contended :: sem_state where
  "example_contended = down 2 (down 1 example_sem)"

lemma example_contended_reach: "reach (sem_init 1) sem_step example_contended"
proof -
  have "reach (sem_init 1) sem_step example_sem" by (rule reach_init) (simp add: sem_init_def example_sem_def)
  then have "reach (sem_init 1) sem_step (down 1 example_sem)"
    by (rule reach_step) (rule sem_down, simp add: example_sem_def)
  then show ?thesis unfolding example_contended_def
    by (rule reach_step) (rule sem_down, simp add: example_sem_def down_def down_take_def)
qed

theorem semaphore_safe_witness:
  "sm_count example_contended = 0 \<and> up example_contended \<noteq> None"
proof -
  have "sm_downs example_contended = 1" "sm_ups example_contended = 0"
    by (simp_all add: example_contended_def example_sem_def down_def down_take_def wrap32_def add_wait_queue_def)
  then show ?thesis using semaphore_safe[OF example_contended_reach] by simp
qed

text \<open>What the rest of \<^verbatim>\<open>__down\<close> does for task \<open>i\<close> when it gets the processor.\<close>

definition down_continue :: "nat \<Rightarrow> sem_state \<Rightarrow> sem_state option" where
  "down_continue i s =
     (if sm_pc s i = In_schedule
      then if t_state (the_task (sm_k s) i) = TASK_RUNNING then down_test i (down_resume i s) else None
      else down_test i s)"

text \<open>
  C11. No wake-up is lost: in every reachable state in which the semaphore has a unit free, each task
  that waits for it is runnable and takes the unit as soon as it runs.
\<close>

theorem semaphore_no_lost_wakeup:
  assumes "reach (sem_init n) sem_step s" "0 < sm_count s" "sm_pc s i \<noteq> Outside"
  shows "\<exists>s'. down_continue i s = Some s' \<and> sm_pc s' i = Outside \<and> sm_count s' = sm_count s - 1 \<and>
    sm_downs s' = Suc (sm_downs s)"
proof -
  have inv: "sem_inv n s" by (rule sems.reach_inv[OF assms(1)])
  show ?thesis
  proof (cases "sm_pc s i = In_schedule")
    case True
    then have r: "t_state (the_task (sm_k s) i) = TASK_RUNNING" using inv assms(2) by (simp add: sem_inv_def)
    have "sem_inv n (down_resume i s)" by (rule sem_resume_inv[OF inv True])
    from down_test_takes[OF this, of i] show ?thesis
      using True r assms(2) by (auto simp: down_continue_def down_resume_def)
  next
    case False
    then show ?thesis using down_test_takes[OF inv assms(3,2)] by (auto simp: down_continue_def)
  qed
qed

theorem semaphore_no_lost_wakeup_witness:
  "case up example_contended of None \<Rightarrow> False
   | Some s \<Rightarrow> (\<exists>s'. down_continue 2 s = Some s' \<and> sm_pc s' 2 = Outside \<and> sm_count s' = 0)"
proof -
  have q: "sem_inv 1 example_contended" by (rule sems.reach_inv[OF example_contended_reach])
  have c: "sm_count example_contended = 0" "sm_pc example_contended 2 = Before_test"
    by (simp_all add: example_contended_def example_sem_def down_def down_take_def wrap32_def add_wait_queue_def)
  obtain s where s: "up example_contended = Some s" "sm_pc s = sm_pc example_contended" "sm_count s = wrap32 1"
    using up_wakes[of example_contended] q c by (auto simp: sem_inv_def)
  have "reach (sem_init 1) sem_step s"
    by (rule reach_step[OF example_contended_reach]) (rule sem_up, use s c in auto)
  from semaphore_no_lost_wakeup[OF this, of 2] show ?thesis using s c by (auto simp: wrap32_def)
qed

end
