(* ===== verification/Mktime.thy ===== *)
theory Mktime
  imports Kernel_Prelude
begin

text \<open>
  The conversion of a calendar date into seconds since 1970 (\<^verbatim>\<open>kernel/mktime.c\<close>), against the
  Gregorian calendar.
\<close>

section \<open>The routine\<close>

record mktime =
  mk_sec :: int
  mk_min :: int
  mk_hour :: int
  mk_day :: int
  mk_mon :: int
  mk_year :: int

definition MINUTE :: int where [kconst]: "MINUTE = 60"
definition HOUR :: int where [kconst]: "HOUR = 60 * MINUTE"
definition DAY :: int where [kconst]: "DAY = 24 * HOUR"
definition YEAR :: int where [kconst]: "YEAR = 365 * DAY"

definition month :: "int list" where
  "month = [0, DAY * 31, DAY * (31 + 29), DAY * (31 + 29 + 31), DAY * (31 + 29 + 31 + 30),
     DAY * (31 + 29 + 31 + 30 + 31), DAY * (31 + 29 + 31 + 30 + 31 + 30), DAY * (31 + 29 + 31 + 30 + 31 + 30 + 31),
     DAY * (31 + 29 + 31 + 30 + 31 + 30 + 31 + 31), DAY * (31 + 29 + 31 + 30 + 31 + 30 + 31 + 31 + 30),
     DAY * (31 + 29 + 31 + 30 + 31 + 30 + 31 + 31 + 30 + 31),
     DAY * (31 + 29 + 31 + 30 + 31 + 30 + 31 + 31 + 30 + 31 + 30)]"

text \<open>An index outside of the table has no result. The arithmetic is that of a 32-bit \<^verbatim>\<open>long\<close>.\<close>

definition kernel_mktime :: "mktime \<Rightarrow> int option" where
  "kernel_mktime time =
     (let year = mk_year time - 70;
          res = YEAR * year + DAY * ((year + 1) sdiv 4)
      in case cell_get month (mk_mon time) of
           None \<Rightarrow> None
         | Some m \<Rightarrow>
             let res = res + m;
                 res = (if mk_mon time > 1 \<and> (year + 2) smod 4 \<noteq> 0 then res - DAY else res);
                 res = res + DAY * (mk_day time - 1);
                 res = res + HOUR * mk_hour time;
                 res = res + MINUTE * mk_min time
             in Some (wrap32 (res + mk_sec time)))"

section \<open>The Gregorian calendar\<close>

definition leap :: "nat \<Rightarrow> bool" where
  "leap y \<longleftrightarrow> y mod 4 = 0 \<and> (y mod 100 \<noteq> 0 \<or> y mod 400 = 0)"

definition month_length :: "nat \<Rightarrow> nat \<Rightarrow> nat" where
  "month_length y m = (if m = 1 then if leap y then 29 else 28 else if m \<in> {3, 5, 8, 10} then 30 else 31)"

definition days_before :: "nat \<Rightarrow> nat \<Rightarrow> nat" where
  "days_before y m = sum_list (map (\<lambda>x. if leap x then 366 else 365) [1970..<y]) +
     sum_list (map (month_length y) [0..<m])"

text \<open>Years are counted from 1900, months from 0 and days from 1.\<close>

definition valid_date :: "mktime \<Rightarrow> bool" where
  "valid_date t \<longleftrightarrow> 70 \<le> mk_year t \<and> mk_year t < 138 \<and> 0 \<le> mk_mon t \<and> mk_mon t < 12 \<and>
     1 \<le> mk_day t \<and> mk_day t \<le> int (month_length (nat (1900 + mk_year t)) (nat (mk_mon t))) \<and>
     0 \<le> mk_hour t \<and> mk_hour t < 24 \<and> 0 \<le> mk_min t \<and> mk_min t < 60 \<and> 0 \<le> mk_sec t \<and> mk_sec t < 60"

definition day_part :: "int \<Rightarrow> int \<Rightarrow> int" where
  "day_part year m =
     365 * year + (year + 1) sdiv 4 + (month ! nat m) div DAY - (if m > 1 \<and> (year + 2) smod 4 \<noteq> 0 then 1 else 0)"

lemma leap_1970:
  assumes "y < 130"
  shows "leap (1970 + y) \<longleftrightarrow> (y + 2) mod 4 = 0"
proof (cases "(1970 + y) mod 100 = 0")
  case True
  then have "y = 30" using assms by presburger
  then show ?thesis by (simp add: leap_def)
next
  case False
  have "(1970 + y) mod 4 = (y + 2) mod 4" by presburger
  then show ?thesis using False by (simp add: leap_def)
qed

lemma year_days: "y < 130 \<Longrightarrow> sum_list (map (\<lambda>x. if leap x then 366 else 365) [1970..<1970 + y]) = 365 * y + (y + 1) div 4"
proof (induction y)
  case (Suc y)
  have "(Suc y + 1) div 4 = (y + 1) div 4 + (if (y + 2) mod 4 = 0 then 1 else 0)" by presburger
  moreover have "[1970..<1970 + Suc y] = [1970..<1970 + y] @ [1970 + y]" using upt_Suc_append[of 1970 "1970 + y"] by simp
  ultimately show ?case using Suc leap_1970[of y] by (simp del: upt_Suc)
qed simp

lemma month_days:
  assumes "m < 12"
  shows "int (sum_list (map (month_length y) [0..<m])) = month ! m div DAY - (if 1 < m \<and> \<not> leap y then 1 else 0)"
proof -
  have "m = 0 \<or> m = 1 \<or> m = 2 \<or> m = 3 \<or> m = 4 \<or> m = 5 \<or> m = 6 \<or> m = 7 \<or> m = 8 \<or> m = 9 \<or> m = 10 \<or> m = 11"
    using assms by presburger
  then consider "m = 0" | "m = 1" | "m = 2" | "m = 3" | "m = 4" | "m = 5" | "m = 6" | "m = 7" | "m = 8" | "m = 9" | "m = 10" | "m = 11"
    by metis
  then show ?thesis by cases (simp_all add: upt_rec month_length_def month_def kconst)
qed

lemma day_part_days:
  assumes "y < 68" "m < 12"
  shows "day_part (int y) (int m) = int (days_before (1970 + y) m)"
proof -
  have q: "(int y + 1) sdiv 4 = int ((y + 1) div 4)" "(int y + 2) smod 4 = int ((y + 2) mod 4)"
    by (simp_all add: signed_divide_int_def signed_modulo_int_def sgn_if zdiv_int zmod_int minus_mult_div_eq_mod add.commute)
  show ?thesis unfolding day_part_def days_before_def of_nat_add q month_days[OF assms(2)]
    using year_days[of y] leap_1970[of y] assms by simp
qed

lemma month_end:
  assumes "y < 68" "m < 12"
  shows "days_before (1970 + y) m + month_length (1970 + y) m \<le> 24838"
proof -
  have "sum_list (map (month_length (1970 + y)) [0..<m]) + month_length (1970 + y) m =
      sum_list (map (month_length (1970 + y)) [0..<Suc m])" by simp
  also have "... \<le> 366"
  proof (cases "m = 11")
    case True
    then show ?thesis by (simp add: upt_rec month_length_def)
  next
    case False
    then have s: "Suc m < 12" using assms(2) by simp
    have "month ! Suc m div DAY \<le> 366"
    proof -
      have "\<forall>x\<in>set month. x div DAY \<le> 366" by (simp add: month_def kconst)
      moreover have "length month = 12" by (simp add: month_def)
      ultimately show ?thesis using s nth_mem[of "Suc m" month] by metis
    qed
    then show ?thesis using month_days[OF s, of "1970 + y"] by (simp split: if_splits)
  qed
  finally show ?thesis using year_days[of y] assms(1) unfolding days_before_def by simp
qed

lemma month_DAY: "\<forall>m\<in>set month. DAY * (m div DAY) = m"
  by (simp add: month_def kconst)

text \<open>
  C26. For every valid date from 1970 to 2037 \<^verbatim>\<open>kernel_mktime\<close> returns the number of seconds of the
  Gregorian calendar since the start of 1970, without an overflow: its shortcuts for leap years are right.
\<close>

theorem kernel_mktime_gregorian:
  assumes "valid_date t"
  shows "kernel_mktime t = Some (86400 * (int (days_before (nat (1900 + mk_year t)) (nat (mk_mon t))) + mk_day t - 1) +
    3600 * mk_hour t + 60 * mk_min t + mk_sec t)"
proof -
  define y m where ym: "y = nat (mk_year t - 70)" "m = nat (mk_mon t)"
  have y: "y < 68" "mk_year t - 70 = int y" "nat (1900 + mk_year t) = 1970 + y" and m: "m < 12" "mk_mon t = int m"
    using assms by (auto simp: valid_date_def ym)
  have dp: "day_part (int y) (int m) = int (days_before (1970 + y) m)"
    by (rule day_part_days[OF y(1) m(1)])
  have ml: "days_before (1970 + y) m + month_length (1970 + y) m \<le> 24838"
    by (rule month_end[OF y(1) m(1)])
  have len: "length month = 12" by (simp add: month_def)
  have cg: "cell_get month (int m) = Some (month ! m)" using m len by simp
  have mm: "DAY * (month ! m div DAY) = month ! m" using bspec[OF month_DAY nth_mem[of m month]] m(1) len by simp
  have D: "DAY = 86400" "HOUR = 3600" "MINUTE = 60" by (simp_all add: kconst)
  let ?tot = "86400 * (int (days_before (1970 + y) m) + mk_day t - 1) + 3600 * mk_hour t + 60 * mk_min t + mk_sec t"
  have eq: "YEAR * int y + DAY * ((int y + 1) sdiv 4) + month ! m -
      (if int m > 1 \<and> (int y + 2) smod 4 \<noteq> 0 then DAY else 0) = 86400 * int (days_before (1970 + y) m)"
    using mm unfolding dp[symmetric] day_part_def YEAR_def D by (simp add: algebra_simps)
  have "0 \<le> ?tot" "?tot < 2 ^ 31" using assms ml unfolding valid_date_def y(3) ym(2)[symmetric] by auto
  then have w: "wrap32 ?tot = ?tot" by (intro wrap32_id) auto
  have "kernel_mktime t = Some (wrap32 ?tot)"
    unfolding kernel_mktime_def Let_def y(2) m(2) cg using eq unfolding D by (simp add: algebra_simps split: if_splits)
  then show ?thesis using w y(3) m by simp
qed

definition example_date :: mktime where
  "example_date = \<lparr>mk_sec = 56, mk_min = 34, mk_hour = 12, mk_day = 29, mk_mon = 1, mk_year = 100\<rparr>"

theorem kernel_mktime_gregorian_witness: "kernel_mktime example_date = Some 951827696"
proof -
  have v: "valid_date example_date" by (simp add: valid_date_def example_date_def month_length_def leap_def)
  have "days_before 2000 1 = 10988" using year_days[of 30] by (simp add: days_before_def month_length_def)
  then show ?thesis using kernel_mktime_gregorian[OF v] by (simp add: example_date_def)
qed

end
