(* ===== verification/Dma.thy ===== *)
theory Dma
  imports Errno
begin

text \<open>The allocator of DMA channels (\<^verbatim>\<open>kernel/dma.c\<close>).\<close>

definition MAX_DMA_CHANNELS :: nat where
  [kconst]: "MAX_DMA_CHANNELS = 8"

definition dma_chan_busy :: "u32 list" where
  "dma_chan_busy = [1, 0, 0, 0, 1, 0, 0, 0]"

text \<open>The exchange instruction on one cell of the table: the old value and the table.\<close>

definition mutex_atomic_swap :: "u32 list \<Rightarrow> nat \<Rightarrow> u32 \<Rightarrow> u32 \<times> u32 list" where
  "mutex_atomic_swap busy p newval = (busy ! p, busy[p := newval])"

definition request_dma :: "u32 \<Rightarrow> u32 list \<Rightarrow> errno option \<times> u32 list" where
  "request_dma dmanr busy =
     (if unat dmanr \<ge> MAX_DMA_CHANNELS then (Some EINVAL, busy)
      else (case mutex_atomic_swap busy (unat dmanr) 1 of
              (old, busy1) \<Rightarrow> (if old \<noteq> 0 then Some EBUSY else None, busy1)))"

text \<open>\<^verbatim>\<open>free_dma\<close>; the first component tells whether it printed a warning.\<close>

definition free_dma :: "u32 \<Rightarrow> u32 list \<Rightarrow> bool \<times> u32 list" where
  "free_dma dmanr busy =
     (if unat dmanr \<ge> MAX_DMA_CHANNELS then (True, busy)
      else (case mutex_atomic_swap busy (unat dmanr) 0 of (old, busy1) \<Rightarrow> (old = 0, busy1)))"

section \<open>Owners\<close>

text \<open>
  Drivers are numbers; \<open>own\<close> tells which driver was granted a channel. A driver frees only channels
  it was granted.
\<close>

record dma_state =
  dm_busy :: "u32 list"
  dm_own :: "nat \<Rightarrow> nat set"

inductive dma_step :: "dma_state \<Rightarrow> dma_state \<Rightarrow> bool" where
  dma_request: "request_dma n (dm_busy s) = (e, b) \<Longrightarrow>
    dma_step s (s\<lparr>dm_busy := b,
      dm_own := (if e = None then (dm_own s)(unat n := insert d (dm_own s (unat n))) else dm_own s)\<rparr>)"
| dma_free: "d \<in> dm_own s (unat n) \<Longrightarrow> free_dma n (dm_busy s) = (w, b) \<Longrightarrow>
    dma_step s (s\<lparr>dm_busy := b, dm_own := (dm_own s)(unat n := dm_own s (unat n) - {d})\<rparr>)"

definition dma_init :: "dma_state \<Rightarrow> bool" where
  "dma_init s \<longleftrightarrow> dm_busy s = dma_chan_busy \<and> (\<forall>n. dm_own s n = {})"

definition dma_inv :: "dma_state \<Rightarrow> bool" where
  "dma_inv s \<longleftrightarrow> length (dm_busy s) = 8 \<and> dm_busy s ! 0 \<noteq> 0 \<and> dm_busy s ! 4 \<noteq> 0 \<and>
     (\<forall>n. dm_own s n = {} \<or> (\<exists>d. dm_own s n = {d}) \<and> n < 8 \<and> n \<noteq> 0 \<and> n \<noteq> 4 \<and> dm_busy s ! n \<noteq> 0)"

lemma dma_step_inv:
  assumes "dma_inv s" "dma_step s t"
  shows "dma_inv t"
  using assms(2)
proof cases
  case (dma_request n e b d)
  show ?thesis
  proof (cases "unat n < 8")
    case False
    then show ?thesis using assms(1) dma_request by (auto simp: request_dma_def kconst dma_inv_def)
  next
    case True
    let ?i = "unat n"
    have b: "b = (dm_busy s)[?i := 1]" "e = None \<longleftrightarrow> dm_busy s ! ?i = 0"
      using dma_request(2) True by (auto simp: request_dma_def kconst mutex_atomic_swap_def split: if_splits)
    have own: "dm_own s ?i = {}" "?i \<noteq> 0" "?i \<noteq> 4" if "e = None"
      using assms(1) b(2) that unfolding dma_inv_def by (metis, metis, metis)
    show ?thesis using assms(1) True b own unfolding dma_request(1) dma_inv_def
      by (cases "e = None") (auto simp: nth_list_update)
  qed
next
  case (dma_free d n w b)
  let ?i = "unat n"
  have own: "dm_own s ?i = {d}" "?i < 8" "?i \<noteq> 0" "?i \<noteq> 4"
    using assms(1) dma_free(2) unfolding dma_inv_def by (metis empty_iff singletonD, metis empty_iff, metis empty_iff, metis empty_iff)
  have b: "b = (dm_busy s)[?i := 0]"
    using dma_free(3) own(2) by (auto simp: free_dma_def kconst mutex_atomic_swap_def)
  show ?thesis using assms(1) own b unfolding dma_free(1) dma_inv_def by (auto simp: nth_list_update)
qed

interpretation dmas: invariant_system dma_init dma_step dma_inv
proof
  show "dma_init s \<Longrightarrow> dma_inv s" for s by (simp add: dma_init_def dma_inv_def dma_chan_busy_def)
qed (rule dma_step_inv)

text \<open>
  C36. A DMA channel never has two owners: in every reachable state each channel has been granted to at
  most one driver, an owned channel is refused to everybody else, and the channels for refresh
  and cascading are never granted.
\<close>

theorem dma_exclusive:
  assumes "reach dma_init dma_step s" "d \<in> dm_own s (unat n)"
  shows "dm_own s (unat n) = {d} \<and> request_dma n (dm_busy s) = (Some EBUSY, (dm_busy s)[unat n := 1]) \<and> n \<noteq> 0 \<and> n \<noteq> 4"
proof -
  have inv: "dma_inv s" by (rule dmas.reach_inv[OF assms(1)])
  then have "dm_own s (unat n) = {d}" "unat n < 8" "unat n \<noteq> 0" "unat n \<noteq> 4" "dm_busy s ! unat n \<noteq> 0"
    using assms(2) unfolding dma_inv_def
    by (metis empty_iff singletonD, metis empty_iff, metis empty_iff, metis empty_iff, metis empty_iff)
  then show ?thesis by (auto simp: request_dma_def kconst mutex_atomic_swap_def)
qed

definition example_dma :: dma_state where
  "example_dma = \<lparr>dm_busy = dma_chan_busy, dm_own = (\<lambda>_. {})\<rparr>"

theorem dma_exclusive_witness:
  "fst (request_dma 2 (snd (request_dma 2 (dm_busy example_dma)))) = Some EBUSY"
proof -
  let ?t = "example_dma\<lparr>dm_busy := [1, 0, 1, 0, 1, 0, 0, 0], dm_own := (\<lambda>_. {})(2 := {7})\<rparr>"
  have e: "request_dma 2 (dm_busy example_dma) = (None, [1, 0, 1, 0, 1, 0, 0, 0])"
    by (simp add: request_dma_def example_dma_def dma_chan_busy_def kconst mutex_atomic_swap_def)
  have "reach dma_init dma_step example_dma" by (rule reach_init) (simp add: dma_init_def example_dma_def)
  moreover have "dma_step example_dma ?t"
    using dma_request[OF e, of 7] by (simp add: example_dma_def)
  ultimately have r: "reach dma_init dma_step ?t" by (rule reach_step)
  have "7 \<in> dm_own ?t (unat (2 :: u32))" by simp
  from dma_exclusive[OF r this] show ?thesis using e by simp
qed

end
