(* ===== verification/Itimer.thy ===== *)
theory Itimer
  imports Sys_Cred
begin

text \<open>
  Interval timers: reading and setting the three timers of a task (\<^verbatim>\<open>kernel/itimer.c\<close>) and
  \<^verbatim>\<open>alarm\<close> (\<^verbatim>\<open>kernel/sched.c\<close>). Times are kept in clock ticks.
\<close>

section \<open>Conversions\<close>

text \<open>Both casts of the source are to a 32-bit \<^verbatim>\<open>unsigned long\<close>.\<close>

definition tvtojiffies :: "timeval \<Rightarrow> u32" where
  "tvtojiffies value =
     word_of_int (tv_sec value) * 100 + word_of_int (tv_usec value + (1000000 div HZ - 1)) div (1000000 div 100)"

definition jiffiestotv :: "u32 \<Rightarrow> timeval" where
  "jiffiestotv jiffies = \<lparr>tv_sec = sint (jiffies div 100), tv_usec = sint ((jiffies mod 100) * (1000000 div 100))\<rparr>"

record itimerval =
  it_interval :: timeval
  it_value :: timeval

abbreviation (input) "ITIMER_REAL \<equiv> (0 :: int)"
abbreviation (input) "ITIMER_VIRTUAL \<equiv> (1 :: int)"
abbreviation (input) "ITIMER_PROF \<equiv> (2 :: int)"

section \<open>Reading\<close>

definition getitimer :: "int \<Rightarrow> task_struct \<Rightarrow> itimerval res" where
  "getitimer which t =
     (if which = ITIMER_REAL
      then Inr \<lparr>it_interval = jiffiestotv (t_it_real_incr t), it_value = jiffiestotv (t_it_real_value t)\<rparr>
      else if which = ITIMER_VIRTUAL
      then Inr \<lparr>it_interval = jiffiestotv (t_it_virt_incr t), it_value = jiffiestotv (t_it_virt_value t)\<rparr>
      else if which = ITIMER_PROF
      then Inr \<lparr>it_interval = jiffiestotv (t_it_prof_incr t), it_value = jiffiestotv (t_it_prof_value t)\<rparr>
      else Inl EINVAL)"

definition sys_getitimer :: "va_fun \<Rightarrow> int \<Rightarrow> u32 \<Rightarrow> task_struct \<Rightarrow> itimerval res" where
  "sys_getitimer va which value t =
     (if value = 0 then Inl EFAULT
      else (case getitimer which t of
              Inl e \<Rightarrow> Inl e
            | Inr get_buffer \<Rightarrow>
                (case va VERIFY_WRITE value 16 of Some e \<Rightarrow> Inl e | None \<Rightarrow> Inr get_buffer)))"

section \<open>Setting\<close>

text \<open>
  The globals \<^verbatim>\<open>itimer_ticks\<close> and \<^verbatim>\<open>itimer_next\<close> with the task; \<open>want\<close> tells whether \<^verbatim>\<open>ovalue\<close> is
  not null. The result holds the old setting, when it was asked for.
\<close>

record itimer_state =
  im_task :: task_struct
  im_ticks :: u32
  im_next :: u32

definition setitimer :: "int \<Rightarrow> itimerval \<Rightarrow> bool \<Rightarrow> itimer_state \<Rightarrow> itimerval option res \<times> itimer_state" where
  "setitimer which value want s =
     (let t = im_task s;
          i = tvtojiffies (it_interval value);
          j = tvtojiffies (it_value value);
          old = (if want then (case getitimer which t of Inl e \<Rightarrow> Inl e | Inr v \<Rightarrow> Inr (Some v)) else Inr None)
      in case old of
           Inl e \<Rightarrow> (Inl e, s)
         | Inr ov \<Rightarrow>
             if which = ITIMER_REAL
             then let j1 = (if j \<noteq> 0 then j + 1 + im_ticks s else j);
                      nx = (if j \<noteq> 0 \<and> j1 < im_next s then j1 else im_next s)
                  in (Inr ov, s\<lparr>im_task := t\<lparr>t_it_real_value := j1, t_it_real_incr := i\<rparr>, im_next := nx\<rparr>)
             else if which = ITIMER_VIRTUAL
             then (Inr ov, s\<lparr>im_task := t\<lparr>t_it_virt_value := (if j \<noteq> 0 then j + 1 else j), t_it_virt_incr := i\<rparr>\<rparr>)
             else if which = ITIMER_PROF
             then (Inr ov, s\<lparr>im_task := t\<lparr>t_it_prof_value := (if j \<noteq> 0 then j + 1 else j), t_it_prof_incr := i\<rparr>\<rparr>)
             else (Inl EINVAL, s))"

text \<open>\<open>user\<close> is the structure at the address \<open>value\<close>; a null address stands for zeros.\<close>

definition sys_setitimer ::
  "va_fun \<Rightarrow> int \<Rightarrow> u32 \<Rightarrow> itimerval \<Rightarrow> u32 \<Rightarrow> itimer_state \<Rightarrow> itimerval option res \<times> itimer_state" where
  "sys_setitimer va which value user ovalue s =
     (let zero = \<lparr>tv_sec = 0, tv_usec = 0\<rparr>;
          set_buffer = (if value = 0 then \<lparr>it_interval = zero, it_value = zero\<rparr> else user)
      in case setitimer which set_buffer (ovalue \<noteq> 0) s of
           (Inl e, s1) \<Rightarrow> (Inl e, s1)
         | (Inr ov, s1) \<Rightarrow>
             if ovalue = 0 then (Inr None, s1)
             else (case va VERIFY_WRITE ovalue 16 of
                     Some e \<Rightarrow> (Inl e, s1)
                   | None \<Rightarrow> (Inr ov, s1)))"

definition sys_alarm :: "int \<Rightarrow> itimer_state \<Rightarrow> int \<times> itimer_state" where
  "sys_alarm seconds s =
     (let it_new = \<lparr>it_interval = \<lparr>tv_sec = 0, tv_usec = 0\<rparr>, it_value = \<lparr>tv_sec = seconds, tv_usec = 0\<rparr>\<rparr>
      in case setitimer ITIMER_REAL it_new True s of
           (Inr (Some it_old), s1) \<Rightarrow>
             (wrap32 (tv_sec (it_value it_old) + tv_usec (it_value it_old) sdiv 1000000), s1)
         | (_, s1) \<Rightarrow> (0, s1))"

section \<open>Rounding\<close>

text \<open>A time in microseconds, and the times the code can hold: less than \<open>2\<^sup>3\<^sup>1\<close> ticks.\<close>

definition usecs :: "timeval \<Rightarrow> int" where
  "usecs tv = 1000000 * tv_sec tv + tv_usec tv"

definition tv_ok :: "timeval \<Rightarrow> bool" where
  "tv_ok tv \<longleftrightarrow> 0 \<le> tv_sec tv \<and> tv_sec tv \<le> 21000000 \<and> 0 \<le> tv_usec tv \<and> tv_usec tv < 1000000"

definition ticks_up :: "timeval \<Rightarrow> int" where
  "ticks_up tv = 100 * tv_sec tv + (tv_usec tv + 9999) div 10000"

lemma uint_word_of_int32: "0 \<le> n \<Longrightarrow> n < 4294967296 \<Longrightarrow> uint (word_of_int n :: u32) = n"
  by (simp add: unsigned_of_int take_bit_int_eq_self)

lemma uint_tvtojiffies:
  assumes "tv_ok tv"
  shows "uint (tvtojiffies tv) = ticks_up tv"
proof -
  have a: "uint (word_of_int (tv_sec tv) :: u32) = tv_sec tv" "uint (word_of_int (tv_usec tv + 9999) :: u32) = tv_usec tv + 9999"
    by (rule uint_word_of_int32; use assms in \<open>simp add: tv_ok_def\<close>)+
  have d: "uint (word_of_int (tv_usec tv + 9999) div (10000 :: u32)) = (tv_usec tv + 9999) div 10000"
    unfolding uint_div_distrib a(2) by simp
  have b: "0 \<le> (tv_usec tv + 9999) div 10000" "(tv_usec tv + 9999) div 10000 \<le> 100"
    using assms by (auto simp: tv_ok_def)
  have m: "uint (word_of_int (tv_sec tv) * (100 :: u32)) = 100 * tv_sec tv"
    unfolding uint_word_ariths(3) a(1) using assms by (simp add: tv_ok_def)
  have "tvtojiffies tv = word_of_int (tv_sec tv) * 100 + word_of_int (tv_usec tv + 9999) div 10000"
    by (simp add: tvtojiffies_def kconst)
  then have "uint (tvtojiffies tv) = (100 * tv_sec tv + (tv_usec tv + 9999) div 10000) mod 2 ^ 32"
    by (simp only: uint_word_ariths(1) m d) simp
  moreover have "... = 100 * tv_sec tv + (tv_usec tv + 9999) div 10000"
    by (rule mod_pos_pos_trivial) (use b assms in \<open>auto simp: tv_ok_def\<close>)
  ultimately show ?thesis by (simp add: ticks_up_def)
qed

lemma ticks_up_bounds:
  assumes "tv_ok tv"
  shows "0 \<le> ticks_up tv" "ticks_up tv \<le> 2100000100" "usecs tv \<le> 10000 * ticks_up tv" "10000 * ticks_up tv < usecs tv + 10000"
    "ticks_up tv = 0 \<longleftrightarrow> usecs tv = 0"
proof -
  obtain q where q: "(tv_usec tv + 9999) div 10000 = q" by blast
  have b: "10000 * q \<le> tv_usec tv + 9999" "tv_usec tv + 9999 < 10000 * q + 10000"
    using mult_div_mod_eq[of 10000 "tv_usec tv + 9999"] pos_mod_bound[of 10000 "tv_usec tv + 9999"]
      pos_mod_sign[of 10000 "tv_usec tv + 9999"] unfolding q by linarith+
  have t: "0 \<le> tv_sec tv" "tv_sec tv \<le> 21000000" "0 \<le> tv_usec tv" "tv_usec tv < 1000000" using assms by (auto simp: tv_ok_def)
  show "0 \<le> ticks_up tv" "ticks_up tv \<le> 2100000100" "usecs tv \<le> 10000 * ticks_up tv" "10000 * ticks_up tv < usecs tv + 10000"
    using b t unfolding ticks_up_def usecs_def q distrib_left by auto
  then show "ticks_up tv = 0 \<longleftrightarrow> usecs tv = 0" using t unfolding usecs_def by linarith
qed

lemma usecs_jiffiestotv:
  assumes "uint j < 2 ^ 31"
  shows "usecs (jiffiestotv j) = 10000 * uint j"
proof -
  have d: "uint (j div 100) = uint j div 100" "uint ((j mod 100) * 10000) = uint j mod 100 * 10000"
  proof -
    show "uint (j div 100) = uint j div 100" by (simp add: uint_div_distrib)
    have "0 \<le> uint j mod 100" "uint j mod 100 < 100" by simp_all
    then show "uint ((j mod 100) * 10000) = uint j mod 100 * 10000"
      by (simp add: uint_word_ariths(3) uint_mod_distrib)
  qed
  have s: "sint w = uint w" if "uint w < 2 ^ 31" for w :: u32
  proof -
    have "- (2 ^ 31) \<le> uint w" by (rule order_trans[OF _ uint_ge_0]) simp
    then show ?thesis using that by (simp add: sint_uint signed_take_bit_int_eq_self)
  qed
  have "0 \<le> uint j mod 100" "uint j mod 100 < 100" by simp_all
  then have "sint (j div 100) = uint j div 100" "sint ((j mod 100) * 10000) = uint j mod 100 * 10000"
    using s[of "j div 100"] s[of "(j mod 100) * 10000"] d assms by auto
  moreover have "1000000 * (uint j div 100) + uint j mod 100 * 10000 = 10000 * (100 * (uint j div 100) + uint j mod 100)"
    by (simp only: distrib_left)
  ultimately show ?thesis unfolding usecs_def jiffiestotv_def by (simp only: mult_div_mod_eq) simp
qed

section \<open>Properties\<close>

text \<open>
  Setting a timer and reading it back loses nothing: the interval read is the one set, rounded up to
  the next clock tick, and a value that is not zero is read back at least as long as it was set, by less
  than two ticks (plus, for the real timer, the ticks not yet charged); a zero value stays zero. So a
  timer never fires early because of rounding.
\<close>

lemma itimer_roundtrip:
  assumes "which \<in> {ITIMER_REAL, ITIMER_VIRTUAL, ITIMER_PROF}" "tv_ok (it_interval v)" "tv_ok (it_value v)"
    "uint (im_ticks s) < 10000000"
  shows "case setitimer which v want s of (r, s') \<Rightarrow>
    (case getitimer which (im_task s') of Inl e \<Rightarrow> False | Inr w \<Rightarrow>
       usecs (it_interval v) \<le> usecs (it_interval w) \<and> usecs (it_interval w) < usecs (it_interval v) + 10000 \<and>
       (if usecs (it_value v) = 0 then usecs (it_value w) = 0
        else usecs (it_value v) + 10000 \<le> usecs (it_value w) \<and>
             usecs (it_value w) < usecs (it_value v) + 20000 + (if which = ITIMER_REAL then 10000 * uint (im_ticks s) else 0)))"
proof -
  let ?i = "tvtojiffies (it_interval v)" and ?j = "tvtojiffies (it_value v)"
  note bi = ticks_up_bounds[OF assms(2)] and bj = ticks_up_bounds[OF assms(3)]
  have ui: "uint ?i = ticks_up (it_interval v)" "uint ?j = ticks_up (it_value v)" using assms(2,3) by (simp_all add: uint_tvtojiffies)
  have z: "?j = 0 \<longleftrightarrow> usecs (it_value v) = 0" using ui(2) bj(5) by (simp add: word_uint_eq_iff)
  have add: "uint (?j + 1 + x) = uint ?j + 1 + uint x" if "uint x < 10000000" for x :: u32
    using that ui bj(1,2) uint_ge_0[of x] by (simp add: uint_word_ariths(1))
  have i: "usecs (jiffiestotv ?i) = 10000 * ticks_up (it_interval v)" using ui bi(2) by (simp add: usecs_jiffiestotv)
  have j: "usecs (jiffiestotv (?j + 1 + x)) = 10000 * (ticks_up (it_value v) + 1 + uint x)" if "uint x < 10000000" for x
    using add[OF that] ui bj(2) that by (simp add: usecs_jiffiestotv)
  have j1: "usecs (jiffiestotv (?j + 1)) = 10000 * (ticks_up (it_value v) + 1)" using j[of 0] by simp
  have j0: "usecs (jiffiestotv 0) = 0" by (simp add: usecs_jiffiestotv)
  show ?thesis
  proof (cases "?j = 0")
    case True
    then show ?thesis using assms(1) bi(3,4) z i j0 by (auto simp: setitimer_def getitimer_def Let_def)
  next
    case False
    obtain n where n: "uint (im_ticks s) = n" "0 \<le> n" using uint_ge_0 by blast
    then show ?thesis using False assms(1) bi(3,4) bj(3,4) z i j1 j[OF assms(4)]
      by (auto simp: setitimer_def getitimer_def Let_def)
  qed
qed

definition example_itimer :: itimer_state where
  "example_itimer = \<lparr>im_task = INIT_TASK, im_ticks = 3, im_next = - 1\<rparr>"

theorem itimer_roundtrip_witness:
  "case setitimer ITIMER_PROF \<lparr>it_interval = \<lparr>tv_sec = 1, tv_usec = 1\<rparr>, it_value = \<lparr>tv_sec = 2, tv_usec = 0\<rparr>\<rparr> False example_itimer of
     (r, s') \<Rightarrow> (case getitimer ITIMER_PROF (im_task s') of Inl e \<Rightarrow> False
                 | Inr w \<Rightarrow> usecs (it_interval w) < 1010001 \<and> 2010000 \<le> usecs (it_value w))"
  using itimer_roundtrip[of ITIMER_PROF
      "\<lparr>it_interval = \<lparr>tv_sec = 1, tv_usec = 1\<rparr>, it_value = \<lparr>tv_sec = 2, tv_usec = 0\<rparr>\<rparr>" example_itimer False]
  by (simp add: tv_ok_def usecs_def example_itimer_def case_prod_unfold split: sum.splits)

end
