(* ===== verification/Clock.thy ===== *)
theory Clock
  imports Itimer
begin

text \<open>
  The system clock: how a timer interrupt advances it, the phase-lock loop and leap seconds
  (\<^verbatim>\<open>kernel/sched.c\<close>), and the calls that read, set and discipline it (\<^verbatim>\<open>kernel/time.c\<close>).
  All variables are 32-bit and signed; the i386 takes shift counts modulo 32.
\<close>

section \<open>Variables\<close>

definition sar32 :: "int \<Rightarrow> int \<Rightarrow> int" where
  "sar32 x n = drop_bit (nat (n mod 32)) x"

definition sal32 :: "int \<Rightarrow> int \<Rightarrow> int" where
  "sal32 x n = wrap32 (push_bit (nat (n mod 32)) x)"

definition SHIFT_HZ :: int where [kconst]: "SHIFT_HZ = 7"
definition SHIFT_KG :: int where [kconst]: "SHIFT_KG = 8"
definition SHIFT_KF :: int where [kconst]: "SHIFT_KF = 20"
definition MAXTC :: int where [kconst]: "MAXTC = 6"
definition SHIFT_SCALE :: int where [kconst]: "SHIFT_SCALE = 24"
definition SHIFT_UPDATE :: int where [kconst]: "SHIFT_UPDATE = SHIFT_KG + MAXTC"
definition FINEUSEC :: int where [kconst]: "FINEUSEC = 0x1000000"
definition MAXSEC :: int where [kconst]: "MAXSEC = 1200"
definition CLOCK_TICK_RATE :: int where [kconst]: "CLOCK_TICK_RATE = 1193180"
definition CLOCK_TICK_FACTOR :: int where [kconst]: "CLOCK_TICK_FACTOR = 20"
definition LATCH :: int where [kconst]: "LATCH = (CLOCK_TICK_RATE + HZ sdiv 2) sdiv HZ"

definition FINETUNE :: int where
  "FINETUNE =
     sal32 (sal32 (LATCH * HZ - CLOCK_TICK_RATE) SHIFT_HZ * (1000000 sdiv CLOCK_TICK_FACTOR) sdiv
            (CLOCK_TICK_RATE sdiv CLOCK_TICK_FACTOR)) (SHIFT_SCALE - SHIFT_HZ) sdiv HZ"

abbreviation (input) "TIME_OK \<equiv> (0 :: int)"
abbreviation (input) "TIME_INS \<equiv> (1 :: int)"
abbreviation (input) "TIME_DEL \<equiv> (2 :: int)"
abbreviation (input) "TIME_OOP \<equiv> (3 :: int)"
abbreviation (input) "TIME_BAD \<equiv> (4 :: int)"

record clock =
  c_sec :: int
  c_usec :: int
  c_tick :: int
  c_status :: int
  c_offset :: int
  c_constant :: int
  c_tolerance :: int
  c_precision :: int
  c_maxerror :: int
  c_esterror :: int
  c_phase :: int
  c_freq :: int
  c_adj :: int
  c_reftime :: int
  c_adjust :: int
  c_adjust_step :: int
  c_last_rtc :: int
  c_minuteswest :: int
  c_dsttime :: int
  c_firsttime :: bool

definition tickadj :: int where
  "tickadj = 500 sdiv HZ"

definition clock_boot :: clock where
  "clock_boot = \<lparr>c_sec = 0, c_usec = 0, c_tick = 1000000 sdiv HZ, c_status = TIME_BAD, c_offset = 0, c_constant = 0,
     c_tolerance = 100, c_precision = 1, c_maxerror = 0x70000000, c_esterror = 0x70000000, c_phase = 0, c_freq = 0,
     c_adj = 0, c_reftime = 0, c_adjust = 0, c_adjust_step = 0, c_last_rtc = 0, c_minuteswest = 0, c_dsttime = 0,
     c_firsttime = True\<rparr>"

section \<open>The timer interrupt\<close>

text \<open>The phase-lock loop of \<^verbatim>\<open>second_overflow\<close>.\<close>

definition run_pll :: "clock \<Rightarrow> clock" where
  "run_pll c =
     (let sh = SHIFT_SCALE - SHIFT_HZ - SHIFT_UPDATE;
          c1 = (if c_offset c < 0
                then let ltemp = wrap32 (sar32 (wrap32 (- (c_offset c + 1))) (SHIFT_KG + c_constant c) + 1);
                         adj = sal32 ltemp sh
                     in c\<lparr>c_adj := wrap32 (- adj),
                          c_offset := wrap32 (c_offset c + sar32 (wrap32 (adj * HZ)) (SHIFT_SCALE - SHIFT_UPDATE))\<rparr>
                else if c_offset c > 0
                then let ltemp = wrap32 (sar32 (c_offset c - 1) (SHIFT_KG + c_constant c) + 1);
                         adj = sal32 ltemp sh
                     in c\<lparr>c_adj := adj,
                          c_offset := wrap32 (c_offset c - sar32 (wrap32 (adj * HZ)) (SHIFT_SCALE - SHIFT_UPDATE))\<rparr>
                else c\<lparr>c_adj := 0\<rparr>)
      in c1\<lparr>c_adj := wrap32 (c_adj c1 + sar32 (c_freq c1) (SHIFT_KF + SHIFT_HZ - SHIFT_SCALE) + FINETUNE)\<rparr>)"

definition leap_second :: "clock \<Rightarrow> clock" where
  "leap_second c =
     (if c_status c = TIME_INS
      then if c_sec c smod 86400 = 0 then c\<lparr>c_sec := wrap32 (c_sec c - 1), c_status := TIME_OOP\<rparr> else c
      else if c_status c = TIME_DEL
      then if c_sec c smod 86400 = 86399 then c\<lparr>c_sec := wrap32 (c_sec c + 1), c_status := TIME_OK\<rparr> else c
      else if c_status c = TIME_OOP then c\<lparr>c_status := TIME_OK\<rparr>
      else c)"

text \<open>\<open>rtc\<close> is \<^verbatim>\<open>set_rtc_mmss\<close>: whether the battery clock took the time.\<close>

definition second_overflow :: "(int \<Rightarrow> bool) \<Rightarrow> clock \<Rightarrow> clock" where
  "second_overflow rtc c =
     (let c1 = c\<lparr>c_maxerror := (if wrap32 (0x70000000 - c_maxerror c) < c_tolerance c then 0x70000000
                                else wrap32 (c_maxerror c + c_tolerance c))\<rparr>;
          c2 = leap_second (run_pll c1)
      in if c_sec c2 > wrap32 (c_last_rtc c2 + 660) \<and> rtc (c_sec c2) then c2\<lparr>c_last_rtc := c_sec c2\<rparr> else c2)"

text \<open>The microseconds by which a tick moves the clock, and the phase that is left.\<close>

definition tick_usecs :: "clock \<Rightarrow> int \<times> int" where
  "tick_usecs c =
     (let ph = wrap32 (c_phase c + c_adj c) in
      if ph < - FINEUSEC
      then let ltemp = sar32 (wrap32 (- ph)) SHIFT_SCALE
           in (c_tick c + c_adjust_step c - ltemp, wrap32 (ph + sal32 ltemp SHIFT_SCALE))
      else if ph > FINEUSEC
      then let ltemp = sar32 ph SHIFT_SCALE
           in (c_tick c + c_adjust_step c + ltemp, wrap32 (ph - sal32 ltemp SHIFT_SCALE))
      else (c_tick c + c_adjust_step c, ph))"

definition slew :: "clock \<Rightarrow> clock" where
  "slew c =
     (if c_adjust c \<noteq> 0
      then let step = (if c_adjust c > tickadj then tickadj else if c_adjust c < - tickadj then - tickadj else c_adjust c)
           in c\<lparr>c_adjust_step := step, c_adjust := wrap32 (c_adjust c - step)\<rparr>
      else c\<lparr>c_adjust_step := 0\<rparr>)"

definition clock_tick :: "(int \<Rightarrow> bool) \<Rightarrow> clock \<Rightarrow> clock" where
  "clock_tick rtc c =
     (case tick_usecs c of (d, ph) \<Rightarrow>
        let c1 = slew (c\<lparr>c_phase := ph, c_usec := wrap32 (c_usec c + d)\<rparr>) in
        if c_usec c1 \<ge> 1000000
        then second_overflow rtc (c1\<lparr>c_usec := c_usec c1 - 1000000, c_sec := wrap32 (c_sec c1 + 1)\<rparr>)
        else c1)"

section \<open>Reading and setting\<close>

definition sys_time :: "va_fun \<Rightarrow> u32 \<Rightarrow> clock \<Rightarrow> (int \<times> int option) res" where
  "sys_time va tloc c =
     (if tloc \<noteq> 0
      then (case va VERIFY_WRITE tloc 4 of Some e \<Rightarrow> Inl e | None \<Rightarrow> Inr (c_sec c, Some (c_sec c)))
      else Inr (c_sec c, None))"

definition clock_unsync :: "clock \<Rightarrow> clock" where
  "clock_unsync c = c\<lparr>c_status := TIME_BAD, c_maxerror := 0x70000000, c_esterror := 0x70000000\<rparr>"

definition sys_stime :: "int \<Rightarrow> task_struct \<Rightarrow> clock \<Rightarrow> errno option \<times> clock" where
  "sys_stime v t c =
     (if \<not> suser t then (Some EPERM, c) else (None, clock_unsync (c\<lparr>c_sec := v, c_usec := 0\<rparr>)))"

text \<open>
  The microseconds since the last tick, from the count latched in the timer chip and whether its
  interrupt is pending; the calls below take the result as their argument \<open>off\<close>.
\<close>

definition do_gettimeoffset :: "int \<Rightarrow> bool \<Rightarrow> clock \<Rightarrow> int" where
  "do_gettimeoffset count pending c =
     (let offset = (if count > LATCH - LATCH sdiv 100 \<and> pending then c_tick c else 0);
          count1 = wrap32 ((LATCH - 1 - count) * c_tick c)
      in offset + wrap32 (count1 + LATCH sdiv 2) sdiv LATCH)"

definition do_gettimeofday :: "int \<Rightarrow> clock \<Rightarrow> timeval" where
  "do_gettimeofday off c =
     (let usec = wrap32 (c_usec c + off) in
      if usec \<ge> 1000000 then \<lparr>tv_sec = wrap32 (c_sec c + 1), tv_usec = usec - 1000000\<rparr>
      else \<lparr>tv_sec = c_sec c, tv_usec = usec\<rparr>)"

text \<open>The result, and what was stored for \<open>tv\<close> and \<open>tz\<close>: the first is stored before the second is checked.\<close>

definition sys_gettimeofday ::
  "va_fun \<Rightarrow> int \<Rightarrow> u32 \<Rightarrow> u32 \<Rightarrow> clock \<Rightarrow> errno option \<times> timeval option \<times> (int \<times> int) option" where
  "sys_gettimeofday va off tv tz c =
     (case (if tv \<noteq> 0 then va VERIFY_WRITE tv 8 else None) of
        Some e \<Rightarrow> (Some e, None, None)
      | None \<Rightarrow>
          let ktv = (if tv \<noteq> 0 then Some (do_gettimeofday off c) else None)
          in (case (if tz \<noteq> 0 then va VERIFY_WRITE tz 8 else None) of
                Some e \<Rightarrow> (Some e, ktv, None)
              | None \<Rightarrow> (None, ktv, if tz \<noteq> 0 then Some (c_minuteswest c, c_dsttime c) else None)))"

definition warp_clock :: "clock \<Rightarrow> clock" where
  "warp_clock c = c\<lparr>c_sec := wrap32 (c_sec c + c_minuteswest c * 60)\<rparr>"

text \<open>\<open>tv\<close> and \<open>tz\<close> are the values at the two addresses, \<^const>\<open>None\<close> for a null pointer.\<close>

definition sys_settimeofday :: "int \<Rightarrow> (int \<times> int) option \<Rightarrow> (int \<times> int) option \<Rightarrow> task_struct \<Rightarrow> clock \<Rightarrow> errno option \<times> clock" where
  "sys_settimeofday off tv tz t c =
     (if \<not> suser t then (Some EPERM, c)
      else
        let c1 = (case tz of
                    None \<Rightarrow> c
                  | Some (w, d) \<Rightarrow>
                      let c0 = c\<lparr>c_minuteswest := w, c_dsttime := d\<rparr> in
                      if c_firsttime c0
                      then (if tv = None then warp_clock (c0\<lparr>c_firsttime := False\<rparr>) else c0\<lparr>c_firsttime := False\<rparr>)
                      else c0)
        in (case tv of
              None \<Rightarrow> (None, c1)
            | Some (sec, usec) \<Rightarrow>
                let usec1 = wrap32 (usec - off) in
                (None, clock_unsync (if usec1 < 0 then c1\<lparr>c_sec := wrap32 (sec - 1), c_usec := usec1 + 1000000\<rparr>
                                     else c1\<lparr>c_sec := sec, c_usec := usec1\<rparr>))))"

section \<open>Disciplining\<close>

record timex =
  tx_mode :: u32
  tx_offset :: int
  tx_frequency :: int
  tx_maxerror :: int
  tx_esterror :: int
  tx_status :: int
  tx_constant :: int
  tx_precision :: int
  tx_tolerance :: int
  tx_time :: timeval
  tx_tick :: int

definition ADJ_OFFSET :: u32 where [kconst]: "ADJ_OFFSET = 1"
definition ADJ_FREQUENCY :: u32 where [kconst]: "ADJ_FREQUENCY = 2"
definition ADJ_MAXERROR :: u32 where [kconst]: "ADJ_MAXERROR = 4"
definition ADJ_ESTERROR :: u32 where [kconst]: "ADJ_ESTERROR = 8"
definition ADJ_STATUS :: u32 where [kconst]: "ADJ_STATUS = 0x10"
definition ADJ_TIMECONST :: u32 where [kconst]: "ADJ_TIMECONST = 0x20"
definition ADJ_TICK :: u32 where [kconst]: "ADJ_TICK = 0x4000"
definition ADJ_OFFSET_SINGLESHOT :: u32 where [kconst]: "ADJ_OFFSET_SINGLESHOT = 0x8001"

definition adj_mode :: "timex \<Rightarrow> u32 \<Rightarrow> bool" where
  "adj_mode txc m \<longleftrightarrow> tx_mode txc AND m \<noteq> 0"

definition adj_offset :: "int \<Rightarrow> clock \<Rightarrow> clock" where
  "adj_offset off c =
     (let mtemp0 = wrap32 (c_sec c - c_reftime c);
          mtemp = (if mtemp0 > MAXSEC + 2 \<or> mtemp0 < 0 then 0 else mtemp0);
          sh = c_constant c + c_constant c;
          freq = (if off < 0 then wrap32 (c_freq c - sar32 (wrap32 (- off * mtemp)) sh)
                  else wrap32 (c_freq c + sar32 (wrap32 (off * mtemp)) sh));
          ltemp = sal32 (c_tolerance c) SHIFT_KF
      in c\<lparr>c_offset := sal32 off SHIFT_UPDATE, c_reftime := c_sec c,
           c_freq := (if freq > ltemp then ltemp else if freq < - ltemp then - ltemp else freq)\<rparr>)"

definition adj_apply :: "timex \<Rightarrow> clock \<Rightarrow> clock" where
  "adj_apply txc c =
     (let c1 = (if c_status c = TIME_BAD then c\<lparr>c_status := TIME_OK\<rparr> else c);
          c2 = (if adj_mode txc ADJ_STATUS then c1\<lparr>c_status := tx_status txc\<rparr> else c1);
          c3 = (if adj_mode txc ADJ_FREQUENCY then c2\<lparr>c_freq := sal32 (tx_frequency txc) (SHIFT_KF - 16)\<rparr> else c2);
          c4 = (if adj_mode txc ADJ_MAXERROR then c3\<lparr>c_maxerror := tx_maxerror txc\<rparr> else c3);
          c5 = (if adj_mode txc ADJ_ESTERROR then c4\<lparr>c_esterror := tx_esterror txc\<rparr> else c4);
          c6 = (if adj_mode txc ADJ_TIMECONST then c5\<lparr>c_constant := tx_constant txc\<rparr> else c5);
          c7 = (if adj_mode txc ADJ_OFFSET
                then if tx_mode txc = ADJ_OFFSET_SINGLESHOT then c6\<lparr>c_adjust := tx_offset txc\<rparr>
                     else adj_offset (tx_offset txc) c6
                else c6)
      in if adj_mode txc ADJ_TICK then c7\<lparr>c_tick := tx_tick txc\<rparr> else c7)"

text \<open>The new \<^verbatim>\<open>txc\<close>, and the status that is returned.\<close>

definition sys_adjtimex ::
  "va_fun \<Rightarrow> u32 \<Rightarrow> timex \<Rightarrow> task_struct \<Rightarrow> clock \<Rightarrow> (timex \<times> int) res \<times> clock" where
  "sys_adjtimex va txc_p txc t c =
     (case va VERIFY_WRITE txc_p 48 of
        Some e \<Rightarrow> (Inl e, c)
      | None \<Rightarrow>
          if tx_mode txc \<noteq> 0 \<and> \<not> suser t then (Inl EPERM, c)
          else if adj_mode txc ADJ_OFFSET \<and>
                  (tx_offset txc \<le> - sal32 1 (31 - SHIFT_UPDATE) \<or> tx_offset txc \<ge> sal32 1 (31 - SHIFT_UPDATE))
          then (Inl EINVAL, c)
          else if adj_mode txc ADJ_STATUS \<and> (tx_status txc < TIME_OK \<or> tx_status txc > TIME_BAD) then (Inl EINVAL, c)
          else if adj_mode txc ADJ_TICK \<and> (tx_tick txc < 900000 sdiv HZ \<or> tx_tick txc > 1100000 sdiv HZ)
          then (Inl EINVAL, c)
          else
            let c1 = (if tx_mode txc \<noteq> 0 then adj_apply txc c else c);
                out = txc\<lparr>tx_offset := c_adjust c, tx_frequency := sar32 (wrap32 (c_freq c1 + 1)) (SHIFT_KF - 16),
                          tx_maxerror := c_maxerror c1, tx_esterror := c_esterror c1, tx_status := c_status c1,
                          tx_constant := c_constant c1, tx_precision := c_precision c1, tx_tolerance := c_tolerance c1,
                          tx_time := \<lparr>tv_sec = c_sec c1, tv_usec = c_usec c1\<rparr>, tx_tick := c_tick c1\<rparr>
            in (Inr (out, c_status c1), c1))"

section \<open>What a tick leaves alone\<close>

lemma tickadj_5: "tickadj = 5"
  by (simp add: tickadj_def HZ_def)

lemma run_pll_fields [simp]:
  "c_sec (run_pll c) = c_sec c" "c_usec (run_pll c) = c_usec c" "c_tick (run_pll c) = c_tick c"
  "c_adjust (run_pll c) = c_adjust c" "c_adjust_step (run_pll c) = c_adjust_step c" "c_status (run_pll c) = c_status c"
  by (simp_all add: run_pll_def Let_def)

lemma leap_second_fields [simp]:
  "c_usec (leap_second c) = c_usec c" "c_tick (leap_second c) = c_tick c"
  "c_adjust (leap_second c) = c_adjust c" "c_adjust_step (leap_second c) = c_adjust_step c"
  "c_status c \<noteq> TIME_INS \<Longrightarrow> c_status c \<noteq> TIME_DEL \<Longrightarrow> c_sec (leap_second c) = c_sec c"
  by (simp_all add: leap_second_def)

lemma second_overflow_fields [simp]:
  "c_usec (second_overflow rtc c) = c_usec c" "c_tick (second_overflow rtc c) = c_tick c"
  "c_adjust (second_overflow rtc c) = c_adjust c" "c_adjust_step (second_overflow rtc c) = c_adjust_step c"
  "c_status c \<noteq> TIME_INS \<Longrightarrow> c_status c \<noteq> TIME_DEL \<Longrightarrow> c_sec (second_overflow rtc c) = c_sec c"
  by (simp_all add: second_overflow_def Let_def)

lemma slew_fields [simp]:
  "c_sec (slew c) = c_sec c" "c_usec (slew c) = c_usec c" "c_tick (slew c) = c_tick c" "c_status (slew c) = c_status c"
  by (simp_all add: slew_def Let_def)

text \<open>A 32-bit phase holds at most 128 microseconds, whatever the loop did.\<close>

lemma sar_scale:
  assumes "- 2147483648 \<le> x" "x \<le> 2147483647"
  shows "- 128 \<le> sar32 x SHIFT_SCALE" "sar32 x SHIFT_SCALE \<le> 127"
proof -
  have "sar32 x SHIFT_SCALE = x div 16777216" by (simp add: sar32_def kconst drop_bit_int_def)
  moreover have "- 128 \<le> x div 16777216" "x div 16777216 \<le> 127" using assms by linarith+
  ultimately show "- 128 \<le> sar32 x SHIFT_SCALE" "sar32 x SHIFT_SCALE \<le> 127" by simp_all
qed

text \<open>
  The invariant: the tick, the correction and the pending adjustment are in range, and the microseconds
  are a 32-bit number. They are normalised when they are below a second.
\<close>

definition clock_ok :: "clock \<Rightarrow> bool" where
  "clock_ok c \<longleftrightarrow> 9000 \<le> c_tick c \<and> c_tick c \<le> 11000 \<and> - 5 \<le> c_adjust_step c \<and> c_adjust_step c \<le> 5 \<and>
     - 2147483648 \<le> c_adjust c \<and> c_adjust c \<le> 2147483647 \<and> - 2147483648 \<le> c_usec c \<and> c_usec c \<le> 2147483647"

definition normalised :: "clock \<Rightarrow> bool" where
  "normalised c \<longleftrightarrow> 0 \<le> c_usec c \<and> c_usec c < 1000000"

text \<open>What the phase adds to a tick.\<close>

definition phase_usecs :: "clock \<Rightarrow> int" where
  "phase_usecs c =
     (let ph = wrap32 (c_phase c + c_adj c) in
      if ph < - 16777216 then - (wrap32 (- ph) div 16777216) else if ph > 16777216 then ph div 16777216 else 0)"

lemma tick_usecs_parts: "fst (tick_usecs c) = c_tick c + c_adjust_step c + phase_usecs c"
  by (simp add: tick_usecs_def phase_usecs_def Let_def sar32_def kconst drop_bit_int_def)

lemma phase_usecs_bounds: "- 128 \<le> phase_usecs c" "phase_usecs c \<le> 128"
proof -
  have r: "\<And>x. - 128 \<le> wrap32 x div 16777216" "\<And>x. wrap32 x div 16777216 \<le> 127"
    using sar_scale[OF wrap32_range] by (simp_all add: sar32_def kconst drop_bit_int_def)
  show "- 128 \<le> phase_usecs c" "phase_usecs c \<le> 128"
    using r[of "c_phase c + c_adj c"] r[of "- wrap32 (c_phase c + c_adj c)"] by (auto simp: phase_usecs_def Let_def)
qed

lemma tick_usecs_bounds:
  assumes "clock_ok c"
  shows "8867 \<le> fst (tick_usecs c)" "fst (tick_usecs c) \<le> 11133"
  using assms phase_usecs_bounds[of c] by (auto simp: clock_ok_def tick_usecs_parts)

lemma slew_step:
  assumes "clock_ok c"
  shows "- 5 \<le> c_adjust_step (slew c)" "c_adjust_step (slew c) \<le> 5"
    "c_adjust (slew c) = c_adjust c - c_adjust_step (slew c)"
    "\<bar>c_adjust (slew c)\<bar> = (if \<bar>c_adjust c\<bar> \<le> 5 then 0 else \<bar>c_adjust c\<bar> - 5)"
    "c_adjust c = 0 \<Longrightarrow> c_adjust_step (slew c) = 0"
proof -
  let ?st = "if c_adjust c > 5 then 5 else if c_adjust c < - 5 then - 5 else c_adjust c"
  have w: "wrap32 (c_adjust c - ?st) = c_adjust c - ?st" using assms by (intro wrap32_id) (auto simp: clock_ok_def)
  show "- 5 \<le> c_adjust_step (slew c)" "c_adjust_step (slew c) \<le> 5"
    "c_adjust (slew c) = c_adjust c - c_adjust_step (slew c)"
    "\<bar>c_adjust (slew c)\<bar> = (if \<bar>c_adjust c\<bar> \<le> 5 then 0 else \<bar>c_adjust c\<bar> - 5)"
    "c_adjust c = 0 \<Longrightarrow> c_adjust_step (slew c) = 0"
    using w by (auto simp: slew_def tickadj_5 Let_def)
qed

lemma slew_range:
  assumes "clock_ok c"
  shows "- 2147483648 \<le> c_adjust (slew c)" "c_adjust (slew c) \<le> 2147483647"
  using assms wrap32_range by (auto simp: slew_def Let_def clock_ok_def)

text \<open>The effect of a tick on the time of day and on the pending adjustment.\<close>

definition clock_usecs :: "clock \<Rightarrow> int" where
  "clock_usecs c = 1000000 * c_sec c + c_usec c"

lemma second_overflow_status:
  "c_status c \<notin> {TIME_INS, TIME_DEL} \<Longrightarrow> c_status (second_overflow rtc c) \<notin> {TIME_INS, TIME_DEL}"
  by (simp add: second_overflow_def leap_second_def Let_def)

lemma clock_tick_effect:
  assumes "clock_ok c"
  shows "clock_ok (clock_tick rtc c)" "c_tick (clock_tick rtc c) = c_tick c"
    "c_usec (clock_tick rtc c) = (let u = wrap32 (c_usec c + fst (tick_usecs c)) in if 1000000 \<le> u then u - 1000000 else u)"
    "c_adjust (clock_tick rtc c) = c_adjust (slew c)" "c_adjust_step (clock_tick rtc c) = c_adjust_step (slew c)"
    "c_status c \<notin> {TIME_INS, TIME_DEL} \<Longrightarrow> c_status (clock_tick rtc c) \<notin> {TIME_INS, TIME_DEL}"
    "c_status c \<notin> {TIME_INS, TIME_DEL} \<Longrightarrow> c_usec c \<le> 2147472514 \<Longrightarrow> - 2147483648 \<le> c_sec c \<Longrightarrow> c_sec c < 2147483647 \<Longrightarrow>
       clock_usecs (clock_tick rtc c) = clock_usecs c + fst (tick_usecs c) \<and> c_sec c \<le> c_sec (clock_tick rtc c) \<and>
       c_sec (clock_tick rtc c) \<le> c_sec c + 1"
proof -
  obtain d ph where d: "tick_usecs c = (d, ph)" by (cases "tick_usecs c")
  let ?u = "wrap32 (c_usec c + d)"
  let ?c = "c\<lparr>c_phase := ph, c_usec := ?u\<rparr>"
  have a: "c_adjust (slew ?c) = c_adjust (slew c)" "c_adjust_step (slew ?c) = c_adjust_step (slew c)"
    by (simp_all add: slew_def Let_def)
  have e: "clock_tick rtc c = (if 1000000 \<le> ?u
      then second_overflow rtc ((slew ?c)\<lparr>c_usec := ?u - 1000000, c_sec := wrap32 (c_sec c + 1)\<rparr>) else slew ?c)"
    by (simp add: clock_tick_def d Let_def)
  show T: "c_tick (clock_tick rtc c) = c_tick c"
    and U: "c_usec (clock_tick rtc c) = (let u = wrap32 (c_usec c + fst (tick_usecs c)) in if 1000000 \<le> u then u - 1000000 else u)"
    and A: "c_adjust (clock_tick rtc c) = c_adjust (slew c)" "c_adjust_step (clock_tick rtc c) = c_adjust_step (slew c)"
    using a by (simp_all add: e d Let_def)
  have "- 2147483648 \<le> c_usec (clock_tick rtc c)" "c_usec (clock_tick rtc c) \<le> 2147483647"
    using wrap32_range[of "c_usec c + d"] by (auto simp: U d Let_def)
  then show "clock_ok (clock_tick rtc c)"
    using assms A T slew_step(1,2)[OF assms] slew_range[OF assms] unfolding clock_ok_def by auto
  assume s: "c_status c \<notin> {TIME_INS, TIME_DEL}"
  show "c_status (clock_tick rtc c) \<notin> {TIME_INS, TIME_DEL}" using s by (simp add: e second_overflow_status del: insert_iff)
  assume u: "c_usec c \<le> 2147472514" "- 2147483648 \<le> c_sec c" "c_sec c < 2147483647"
  have "wrap32 (c_sec c + 1) = c_sec c + 1" "?u = c_usec c + d"
    using u assms tick_usecs_bounds[OF assms] d by (auto simp: clock_ok_def intro!: wrap32_id)
  then show "clock_usecs (clock_tick rtc c) = clock_usecs c + fst (tick_usecs c) \<and> c_sec c \<le> c_sec (clock_tick rtc c) \<and>
       c_sec (clock_tick rtc c) \<le> c_sec c + 1"
    using s by (simp add: e d clock_usecs_def)
qed

text \<open>
  Microseconds out of range come back: a negative value grows by at least 8867 per tick, one above a
  second shrinks by at least 988867, and one that wraps is negative then. The ticks this takes at most:
\<close>

definition settling :: "int \<Rightarrow> nat" where
  "settling u = (if 0 \<le> u \<and> u < 1000000 then 0 else if u < 0 then nat ((8866 - u) div 8867)
     else nat (u div 988867) + 242192)"


lemma settling_step:
  assumes u: "- 2147483648 \<le> u" "u \<le> 2147483647" and d: "8867 \<le> d" "d \<le> 11133"
    and u': "u' = (let w = wrap32 (u + d) in if 1000000 \<le> w then w - 1000000 else w)"
  shows "settling u' \<le> settling u - 1"
proof -
  consider (neg) "u < 0" | (norm) "0 \<le> u" "u < 1000000" | (large) "1000000 \<le> u" "u + d < 2147483648" | (wraps) "2147483648 \<le> u + d"
    using u by linarith
  then show ?thesis
  proof cases
    case neg
    then have "u' = u + d" using u d by (subst u', subst wrap32_id) auto
    moreover have "(8866 - (u + d)) div 8867 \<le> (8866 - u + (- 1) * 8867) div 8867" using d by (intro zdiv_mono1) auto
    moreover have "1 \<le> (8866 - u) div 8867" using neg by linarith
    ultimately show ?thesis using neg d by (auto simp: settling_def)
  next
    case norm
    then show ?thesis using d by (subst u', subst wrap32_id) (auto simp: settling_def Let_def)
  next
    case large
    then have e: "u' = u + d - 1000000" using d by (subst u', subst wrap32_id) auto
    have "(u + d - 1000000) div 988867 \<le> (u + (- 1) * 988867) div 988867" using d by (intro zdiv_mono1) auto
    moreover have "1 \<le> u div 988867" using large by linarith
    ultimately show ?thesis using e large d by (auto simp: settling_def)
  next
    case wraps
    have "wrap32 (u + d) = u + d - 4294967296"
    proof -
      have "(4294967296 :: u32) = 0" by (simp add: word_eq_iff_unsigned)
      then have "(word_of_int (u + d - 4294967296) :: u32) = word_of_int (u + d)" by simp
      then have "wrap32 (u + d) = wrap32 (u + d - 4294967296)" by (simp only: wrap32_def)
      also have "... = u + d - 4294967296" using wraps u d by (intro wrap32_id) auto
      finally show ?thesis .
    qed
    then have e: "u' = u + d - 4294967296" using u d unfolding u' by simp
    then have "- 2147483648 \<le> u'" "u' < 0" using wraps u d by auto
    then have "settling u' \<le> nat ((8866 + 2147483648) div 8867)" by (auto simp: settling_def intro!: nat_mono zdiv_mono1)
    moreover have "0 \<le> u div 988867" "settling u = nat (u div 988867) + 242192" using wraps d by (auto simp: settling_def)
    ultimately show ?thesis by simp
  qed
qed

lemma ticks_settle:
  assumes "clock_ok c"
  shows "clock_ok ((clock_tick rtc ^^ n) c) \<and> settling (c_usec ((clock_tick rtc ^^ n) c)) \<le> settling (c_usec c) - n"
proof (induction n)
  case (Suc n)
  let ?c = "(clock_tick rtc ^^ n) c"
  have ok: "clock_ok ?c" using Suc by simp
  have "settling (c_usec (clock_tick rtc ?c)) \<le> settling (c_usec ?c) - 1"
    by (rule settling_step[OF _ _ tick_usecs_bounds[OF ok] clock_tick_effect(3)[OF ok]]) (use ok in \<open>auto simp: clock_ok_def\<close>)
  then have "settling (c_usec (clock_tick rtc ?c)) \<le> settling (c_usec c) - Suc n" using Suc by linarith
  then show ?case using clock_tick_effect(1)[OF ok] by simp
qed (simp add: assms)

lemma settled: "settling u = 0 \<longleftrightarrow> 0 \<le> u \<and> u < 1000000"
proof -
  have "0 < (8866 - u) div 8867" if "u < 0" using that by linarith
  then show ?thesis by (auto simp: settling_def)
qed



section \<open>Everything that happens to the clock\<close>

text \<open>The calls are made by any task with any 32-bit arguments.\<close>

inductive clock_step :: "clock \<Rightarrow> clock \<Rightarrow> bool" where
  clock_interrupt: "clock_step c (clock_tick rtc c)"
| clock_stime: "clock_step c (snd (sys_stime v t c))"
| clock_settime: "0 \<le> count \<Longrightarrow> count \<le> LATCH \<Longrightarrow>
    clock_step c (snd (sys_settimeofday (do_gettimeoffset count pending c) tv tz t c))"
| clock_adjtimex: "- 2147483648 \<le> tx_offset txc \<Longrightarrow> tx_offset txc \<le> 2147483647 \<Longrightarrow>
    clock_step c (snd (sys_adjtimex va p txc t c))"

lemma adj_offset_fields [simp]:
  "c_usec (adj_offset x c) = c_usec c" "c_tick (adj_offset x c) = c_tick c" "c_sec (adj_offset x c) = c_sec c"
  "c_adjust (adj_offset x c) = c_adjust c" "c_adjust_step (adj_offset x c) = c_adjust_step c"
  by (simp_all add: adj_offset_def Let_def)

lemma adj_apply_fields:
  "c_usec (adj_apply txc c) = c_usec c" "c_sec (adj_apply txc c) = c_sec c" "c_adjust_step (adj_apply txc c) = c_adjust_step c"
  "c_tick (adj_apply txc c) = (if adj_mode txc ADJ_TICK then tx_tick txc else c_tick c)"
  "c_adjust (adj_apply txc c) = (if adj_mode txc ADJ_OFFSET \<and> tx_mode txc = ADJ_OFFSET_SINGLESHOT then tx_offset txc else c_adjust c)"
  by (simp_all add: adj_apply_def Let_def)

lemma settime_fields:
  "c_tick (snd (sys_settimeofday off tv tz t c)) = c_tick c" "c_adjust (snd (sys_settimeofday off tv tz t c)) = c_adjust c"
  "c_adjust_step (snd (sys_settimeofday off tv tz t c)) = c_adjust_step c"
  "c_usec (snd (sys_settimeofday off tv tz t c)) =
     (case tv of Some (sec, usec) \<Rightarrow>
        if suser t then let u = wrap32 (usec - off) in if u < 0 then u + 1000000 else u else c_usec c
      | None \<Rightarrow> c_usec c)"
  by (simp_all add: sys_settimeofday_def clock_unsync_def warp_clock_def Let_def split: option.split prod.split)

lemma clock_step_ok:
  assumes "clock_ok c" "clock_step c c'"
  shows "clock_ok c'"
  using assms(2)
proof cases
  case (clock_interrupt rtc)
  then show ?thesis using clock_tick_effect(1)[OF assms(1)] by simp
next
  case (clock_stime v t)
  then show ?thesis using assms(1) by (simp add: sys_stime_def clock_unsync_def clock_ok_def)
next
  case (clock_settime count pending tv tz t)
  let ?w = "\<lambda>usec. wrap32 (usec - do_gettimeoffset count pending c)"
  have "- 2147483648 \<le> (if ?w u < 0 then ?w u + 1000000 else ?w u) \<and> (if ?w u < 0 then ?w u + 1000000 else ?w u) \<le> 2147483647" for u
    using wrap32_range[of "u - do_gettimeoffset count pending c"] by auto
  then show ?thesis using assms(1) unfolding clock_settime(1)
    by (simp add: clock_ok_def settime_fields Let_def split: option.split)
next
  case (clock_adjtimex txc va p t)
  show ?thesis unfolding clock_adjtimex(1) sys_adjtimex_def Let_def
    using assms(1) clock_adjtimex(2,3)
    by (simp add: clock_ok_def adj_apply_fields HZ_def split: option.split)
qed

interpretation clocks: invariant_system clock_ok clock_step clock_ok
  by unfold_locales (auto intro: clock_step_ok)

lemma reachable_ok: "clock_step\<^sup>*\<^sup>* clock_boot c \<Longrightarrow> clock_ok c"
  using clocks.steps_inv[of clock_boot c] by (simp add: clock_ok_def clock_boot_def HZ_def)


section \<open>Properties\<close>



text \<open>The call of the witness leaves the clock out of range until the interrupts have brought it back.\<close>

lemma settimeofday_unchecked:
  "c_usec (snd (sys_settimeofday 0 (Some (7, 2000000)) None INIT_TASK clock_boot)) = 2000000"
proof -
  have "wrap32 2000000 = 2000000" by (rule wrap32_id) simp_all
  then show ?thesis by (simp add: settime_fields suser_def INIT_TASK_def)
qed

text \<open>
  C29. The clock never runs backwards: apart from leap seconds, and as long as its 32-bit seconds and
  microseconds do not overflow, every timer interrupt moves it forward, by between 8.867 and 11.133
  milliseconds, after any sequence of interrupts and calls.
\<close>

theorem clock_monotone:
  assumes "clock_step\<^sup>*\<^sup>* clock_boot c" "c_status c \<notin> {TIME_INS, TIME_DEL}"
    "- 2147483648 \<le> c_sec c" "c_sec c < 2147483647" "c_usec c \<le> 2147472514"
  shows "clock_usecs c + 8867 \<le> clock_usecs (clock_tick rtc c) \<and> clock_usecs (clock_tick rtc c) \<le> clock_usecs c + 11133"
proof -
  have ok: "clock_ok c" by (rule reachable_ok[OF assms(1)])
  show ?thesis using clock_tick_effect(7)[OF ok assms(2,5,3,4)] tick_usecs_bounds[OF ok] by simp
qed

theorem clock_monotone_witness: "8867 \<le> clock_usecs (clock_tick (\<lambda>_. False) clock_boot)"
  using clock_monotone[where c = clock_boot and rtc = "\<lambda>_. False"] by (simp add: clock_boot_def clock_usecs_def)

text \<open>The clock after \<open>n\<close> interrupts, and what it was before each of them.\<close>

primrec clock_ticks :: "(int \<Rightarrow> bool) \<Rightarrow> nat \<Rightarrow> clock \<Rightarrow> clock \<times> clock list" where
  "clock_ticks rtc 0 c = (c, [])"
| "clock_ticks rtc (Suc n) c = (case clock_ticks rtc n (clock_tick rtc c) of (c', cs) \<Rightarrow> (c', c # cs))"

lemma clock_ticks_sum:
  assumes "clock_ok c" "normalised c" "c_status c \<notin> {TIME_INS, TIME_DEL}" "- 2147483648 \<le> c_sec c" "c_sec c + int n < 2147483648"
  shows "case clock_ticks rtc n c of (c', cs) \<Rightarrow>
    clock_ok c' \<and> \<bar>c_adjust c'\<bar> = max 0 (\<bar>c_adjust c\<bar> - 5 * int n) \<and>
    clock_usecs c' + c_adjust_step c' + c_adjust c' =
      clock_usecs c + c_adjust_step c + c_adjust c + (\<Sum>k\<leftarrow>cs. c_tick c + phase_usecs k)"
  using assms
proof (induction n arbitrary: c)
  case (Suc n)
  let ?c = "clock_tick rtc c"
  note e = clock_tick_effect[OF Suc.prems(1), where rtc = rtc] and s = slew_step[OF Suc.prems(1)]
  have "settling (c_usec c) = 0" using Suc.prems(2) by (simp add: settled normalised_def)
  then have "settling (c_usec ?c) = 0" using ticks_settle[OF Suc.prems(1), where rtc = rtc and n = 1] by simp
  then have nm: "normalised ?c" by (simp add: settled normalised_def)
  have u: "c_usec c \<le> 2147472514" "c_sec c < 2147483647" using Suc.prems(2,5) by (auto simp: normalised_def)
  have m: "clock_usecs ?c = clock_usecs c + fst (tick_usecs c)" "c_sec c \<le> c_sec ?c" "c_sec ?c \<le> c_sec c + 1"
    using e(7)[OF Suc.prems(3) u(1) Suc.prems(4) u(2)] by auto
  obtain c' cs where c': "clock_ticks rtc n ?c = (c', cs)" by (cases "clock_ticks rtc n ?c")
  have "- 2147483648 \<le> c_sec ?c" "c_sec ?c + int n < 2147483648" using m Suc.prems(4,5) by auto
  from Suc.IH[OF e(1) nm e(6)[OF Suc.prems(3)] this]
  have IH: "clock_ok c'" "\<bar>c_adjust c'\<bar> = max 0 (\<bar>c_adjust (slew c)\<bar> - 5 * int n)"
    "clock_usecs c' + c_adjust_step c' + c_adjust c' =
      clock_usecs ?c + c_adjust_step (slew c) + c_adjust (slew c) + (\<Sum>k\<leftarrow>cs. c_tick c + phase_usecs k)"
    unfolding c' e(2,4,5) by auto
  have "\<bar>c_adjust c'\<bar> = max 0 (\<bar>c_adjust c\<bar> - 5 * int (Suc n))" using IH(2) s(4) by (auto simp: max_def split: if_splits)
  moreover have "clock_usecs c' + c_adjust_step c' + c_adjust c' =
      clock_usecs c + c_adjust_step c + c_adjust c + (\<Sum>k\<leftarrow>c # cs. c_tick c + phase_usecs k)"
    using IH(3) m(1) s(3) tick_usecs_parts[of c] by simp
  ultimately show ?case using IH(1) c' by simp
qed simp

lemma clock_ticks_last: "fst (clock_ticks rtc (Suc n) c) = clock_tick rtc (fst (clock_ticks rtc n c))"
proof (induction n arbitrary: c)
  case (Suc n)
  have f: "fst (clock_ticks rtc (Suc m) c) = fst (clock_ticks rtc m (clock_tick rtc c))" for m c
    by (simp split: prod.split)
  show ?case using Suc[of "clock_tick rtc c"] f[of "Suc n" c] f[of n c] by (simp del: clock_ticks.simps)
qed simp

text \<open>
  C31. An adjustment asked for with \<^verbatim>\<open>adjtimex\<close> is carried out and ends: when \<open>5 n\<close> is at least its size,
  \<open>n + 1\<close> interrupts without a leap second or an overflow of the seconds move the clock by one tick each,
  by what the phase adds and by the whole adjustment, with the correction that was already decided, and
  nothing is left of either.
\<close>

theorem adjustment_completes:
  assumes "clock_step\<^sup>*\<^sup>* clock_boot c" "normalised c" "\<bar>c_adjust c\<bar> \<le> 5 * int n" "c_status c \<notin> {TIME_INS, TIME_DEL}"
    "- 2147483648 \<le> c_sec c" "c_sec c + int n < 2147483647"
  shows "case clock_ticks rtc (Suc n) c of (c', cs) \<Rightarrow>
    c_adjust c' = 0 \<and> c_adjust_step c' = 0 \<and>
    clock_usecs c' = clock_usecs c + c_adjust c + c_adjust_step c + (\<Sum>k\<leftarrow>cs. c_tick c + phase_usecs k)"
proof -
  have ok: "clock_ok c" by (rule reachable_ok[OF assms(1)])
  obtain c1 cs1 where c1: "clock_ticks rtc n c = (c1, cs1)" by (cases "clock_ticks rtc n c")
  obtain c' cs where c': "clock_ticks rtc (Suc n) c = (c', cs)" by (cases "clock_ticks rtc (Suc n) c")
  have s1: "clock_ok c1" "c_adjust c1 = 0"
    using clock_ticks_sum[OF ok assms(2,4,5), where n = n and rtc = rtc] assms(3,6) unfolding c1 by auto
  have l: "c' = clock_tick rtc c1" using clock_ticks_last[of rtc n c] c1 c' by simp
  have "c_adjust c' = 0" "c_adjust_step c' = 0"
    unfolding l clock_tick_effect(4,5)[OF s1(1)] using slew_step(3,5)[OF s1(1)] s1(2) by auto
  then show ?thesis using clock_ticks_sum[OF ok assms(2,4,5), where n = "Suc n" and rtc = rtc] assms(6) unfolding c' by simp
qed

definition example_timex :: timex where
  "example_timex = \<lparr>tx_mode = ADJ_OFFSET_SINGLESHOT, tx_offset = 12, tx_frequency = 0, tx_maxerror = 0, tx_esterror = 0,
     tx_status = 0, tx_constant = 0, tx_precision = 0, tx_tolerance = 0, tx_time = \<lparr>tv_sec = 0, tv_usec = 0\<rparr>, tx_tick = 0\<rparr>"

theorem adjustment_completes_witness:
  "case clock_ticks (\<lambda>_. False) 4 (adj_apply example_timex clock_boot) of
     (c', cs) \<Rightarrow> c_adjust c' = 0 \<and> clock_usecs c' = 12 + (\<Sum>k\<leftarrow>cs. 10000 + phase_usecs k)"
proof -
  let ?x = example_timex
  let ?c = "adj_apply ?x clock_boot"
  have m: "adj_mode ?x ADJ_OFFSET" "\<not> adj_mode ?x ADJ_STATUS" "\<not> adj_mode ?x ADJ_TICK"
    by (simp_all add: adj_mode_def example_timex_def kconst)
  have "snd (sys_adjtimex (\<lambda>_ _ _. None) 0 ?x INIT_TASK clock_boot) = ?c"
    using m by (simp add: sys_adjtimex_def Let_def suser_def INIT_TASK_def example_timex_def kconst sal32_def wrap32_def)
  then have r: "clock_step\<^sup>*\<^sup>* clock_boot ?c"
    using clock_adjtimex[of ?x clock_boot "\<lambda>_ _ _. None" 0 INIT_TASK] by (simp add: r_into_rtranclp example_timex_def)
  have a: "c_adjust ?c = 12" "c_adjust_step ?c = 0" "clock_usecs ?c = 0" "c_tick ?c = 10000" "normalised ?c" "c_sec ?c = 0"
    using m by (simp_all add: adj_apply_fields example_timex_def clock_boot_def clock_usecs_def normalised_def HZ_def)
  have "c_status ?c \<notin> {TIME_INS, TIME_DEL}"
    by (simp add: adj_apply_def clock_boot_def Let_def adj_mode_def example_timex_def kconst adj_offset_def)
  then show ?thesis using adjustment_completes[OF r a(5), where n = 3 and rtc = "\<lambda>_. False"] a
    by (simp split: prod.splits add: numeral_eq_Suc)
qed

text \<open>
  Setting the time and reading it back in the same tick gives the time that was set: \<^verbatim>\<open>settimeofday\<close>
  undoes the correction that \<^verbatim>\<open>gettimeofday\<close> adds.
\<close>

lemma settimeofday_gettimeofday:
  assumes "suser t" "0 \<le> usec" "usec < 1000000" "0 \<le> off" "off \<le> 1000000" "- 2147483647 \<le> sec" "sec \<le> 2147483647"
  shows "do_gettimeofday off (snd (sys_settimeofday off (Some (sec, usec)) tz t c)) = \<lparr>tv_sec = sec, tv_usec = usec\<rparr>"
proof -
  have w: "wrap32 (usec - off) = usec - off" "wrap32 usec = usec" "wrap32 (usec + 1000000) = usec + 1000000"
    "wrap32 (sec - 1) = sec - 1" "wrap32 sec = sec"
    using assms by (auto intro!: wrap32_id)
  show ?thesis
    using assms w by (auto simp: sys_settimeofday_def do_gettimeofday_def clock_unsync_def Let_def split: option.split)
qed

theorem settimeofday_gettimeofday_witness:
  "do_gettimeofday 7000 (snd (sys_settimeofday 7000 (Some (100, 500)) None INIT_TASK clock_boot)) = \<lparr>tv_sec = 100, tv_usec = 500\<rparr>"
  by (rule settimeofday_gettimeofday) (simp_all add: suser_def INIT_TASK_def)

end
