(* ===== verification/Sched.thy ===== *)
theory Sched
  imports Signal Clock Timer_List Wait_Queue
begin

text \<open>
  The scheduler and the timer interrupt (\<^verbatim>\<open>kernel/sched.c\<close>): \<^verbatim>\<open>schedule\<close> with its first pass over
  real timers, signals and timeouts, the choice of the next task, the load averages, \<^verbatim>\<open>do_timer\<close> as a
  whole, sleeping, and the small calls of the same file.
\<close>

section \<open>State\<close>

text \<open>The globals of the file; \<open>sd_bh\<close> tells whether the timer bottom half is marked.\<close>

record sched_state =
  sd_k :: kstate
  sd_clock :: clock
  sd_jiffies :: u32
  sd_itimer_ticks :: u32
  sd_itimer_next :: u32
  sd_need_resched :: bool
  sd_intr_count :: u32
  sd_swtch :: u32
  sd_cpu_user :: u32
  sd_cpu_nice :: u32
  sd_cpu_system :: u32
  sd_avenrun :: "u32 list"
  sd_load_count :: int
  sd_timers :: "timer_list list"
  sd_lost_ticks :: u32
  sd_timer_active :: u32
  sd_timer_table :: "u32 list"
  sd_bh :: bool

abbreviation (input) "SIGALRM \<equiv> (14 :: u32)"
abbreviation (input) "SIGVTALRM \<equiv> (26 :: u32)"
abbreviation (input) "SIGPROF \<equiv> (27 :: u32)"
abbreviation (input) "TASK_SWAPPING \<equiv> (5 :: int)"

section \<open>schedule\<close>

text \<open>The loop that reloads an expired real timer; it may run forever when \<open>ticks\<close> is \<open>2\<^sup>3\<^sup>2 - 1\<close>.\<close>

partial_function (option) reload_timer :: "u32 \<Rightarrow> u32 \<Rightarrow> u32 \<Rightarrow> u32 option" where
  "reload_timer ticks incr v = (if v + incr \<le> ticks then reload_timer ticks incr (v + incr) else Some (v + incr))"

definition real_timer :: "u32 \<Rightarrow> nat \<Rightarrow> kstate \<times> u32 \<Rightarrow> (kstate \<times> u32) option" where
  "real_timer ticks p s =
     (case s of (k, itimer_next) \<Rightarrow>
        let t = the_task k p in
        if ticks \<noteq> 0 \<and> t_it_real_value t \<noteq> 0
        then
          if t_it_real_value t \<le> ticks
          then
            let k1 = snd (send_sig SIGALRM (Some p) True k); t1 = the_task k1 p in
            if t_it_real_incr t1 = 0 then Some (put_task p (t1\<lparr>t_it_real_value := 0\<rparr>) k1, itimer_next)
            else (case reload_timer ticks (t_it_real_incr t1) (t_it_real_value t1) of
                    None \<Rightarrow> None
                  | Some v \<Rightarrow> Some (put_task p (t1\<lparr>t_it_real_value := v - ticks\<rparr>) k1, min itimer_next (v - ticks)))
          else Some (put_task p (t\<lparr>t_it_real_value := t_it_real_value t - ticks\<rparr>) k,
                     min itimer_next (t_it_real_value t - ticks))
        else Some (k, itimer_next))"

definition wake_check :: "u32 \<Rightarrow> nat \<Rightarrow> kstate \<Rightarrow> kstate" where
  "wake_check jiffies p k =
     (let t = the_task k p in
      if t_state t \<noteq> TASK_INTERRUPTIBLE then k
      else if t_signal t AND NOT (t_blocked t) \<noteq> 0 then put_task p (t\<lparr>t_state := TASK_RUNNING\<rparr>) k
      else if t_timeout t \<noteq> 0 \<and> t_timeout t \<le> jiffies
      then put_task p (t\<lparr>t_timeout := 0, t_state := TASK_RUNNING\<rparr>) k
      else k)"

fun sched_pass :: "u32 \<Rightarrow> u32 \<Rightarrow> nat list \<Rightarrow> kstate \<times> u32 \<Rightarrow> (kstate \<times> u32) option" where
  "sched_pass ticks jiffies [] s = Some s"
| "sched_pass ticks jiffies (p # ps) s =
     (case real_timer ticks p s of
        None \<Rightarrow> None
      | Some (k, nx) \<Rightarrow> sched_pass ticks jiffies ps (wake_check jiffies p k, nx))"

definition pick_round :: "kstate \<Rightarrow> nat \<Rightarrow> int \<times> nat \<Rightarrow> int \<times> nat" where
  "pick_round k p s =
     (case s of (c, next) \<Rightarrow>
        if t_state (the_task k p) = TASK_RUNNING \<and> t_counter (the_task k p) > c
        then (t_counter (the_task k p), p) else (c, next))"

definition recalc :: "kstate \<Rightarrow> kstate" where
  "recalc k =
     fold (\<lambda>p k. put_task p ((the_task k p)\<lparr>t_counter := wrap32 (sar32 (t_counter (the_task k p)) 1 + t_priority (the_task k p))\<rparr>) k)
       (k_ring k) k"

text \<open>\<^verbatim>\<open>switch_to\<close> makes \<open>next\<close> the running task; the debug registers are not modelled.\<close>

definition schedule :: "sched_state \<Rightarrow> sched_state option" where
  "schedule s =
     (case sched_pass (sd_itimer_ticks s) (sd_jiffies s) (k_ring (sd_k s)) (sd_k s, - 1) of
        None \<Rightarrow> None
      | Some (k1, itimer_next) \<Rightarrow>
          (case fold (pick_round k1) (k_ring k1) (- 1, 0) of
             (c, next) \<Rightarrow>
               let k2 = (if c = 0 then recalc k1 else k1)
               in Some (s\<lparr>sd_k := k2\<lparr>k_current := next\<rparr>, sd_intr_count := 0, sd_itimer_ticks := 0,
                          sd_itimer_next := itimer_next, sd_need_resched := False,
                          sd_swtch := (if k_current k2 \<noteq> next then sd_swtch s + 1 else sd_swtch s)\<rparr>)))"

text \<open>\<^verbatim>\<open>pause\<close> and \<^verbatim>\<open>sleep_on\<close> up to and from their call of \<^verbatim>\<open>schedule\<close>.\<close>

definition pause_enter :: "sched_state \<Rightarrow> sched_state" where
  "pause_enter s = s\<lparr>sd_k := put_current ((current (sd_k s))\<lparr>t_state := TASK_INTERRUPTIBLE\<rparr>) (sd_k s)\<rparr>"

definition sleep_enter :: "int \<Rightarrow> nat \<Rightarrow> nat \<Rightarrow> wq_heap \<Rightarrow> kstate \<Rightarrow> (nat \<times> wq_heap \<times> kstate) option" where
  "sleep_enter state p wait h k =
     (if k_current k = 0 then None
      else
        let k1 = put_current ((current k)\<lparr>t_state := state\<rparr>) k;
            h1 = h(wait := \<lparr>wq_task = Some (k_current k), wq_next = 0\<rparr>)
        in (case add_wait_queue p wait h1 of (p1, h2) \<Rightarrow> Some (p1, h2, k1)))"

definition sleep_exit :: "nat \<Rightarrow> nat \<Rightarrow> wq_heap \<Rightarrow> (nat \<times> wq_heap) option" where
  "sleep_exit p wait h = remove_wait_queue p wait h"

section \<open>Load averages\<close>

definition FSHIFT :: nat where [kconst]: "FSHIFT = 11"
definition FIXED_1 :: u32 where [kconst]: "FIXED_1 = 0x800"
definition LOAD_FREQ :: int where [kconst]: "LOAD_FREQ = 5 * HZ"
definition EXP_1 :: u32 where [kconst]: "EXP_1 = 1884"
definition EXP_5 :: u32 where [kconst]: "EXP_5 = 2014"
definition EXP_15 :: u32 where [kconst]: "EXP_15 = 2037"

definition CALC_LOAD :: "u32 \<Rightarrow> u32 \<Rightarrow> u32 \<Rightarrow> u32" where
  "CALC_LOAD load e n = drop_bit FSHIFT (load * e + n * (FIXED_1 - e))"

definition count_active_tasks :: "kstate \<Rightarrow> u32" where
  "count_active_tasks k =
     fold (\<lambda>p nr. case k_task k p of
             None \<Rightarrow> nr
           | Some t \<Rightarrow> if t_state t = TASK_RUNNING \<or> t_state t = TASK_UNINTERRUPTIBLE \<or> t_state t = TASK_SWAPPING
                       then nr + FIXED_1 else nr)
       (rev [1..<NR_TASKS]) 0"

definition calc_load :: "sched_state \<Rightarrow> sched_state" where
  "calc_load s =
     (if sd_load_count s > 0 then s\<lparr>sd_load_count := sd_load_count s - 1\<rparr>
      else
        let active_tasks = count_active_tasks (sd_k s); a = sd_avenrun s
        in s\<lparr>sd_load_count := LOAD_FREQ,
             sd_avenrun := [CALC_LOAD (a ! 0) EXP_1 active_tasks, CALC_LOAD (a ! 1) EXP_5 active_tasks,
                            CALC_LOAD (a ! 2) EXP_15 active_tasks]\<rparr>)"

section \<open>do_timer\<close>

text \<open>Charging a tick to the running task: in user mode and in the kernel.\<close>

definition virt_timer :: "kstate \<Rightarrow> kstate" where
  "virt_timer k =
     (let t = current k in
      if t_it_virt_value t = 0 then k
      else if t_it_virt_value t - 1 \<noteq> 0 then put_current (t\<lparr>t_it_virt_value := t_it_virt_value t - 1\<rparr>) k
      else snd (send_sig SIGVTALRM (Some (k_current k)) True (put_current (t\<lparr>t_it_virt_value := t_it_virt_incr t\<rparr>) k)))"

definition prof_timer :: "kstate \<Rightarrow> kstate" where
  "prof_timer k =
     (let t = current k in
      if t_it_prof_value t = 0 then k
      else if t_it_prof_value t - 1 \<noteq> 0 then put_current (t\<lparr>t_it_prof_value := t_it_prof_value t - 1\<rparr>) k
      else snd (send_sig SIGPROF (Some (k_current k)) True (put_current (t\<lparr>t_it_prof_value := t_it_prof_incr t\<rparr>) k)))"

definition charge_cpu :: "bool \<Rightarrow> sched_state \<Rightarrow> sched_state" where
  "charge_cpu user s =
     (let k = sd_k s; t = current k; idle = (k_current k = 0) in
      if user
      then s\<lparr>sd_k := virt_timer (put_current (t\<lparr>t_utime := wrap32 (t_utime t + 1)\<rparr>) k),
             sd_cpu_nice := (if \<not> idle \<and> t_priority t < 15 then sd_cpu_nice s + 1 else sd_cpu_nice s),
             sd_cpu_user := (if \<not> idle \<and> \<not> t_priority t < 15 then sd_cpu_user s + 1 else sd_cpu_user s)\<rparr>
      else s\<lparr>sd_k := put_current (t\<lparr>t_stime := wrap32 (t_stime t + 1)\<rparr>) k,
             sd_cpu_system := (if \<not> idle then sd_cpu_system s + 1 else sd_cpu_system s)\<rparr>)"

definition charge_slice :: "sched_state \<Rightarrow> sched_state" where
  "charge_slice s =
     (let k = sd_k s; t = current k in
      if k_current k = 0 \<or> wrap32 (t_counter t - 1) \<le> 0
      then s\<lparr>sd_k := put_current (t\<lparr>t_counter := 0\<rparr>) k, sd_need_resched := True\<rparr>
      else s\<lparr>sd_k := put_current (t\<lparr>t_counter := wrap32 (t_counter t - 1)\<rparr>) k\<rparr>)"

text \<open>\<open>user\<close> tells whether the interrupt came in user or virtual 8086 mode.\<close>

definition do_timer :: "(int \<Rightarrow> bool) \<Rightarrow> bool \<Rightarrow> sched_state \<Rightarrow> sched_state" where
  "do_timer rtc user s =
     (let s1 = calc_load (s\<lparr>sd_clock := clock_tick rtc (sd_clock s), sd_jiffies := sd_jiffies s + 1\<rparr>);
          s2 = charge_slice (charge_cpu user s1);
          s3 = s2\<lparr>sd_k := prof_timer (sd_k s2)\<rparr>;
          s4 = s3\<lparr>sd_bh := table_due (sd_jiffies s3) (sd_timer_active s3) (sd_timer_table s3) 0 (sd_bh s3),
                  sd_itimer_ticks := sd_itimer_ticks s3 + 1\<rparr>;
          s5 = (if sd_itimer_ticks s4 > sd_itimer_next s4 then s4\<lparr>sd_need_resched := True\<rparr> else s4)
      in case timer_tick (sd_timers s5) (sd_lost_ticks s5) of
           (ls, lost, marked) \<Rightarrow> s5\<lparr>sd_timers := ls, sd_lost_ticks := lost, sd_bh := (sd_bh s5 \<or> marked)\<rparr>)"

section \<open>Small calls\<close>

definition sys_getpid :: "kstate \<Rightarrow> int" where "sys_getpid k = t_pid (current k)"
definition sys_getppid :: "kstate \<Rightarrow> int" where "sys_getppid k = t_pid (the_task k (t_p_opptr (current k)))"
definition sys_getuid :: "kstate \<Rightarrow> u16" where "sys_getuid k = t_uid (current k)"
definition sys_geteuid :: "kstate \<Rightarrow> u16" where "sys_geteuid k = t_euid (current k)"
definition sys_getgid :: "kstate \<Rightarrow> u16" where "sys_getgid k = t_gid (current k)"
definition sys_getegid :: "kstate \<Rightarrow> u16" where "sys_getegid k = t_egid (current k)"

definition sys_nice :: "int \<Rightarrow> task_struct \<Rightarrow> errno option \<times> task_struct" where
  "sys_nice increment t =
     (if increment < 0 \<and> \<not> suser t then (Some EPERM, t)
      else
        let newprio = wrap32 (t_priority t - increment);
            newprio = (if newprio < 1 then 1 else newprio);
            newprio = (if newprio > 35 then 35 else newprio)
        in (None, t\<lparr>t_priority := newprio\<rparr>))"

section \<open>The first pass\<close>

text \<open>
  Reloading ends when fewer than \<open>2\<^sup>3\<^sup>1\<close> ticks passed: a small increment moves the value up to its
  goal without wrapping, and a large one acts as a decrement until the value wraps past it.
\<close>

lemma reload_small:
  assumes "unat ticks < 2 ^ 31" "0 < unat incr" "unat incr < 2 ^ 31" "v \<le> ticks"
  shows "\<exists>v'. reload_timer ticks incr v = Some v' \<and> ticks < v'"
  using assms(4)
proof (induction "unat ticks - unat v" arbitrary: v rule: less_induct)
  case less
  have v: "unat v \<le> unat ticks" using less.prems by (simp add: word_le_nat_alt)
  then have u: "unat (v + incr) = unat v + unat incr" using assms by (intro unat_add_lt) simp
  show ?case
  proof (cases "v + incr \<le> ticks")
    case True
    then have "unat ticks - unat (v + incr) < unat ticks - unat v" using u assms(2) by (simp add: word_le_nat_alt)
    from less.hyps[OF this True] show ?thesis using True by (subst reload_timer.simps) simp
  next
    case False
    then have "reload_timer ticks incr v = Some (v + incr)" by (subst reload_timer.simps) simp
    then show ?thesis using False by simp
  qed
qed

lemma reload_large:
  assumes "unat ticks < 2 ^ 31" "2 ^ 31 \<le> unat incr" "v \<le> ticks"
  shows "\<exists>v'. reload_timer ticks incr v = Some v' \<and> ticks < v'"
  using assms(3)
proof (induction "unat v" arbitrary: v rule: less_induct)
  case less
  show ?case
  proof (cases "v + incr \<le> ticks")
    case True
    have "unat (v + incr) < unat v"
    proof (rule ccontr)
      assume n: "\<not> unat (v + incr) < unat v"
      have "unat (v + incr) = (if unat v + unat incr < 2 ^ 32 then unat v + unat incr else unat v + unat incr - 2 ^ 32)"
        by (simp add: unat_plus_if')
      moreover have "unat incr < 2 ^ 32" using unsigned_less[of incr] by simp
      ultimately have "2 ^ 31 \<le> unat (v + incr)" using n assms(2) by (auto split: if_splits)
      then show False using True assms(1) by (simp add: word_le_nat_alt)
    qed
    from less.hyps[OF this True] show ?thesis using True by (subst reload_timer.simps) simp
  next
    case False
    then have "reload_timer ticks incr v = Some (v + incr)" by (subst reload_timer.simps) simp
    then show ?thesis using False by simp
  qed
qed

lemma reload_ends:
  assumes "unat ticks < 2 ^ 31" "incr \<noteq> 0" "v \<le> ticks"
  shows "\<exists>v'. reload_timer ticks incr v = Some v' \<and> ticks < v'"
proof (cases "unat incr < 2 ^ 31")
  case True
  have "0 < unat incr" using assms(2) by (simp add: unat_gt_0)
  then show ?thesis using reload_small[OF assms(1) _ True assms(3)] by simp
next
  case False
  then show ?thesis using reload_large[OF assms(1) _ assms(3)] by simp
qed

text \<open>What the pass keeps of a task: everything the choice of the next task looks at but its state.\<close>

definition same_slice :: "kstate \<Rightarrow> kstate \<Rightarrow> bool" where
  "same_slice k k' \<longleftrightarrow> k_ring k' = k_ring k \<and> k_current k' = k_current k \<and>
     (\<forall>i. t_counter (the_task k' i) = t_counter (the_task k i) \<and> t_priority (the_task k' i) = t_priority (the_task k i) \<and>
          (t_state (the_task k' i) = t_state (the_task k i) \<or>
           t_state (the_task k i) = TASK_INTERRUPTIBLE \<and> t_state (the_task k' i) = TASK_RUNNING))"

lemma same_slice_refl [simp]: "same_slice k k"
  by (simp add: same_slice_def)

lemma same_slice_trans: "same_slice a b \<Longrightarrow> same_slice b c \<Longrightarrow> same_slice a c"
  unfolding same_slice_def by (metis zero_neq_one)

lemma deliver_plain:
  assumes "s \<noteq> SIGKILL" "s \<noteq> SIGCONT"
  shows "t_state (deliver s t) = t_state t" "t_counter (deliver s t) = t_counter t" "t_priority (deliver s t) = t_priority t"
    "t_it_real_incr (deliver s t) = t_it_real_incr t" "t_it_real_value (deliver s t) = t_it_real_value t"
  using assms by (simp_all add: deliver_def generate_def Let_def)

lemma send_alarm:
  "snd (send_sig SIGALRM (Some p) True k) = put_task p (deliver SIGALRM (the_task k p)) k"
  by (simp add: send_sig_def sig_permitted_def)

lemma real_timer_ends:
  assumes "unat ticks < 2 ^ 31"
  shows "\<exists>k' nx'. real_timer ticks p (k, nx) = Some (k', nx') \<and> same_slice k k'"
proof -
  let ?t = "the_task k p"
  consider "ticks = 0 \<or> t_it_real_value ?t = 0" | "ticks \<noteq> 0" "t_it_real_value ?t \<noteq> 0" "\<not> t_it_real_value ?t \<le> ticks"
    | "ticks \<noteq> 0" "t_it_real_value ?t \<noteq> 0" "t_it_real_value ?t \<le> ticks" "t_it_real_incr ?t = 0"
    | "ticks \<noteq> 0" "t_it_real_value ?t \<noteq> 0" "t_it_real_value ?t \<le> ticks" "t_it_real_incr ?t \<noteq> 0"
    by blast
  then show ?thesis
  proof cases
    case 4
    obtain v where v: "reload_timer ticks (t_it_real_incr ?t) (t_it_real_value ?t) = Some v"
      using reload_ends[OF assms 4(4,3)] by blast
    show ?thesis using 4 v by (simp add: real_timer_def Let_def send_alarm deliver_plain same_slice_def)
  qed (auto simp: real_timer_def Let_def send_alarm deliver_plain same_slice_def)
qed

lemma wake_check_slice: "same_slice k (wake_check jiffies p k)"
  by (simp add: wake_check_def Let_def same_slice_def)

lemma sched_pass_ends:
  assumes "unat ticks < 2 ^ 31"
  shows "\<exists>k' nx'. sched_pass ticks jiffies ps (k, nx) = Some (k', nx') \<and> same_slice k k'"
proof (induction ps arbitrary: k nx)
  case (Cons p ps)
  obtain k1 nx1 where r: "real_timer ticks p (k, nx) = Some (k1, nx1)" "same_slice k k1"
    using real_timer_ends[OF assms] by blast
  obtain k2 nx2 where q: "sched_pass ticks jiffies ps (wake_check jiffies p k1, nx1) = Some (k2, nx2)"
    "same_slice (wake_check jiffies p k1) k2" using Cons by blast
  have "same_slice k k2" by (rule same_slice_trans[OF r(2) same_slice_trans[OF wake_check_slice q(2)]])
  then show ?case using r q by simp
qed simp

section \<open>The choice\<close>

definition runnable :: "kstate \<Rightarrow> nat \<Rightarrow> bool" where
  "runnable k p \<longleftrightarrow> t_state (the_task k p) = TASK_RUNNING"

lemma pick_round_simp:
  "pick_round k p (c, n) = (if runnable k p \<and> t_counter (the_task k p) > c then (t_counter (the_task k p), p) else (c, n))"
  by (simp add: pick_round_def runnable_def)

lemma pick_fold:
  "fold (pick_round k) ps (c0, n0) = (c, n) \<Longrightarrow>
   c0 \<le> c \<and> (\<forall>p\<in>set ps. runnable k p \<longrightarrow> t_counter (the_task k p) \<le> c) \<and>
   (c = c0 \<and> n = n0 \<or> n \<in> set ps \<and> runnable k n \<and> t_counter (the_task k n) = c)"
proof (induction ps arbitrary: c0 n0)
  case (Cons p ps)
  show ?case
  proof (cases "runnable k p \<and> t_counter (the_task k p) > c0")
    case True
    then have "fold (pick_round k) ps (t_counter (the_task k p), p) = (c, n)"
      using Cons.prems by (simp add: pick_round_simp)
    from Cons.IH[OF this] show ?thesis using True by auto
  next
    case False
    then have "fold (pick_round k) ps (c0, n0) = (c, n)"
      using Cons.prems by (auto simp: pick_round_simp)
    from Cons.IH[OF this] show ?thesis using False by auto
  qed
qed simp

lemma recalc_fold:
  assumes "distinct ps"
  shows "let k' = fold (\<lambda>p k. put_task p ((the_task k p)\<lparr>t_counter := wrap32 (sar32 (t_counter (the_task k p)) 1 + t_priority (the_task k p))\<rparr>) k) ps k
    in (\<forall>i. the_task k' i = (if i \<in> set ps then (the_task k i)\<lparr>t_counter := wrap32 (sar32 (t_counter (the_task k i)) 1 + t_priority (the_task k i))\<rparr>
             else the_task k i)) \<and> k_ring k' = k_ring k \<and> k_current k' = k_current k"
  using assms
proof (induction ps arbitrary: k)
  case (Cons p ps)
  then show ?case by (auto simp: Let_def)
qed (simp add: Let_def)

lemmas recalc_task = recalc_fold[of "k_ring k" k for k, unfolded Let_def recalc_def[symmetric], THEN conjunct1, rule_format]
  and recalc_frame = recalc_fold[of "k_ring k" k for k, unfolded Let_def recalc_def[symmetric], THEN conjunct2]

text \<open>The table and the choice that \<^verbatim>\<open>schedule\<close> arrives at from the table \<open>k1\<close> after its first pass.\<close>

definition chosen :: "kstate \<Rightarrow> nat \<Rightarrow> bool" where
  "chosen k n \<longleftrightarrow>
     (if \<exists>p\<in>set (k_ring k). runnable k p
      then n \<in> set (k_ring k) \<and> runnable k n \<and>
           (\<forall>p\<in>set (k_ring k). runnable k p \<longrightarrow> t_counter (the_task k p) \<le> t_counter (the_task k n))
      else n = 0)"

definition exhausted :: "kstate \<Rightarrow> bool" where
  "exhausted k \<longleftrightarrow> (\<exists>p\<in>set (k_ring k). runnable k p) \<and>
     (\<forall>p\<in>set (k_ring k). runnable k p \<longrightarrow> t_counter (the_task k p) = 0)"

lemma pick_chosen:
  assumes "fold (pick_round k) (k_ring k) (- 1, 0) = (c, n)" "\<forall>p\<in>set (k_ring k). 0 \<le> t_counter (the_task k p)"
  shows "chosen k n" "c = 0 \<longleftrightarrow> exhausted k"
proof -
  note P = pick_fold[OF assms(1)]
  show "chosen k n"
  proof (cases "\<exists>p\<in>set (k_ring k). runnable k p")
    case True
    then have "c \<noteq> - 1" using P assms(2) by fastforce
    then show ?thesis using P True by (auto simp: chosen_def)
  next
    case False
    then show ?thesis using P by (auto simp: chosen_def)
  qed
  show "c = 0 \<longleftrightarrow> exhausted k" using P assms(2) unfolding exhausted_def by fastforce
qed

lemma schedule_unfold:
  assumes "sched_pass (sd_itimer_ticks s) (sd_jiffies s) (k_ring (sd_k s)) (sd_k s, - 1) = Some (k1, nx)"
    "\<forall>p\<in>set (k_ring k1). 0 \<le> t_counter (the_task k1 p)"
  shows "\<exists>n. chosen k1 n \<and> schedule s =
    Some (s\<lparr>sd_k := (if exhausted k1 then recalc k1 else k1)\<lparr>k_current := n\<rparr>, sd_intr_count := 0, sd_itimer_ticks := 0,
            sd_itimer_next := nx, sd_need_resched := False,
            sd_swtch := (if k_current (if exhausted k1 then recalc k1 else k1) \<noteq> n then sd_swtch s + 1 else sd_swtch s)\<rparr>)"
proof -
  obtain c n where f: "fold (pick_round k1) (k_ring k1) (- 1, 0) = (c, n)" by (cases "fold (pick_round k1) (k_ring k1) (- 1, 0)")
  note pc = pick_chosen[OF f assms(2)]
  show ?thesis
    by (rule exI[of _ n]) (simp add: schedule_def assms(1) f pc Let_def)
qed

section \<open>Time slices\<close>

lemma sar32_half: "sar32 x 1 = x div 2"
  by (simp add: sar32_def drop_bit_int_def)

text \<open>
  The test that \<^verbatim>\<open>ret_from_sys_call\<close> makes before it returns to user mode. It is made again when
  \<^verbatim>\<open>schedule\<close> comes back; then it fails unless something happened in between.
\<close>

definition reschedule_due :: "sched_state \<Rightarrow> bool" where
  "reschedule_due s \<longleftrightarrow> sd_need_resched s \<or>
     k_current (sd_k s) \<noteq> 0 \<and> (t_state (current (sd_k s)) \<noteq> TASK_RUNNING \<or> t_counter (current (sd_k s)) = 0)"

text \<open>
  What happens on the processor: timer interrupts in user mode, which return through that test, and in
  the kernel, which do not; calls of \<^verbatim>\<open>schedule\<close>; and whatever else the tasks do to the table, such as
  going to sleep and waking others.
\<close>

datatype sched_event = Ev_tick bool | Ev_schedule | Ev_other "kstate \<Rightarrow> kstate"

fun sched_do :: "(int \<Rightarrow> bool) \<Rightarrow> sched_event \<Rightarrow> sched_state \<Rightarrow> sched_state option" where
  "sched_do rtc (Ev_tick user) s =
     (let s1 = do_timer rtc user s in if user \<and> reschedule_due s1 then schedule s1 else Some s1)"
| "sched_do rtc Ev_schedule s = schedule s"
| "sched_do rtc (Ev_other f) s = Some (s\<lparr>sd_k := f (sd_k s)\<rparr>)"

text \<open>The events in their order; the second result lists the running task after each of them.\<close>

primrec sched_run :: "(int \<Rightarrow> bool) \<Rightarrow> sched_event list \<Rightarrow> sched_state \<Rightarrow> (sched_state \<times> nat list) option" where
  "sched_run rtc [] s = Some (s, [])"
| "sched_run rtc (e # es) s =
     (case sched_do rtc e s of
        None \<Rightarrow> None
      | Some s1 \<Rightarrow> (case sched_run rtc es s1 of
                      None \<Rightarrow> None
                    | Some (s2, rn) \<Rightarrow> Some (s2, k_current (sd_k s1) # rn)))"

definition is_tick :: "sched_event \<Rightarrow> bool" where
  "is_tick e \<longleftrightarrow> e = Ev_tick True \<or> e = Ev_tick False"

definition ticks_of :: "sched_event list \<Rightarrow> nat" where
  "ticks_of es = size (filter is_tick es)"

definition user_ticks :: "sched_event list \<Rightarrow> nat" where
  "user_ticks es = size (filter (\<lambda>e. e = Ev_tick True) es)"

text \<open>The other events leave the ring, the running task and the time slices alone and do not stop task \<open>i\<close>.\<close>

definition spares :: "nat \<Rightarrow> (kstate \<Rightarrow> kstate) \<Rightarrow> bool" where
  "spares i f \<longleftrightarrow> (\<forall>k. k_ring (f k) = k_ring k \<and> k_current (f k) = k_current k \<and>
     (\<forall>p. t_counter (the_task (f k) p) = t_counter (the_task k p) \<and> t_priority (the_task (f k) p) = t_priority (the_task k p)) \<and>
     (runnable k i \<longrightarrow> runnable (f k) i))"

definition slices_ok :: "kstate \<Rightarrow> bool" where
  "slices_ok k \<longleftrightarrow> distinct (k_ring k) \<and> 0 \<notin> set (k_ring k) \<and> k_current k \<in> insert 0 (set (k_ring k)) \<and>
     (\<forall>p\<in>set (k_ring k). 0 \<le> t_counter (the_task k p) \<and> t_counter (the_task k p) < 2 ^ 31 \<and>
        1 \<le> t_priority (the_task k p) \<and> t_priority (the_task k p) < 2 ^ 30)"

text \<open>
  The time the other tasks have left, the time they would get from a recalculation, whether the
  running task has none, and how many user-mode ticks task \<open>i\<close> can still wait.
\<close>

definition debt :: "nat \<Rightarrow> kstate \<Rightarrow> nat" where
  "debt i k = (\<Sum>p\<in>set (k_ring k) - {i}. nat (t_counter (the_task k p)))"

definition refill :: "nat \<Rightarrow> kstate \<Rightarrow> nat" where
  "refill i k = (\<Sum>p\<in>set (k_ring k) - {i}. nat (t_counter (the_task k p) div 2 + t_priority (the_task k p)))"

definition stalled :: "kstate \<Rightarrow> nat" where
  "stalled k = (if k_current k \<noteq> 0 \<and> t_counter (current k) \<noteq> 0 then 0 else 1)"

definition patience :: "nat \<Rightarrow> kstate \<Rightarrow> nat" where
  "patience i k = 2 * debt i k + stalled k + (if 0 < t_counter (the_task k i) then 0 else 2 * refill i k)"

lemma send_itimer:
  "snd (send_sig SIGVTALRM (Some p) True k) = put_task p (deliver SIGVTALRM (the_task k p)) k"
  "snd (send_sig SIGPROF (Some p) True k) = put_task p (deliver SIGPROF (the_task k p)) k"
  by (simp_all add: send_sig_def sig_permitted_def)

text \<open>What one interrupt does to the tasks.\<close>

definition same_task :: "task_struct \<Rightarrow> task_struct \<Rightarrow> bool" where
  "same_task t t' \<longleftrightarrow> t_counter t' = t_counter t \<and> t_priority t' = t_priority t \<and> t_state t' = t_state t"

definition same_tasks :: "kstate \<Rightarrow> kstate \<Rightarrow> bool" where
  "same_tasks k k' \<longleftrightarrow> k_ring k' = k_ring k \<and> k_current k' = k_current k \<and> (\<forall>p. same_task (the_task k p) (the_task k' p))"

lemma virt_timer_same: "same_tasks k (virt_timer k)"
  by (simp add: virt_timer_def Let_def send_itimer same_tasks_def same_task_def deliver_plain current_def put_current_def)

lemma prof_timer_same: "same_tasks k (prof_timer k)"
  by (simp add: prof_timer_def Let_def send_itimer same_tasks_def same_task_def deliver_plain current_def put_current_def)

lemma charge_cpu_same: "same_tasks (sd_k s) (sd_k (charge_cpu user s))"
  using virt_timer_same[of "put_current ((current (sd_k s))\<lparr>t_utime := wrap32 (t_utime (current (sd_k s)) + 1)\<rparr>) (sd_k s)"]
  by (auto simp: charge_cpu_def Let_def same_tasks_def same_task_def current_def put_current_def)

lemma charge_slice_task:
  assumes "k_current (sd_k s) \<noteq> 0 \<Longrightarrow> 0 \<le> t_counter (current (sd_k s)) \<and> t_counter (current (sd_k s)) < 2 ^ 31"
  shows "the_task (sd_k (charge_slice s)) p =
      (if p = k_current (sd_k s)
       then (the_task (sd_k s) p)\<lparr>t_counter := (if p = 0 then 0 else max 0 (t_counter (the_task (sd_k s) p) - 1))\<rparr>
       else the_task (sd_k s) p)"
    "k_ring (sd_k (charge_slice s)) = k_ring (sd_k s)" "k_current (sd_k (charge_slice s)) = k_current (sd_k s)"
    "k_current (sd_k s) = 0 \<or> t_counter (current (sd_k s)) \<le> 1 \<Longrightarrow> sd_need_resched (charge_slice s)"
proof -
  have "k_current (sd_k s) \<noteq> 0 \<Longrightarrow> wrap32 (t_counter (current (sd_k s)) - 1) = t_counter (current (sd_k s)) - 1"
    using assms by (intro wrap32_id) auto
  then show "the_task (sd_k (charge_slice s)) p =
      (if p = k_current (sd_k s)
       then (the_task (sd_k s) p)\<lparr>t_counter := (if p = 0 then 0 else max 0 (t_counter (the_task (sd_k s) p) - 1))\<rparr>
       else the_task (sd_k s) p)"
    "k_ring (sd_k (charge_slice s)) = k_ring (sd_k s)" "k_current (sd_k (charge_slice s)) = k_current (sd_k s)"
    "k_current (sd_k s) = 0 \<or> t_counter (current (sd_k s)) \<le> 1 \<Longrightarrow> sd_need_resched (charge_slice s)"
    by (auto simp: charge_slice_def Let_def current_def put_current_def)
qed

lemma calc_load_k [simp]: "sd_k (calc_load s) = sd_k s" "sd_itimer_ticks (calc_load s) = sd_itimer_ticks s"
  by (simp_all add: calc_load_def Let_def)

lemma charge_ticks [simp]: "sd_itimer_ticks (charge_slice (charge_cpu user s)) = sd_itimer_ticks s"
  by (simp add: charge_slice_def charge_cpu_def Let_def)

lemma do_timer_k:
  "sd_k (do_timer rtc user s) =
     prof_timer (sd_k (charge_slice (charge_cpu user (calc_load (s\<lparr>sd_clock := clock_tick rtc (sd_clock s), sd_jiffies := sd_jiffies s + 1\<rparr>)))))"
  "sd_itimer_ticks (do_timer rtc user s) = sd_itimer_ticks s + 1"
  "sd_need_resched (charge_slice (charge_cpu user (calc_load (s\<lparr>sd_clock := clock_tick rtc (sd_clock s), sd_jiffies := sd_jiffies s + 1\<rparr>))))
   \<Longrightarrow> sd_need_resched (do_timer rtc user s)"
  by (simp_all add: do_timer_def Let_def split: prod.split)

lemma do_timer_tasks:
  assumes "k_current (sd_k s) \<noteq> 0 \<Longrightarrow> 0 \<le> t_counter (current (sd_k s)) \<and> t_counter (current (sd_k s)) < 2 ^ 31"
  shows "k_ring (sd_k (do_timer rtc user s)) = k_ring (sd_k s)" (is ?r)
    "k_current (sd_k (do_timer rtc user s)) = k_current (sd_k s)" (is ?c)
    "same_task ((the_task (sd_k s) p)\<lparr>t_counter :=
        (if p = k_current (sd_k s) then if p = 0 then 0 else max 0 (t_counter (the_task (sd_k s) p) - 1)
         else t_counter (the_task (sd_k s) p))\<rparr>) (the_task (sd_k (do_timer rtc user s)) p)" (is ?t)
    "k_current (sd_k s) = 0 \<or> t_counter (current (sd_k s)) \<le> 1 \<Longrightarrow> sd_need_resched (do_timer rtc user s)"
proof -
  let ?s0 = "calc_load (s\<lparr>sd_clock := clock_tick rtc (sd_clock s), sd_jiffies := sd_jiffies s + 1\<rparr>)"
  let ?s1 = "charge_cpu user ?s0"
  have s1: "k_ring (sd_k ?s1) = k_ring (sd_k s)" "k_current (sd_k ?s1) = k_current (sd_k s)"
    "\<And>p. same_task (the_task (sd_k s) p) (the_task (sd_k ?s1) p)"
    using charge_cpu_same[of ?s0 user] by (simp_all add: same_tasks_def)
  have c: "t_counter (current (sd_k ?s1)) = t_counter (current (sd_k s))" using s1 by (simp add: current_def same_task_def)
  note S = charge_slice_task[where s = ?s1, unfolded c s1(2), OF assms]
  note P = prof_timer_same[of "sd_k (charge_slice ?s1)"]
  show ?r ?c using P S s1 by (simp_all add: do_timer_k same_tasks_def)
  have "same_task (the_task (sd_k (charge_slice ?s1)) p) (the_task (sd_k (do_timer rtc user s)) p)"
    using P by (simp add: do_timer_k same_tasks_def)
  then show ?t using s1(2) s1(3)[of p] S(1)[of p] by (simp add: same_task_def split: if_splits)
  show "sd_need_resched (do_timer rtc user s)" if "k_current (sd_k s) = 0 \<or> t_counter (current (sd_k s)) \<le> 1"
    by (rule do_timer_k(3), rule S(4)) (use that in simp_all)
qed

text \<open>A call of \<^verbatim>\<open>schedule\<close> while task \<open>i\<close> is runnable.\<close>

lemma slices_nonzero: "slices_ok k \<Longrightarrow> p \<in> set (k_ring k) \<Longrightarrow> p \<noteq> 0"
  unfolding slices_ok_def by metis

lemma slices_same:
  assumes "slices_ok k" "k_ring k' = k_ring k" "k_current k' \<in> insert 0 (set (k_ring k))"
    "\<And>p. t_counter (the_task k' p) = t_counter (the_task k p)" "\<And>p. t_priority (the_task k' p) = t_priority (the_task k p)"
  shows "slices_ok k'" "debt j k' = debt j k" "refill j k' = refill j k"
    "k_current k' = k_current k \<Longrightarrow> stalled k' = stalled k" "k_current k' = k_current k \<Longrightarrow> patience j k' = patience j k"
  using assms by (simp_all add: slices_ok_def debt_def refill_def stalled_def patience_def current_def)

lemma chosen_has_time:
  assumes ok: "slices_ok k" and i: "i \<in> set (k_ring k)" "runnable k i" and n: "chosen k n" and ne: "\<not> exhausted k"
  shows "n \<in> set (k_ring k)" "0 < t_counter (the_task k n)"
proof -
  obtain p where p: "p \<in> set (k_ring k)" "runnable k p" "t_counter (the_task k p) \<noteq> 0"
    using ne i by (auto simp: exhausted_def)
  then have "0 < t_counter (the_task k p)" using ok by (force simp: slices_ok_def)
  moreover have "n \<in> set (k_ring k)" "t_counter (the_task k p) \<le> t_counter (the_task k n)"
    using n p i by (auto simp: chosen_def split: if_splits)
  ultimately show "n \<in> set (k_ring k)" "0 < t_counter (the_task k n)" by auto
qed

lemma recalc_slices:
  assumes ok: "slices_ok k"
  shows "t_counter (the_task (recalc k) p) = (if p \<in> set (k_ring k) then t_counter (the_task k p) div 2 + t_priority (the_task k p)
      else t_counter (the_task k p))" (is ?c)
    "t_priority (the_task (recalc k) p) = t_priority (the_task k p)" "t_state (the_task (recalc k) p) = t_state (the_task k p)"
    "k_ring (recalc k) = k_ring k" "k_current (recalc k) = k_current k" "slices_ok (recalc k)"
proof -
  have d: "distinct (k_ring k)" using ok by (simp add: slices_ok_def)
  have w: "wrap32 (t_counter (the_task k p) div 2 + t_priority (the_task k p)) = t_counter (the_task k p) div 2 + t_priority (the_task k p)"
    if "p \<in> set (k_ring k)" for p
    using ok that by (intro wrap32_id) (auto simp: slices_ok_def)
  have c: "t_counter (the_task (recalc k) p) = (if p \<in> set (k_ring k) then t_counter (the_task k p) div 2 + t_priority (the_task k p)
      else t_counter (the_task k p))" for p
    using w[of p] by (simp add: recalc_task[OF d] sar32_half)
  then show ?c .
  show p: "t_priority (the_task (recalc k) p) = t_priority (the_task k p)" "t_state (the_task (recalc k) p) = t_state (the_task k p)" for p
    by (simp_all add: recalc_task[OF d])
  show r: "k_ring (recalc k) = k_ring k" "k_current (recalc k) = k_current k" using recalc_frame[OF d] by simp_all
  show "slices_ok (recalc k)" using ok unfolding slices_ok_def c p r by auto
qed

lemma schedule_patience:
  assumes ok: "slices_ok (sd_k s)" and i: "i \<in> set (k_ring (sd_k s))" "runnable (sd_k s) i" and tk: "unat (sd_itimer_ticks s) < 2 ^ 31"
  shows "\<exists>s'. schedule s = Some s' \<and> slices_ok (sd_k s') \<and> k_ring (sd_k s') = k_ring (sd_k s) \<and> runnable (sd_k s') i \<and>
    sd_itimer_ticks s' = 0 \<and> (k_current (sd_k s') = i \<or> patience i (sd_k s') + stalled (sd_k s) \<le> patience i (sd_k s))"
proof -
  obtain k1 nx where p: "sched_pass (sd_itimer_ticks s) (sd_jiffies s) (k_ring (sd_k s)) (sd_k s, - 1) = Some (k1, nx)"
    "same_slice (sd_k s) k1" using sched_pass_ends[OF tk] by blast
  have r: "k_ring k1 = k_ring (sd_k s)" "k_current k1 = k_current (sd_k s)"
    "\<And>i. t_counter (the_task k1 i) = t_counter (the_task (sd_k s) i)" "\<And>i. t_priority (the_task k1 i) = t_priority (the_task (sd_k s) i)"
    "\<And>i. runnable (sd_k s) i \<Longrightarrow> runnable k1 i"
    using p(2) unfolding same_slice_def runnable_def by (simp, simp, simp, simp, metis zero_neq_one)
  have cur: "k_current k1 \<in> insert 0 (set (k_ring (sd_k s)))" using ok r(2) by (simp add: slices_ok_def)
  note same = slices_same[OF ok r(1) cur r(3,4)]
  have ok1: "slices_ok k1" by (rule same)
  have i1: "i \<in> set (k_ring k1)" "runnable k1 i" using i r(1,5) by auto
  have "\<forall>p\<in>set (k_ring k1). 0 \<le> t_counter (the_task k1 p)" using ok1 by (simp add: slices_ok_def)
  from schedule_unfold[OF p(1) this] obtain n s' where n: "chosen k1 n" "schedule s = Some s'"
    "sd_k s' = (if exhausted k1 then recalc k1 else k1)\<lparr>k_current := n\<rparr>" "sd_itimer_ticks s' = 0" by auto
  have nr: "n \<in> set (k_ring k1)" using n(1) i1 by (auto simp: chosen_def split: if_splits)
  have n0: "n \<noteq> 0" by (rule slices_nonzero[OF ok1 nr])
  have u: "the_task (k\<lparr>k_current := n\<rparr>) x = the_task k x" for k x by (simp add: the_task_def)
  show ?thesis
  proof (cases "exhausted k1")
    case False
    then have k': "sd_k s' = k1\<lparr>k_current := n\<rparr>" using n(3) by simp
    have "0 < t_counter (the_task k1 n)" by (rule chosen_has_time(2)[OF ok1 i1 n(1) False])
    then have st: "stalled (sd_k s') = 0" using n0 by (simp add: k' stalled_def current_def the_task_def)
    have ok': "slices_ok (sd_k s')" "debt i (sd_k s') = debt i k1" "refill i (sd_k s') = refill i k1"
      using slices_same(1-3)[OF ok1, of "sd_k s'"] nr by (simp_all add: k' u)
    have "patience i (sd_k s') + stalled (sd_k s) \<le> patience i (sd_k s)"
      using ok'(2,3) same(2,3)[of i] st r(3) by (simp add: patience_def k' u)
    then show ?thesis using n(2,4) ok'(1) i1(2) r(1) by (auto simp: k' runnable_def u)
  next
    case True
    then have k': "sd_k s' = (recalc k1)\<lparr>k_current := n\<rparr>" using n(3) by simp
    note R = recalc_slices[OF ok1]
    have z: "t_counter (the_task (sd_k s) i) = 0" using True i1 r(3) by (auto simp: exhausted_def)
    have pos: "0 < t_counter (the_task (recalc k1) p)" if "p \<in> set (k_ring k1)" for p
      using ok1 that by (fastforce simp: R slices_ok_def)
    have st: "stalled (sd_k s') = 0" using pos[OF nr] n0 by (simp add: k' stalled_def current_def the_task_def)
    have ok': "slices_ok (sd_k s')" "debt i (sd_k s') = debt i (recalc k1)"
      using slices_same(1-2)[OF R(6), of "sd_k s'"] nr by (simp_all add: k' u R)
    have d: "debt i (recalc k1) = refill i k1" by (simp add: debt_def refill_def R)
    have "patience i (sd_k s') = 2 * refill i (sd_k s)"
      using ok'(2) d st same(3)[of i] pos[OF i1(1)] by (simp add: patience_def k' u)
    then have "patience i (sd_k s') + stalled (sd_k s) \<le> patience i (sd_k s)" using z by (simp add: patience_def)
    then show ?thesis using n(2,4) ok'(1) i1(2) r(1) by (auto simp: k' runnable_def u R)
  qed
qed

text \<open>A timer interrupt while another task than \<open>i\<close> runs.\<close>

lemma sum_decrease:
  fixes f g :: "nat \<Rightarrow> nat"
  assumes "finite A" "\<And>p. p \<in> A \<Longrightarrow> p \<noteq> c \<Longrightarrow> g p = f p" "c \<in> A \<Longrightarrow> g c + d = f c" "c \<notin> A \<Longrightarrow> d = 0"
  shows "sum g A + d = sum f A"
proof (cases "c \<in> A")
  case True
  have "sum g (A - {c}) = sum f (A - {c})" by (rule sum.cong) (use assms(2) in auto)
  then show ?thesis using assms(1,3) True by (simp add: sum.remove)
next
  case False
  then show ?thesis using assms(2,4) by (metis (no_types, lifting) add_0_right sum.cong)
qed

lemma do_timer_patience:
  assumes ok: "slices_ok (sd_k s)" and i: "i \<in> set (k_ring (sd_k s))" "runnable (sd_k s) i" and s1: "s1 = do_timer rtc user s"
  shows "slices_ok (sd_k s1)" "k_ring (sd_k s1) = k_ring (sd_k s)" "runnable (sd_k s1) i"
    "sd_itimer_ticks s1 = sd_itimer_ticks s + 1" "stalled (sd_k s1) = 1 \<longrightarrow> reschedule_due s1"
    "k_current (sd_k s) \<noteq> i \<Longrightarrow> patience i (sd_k s1) + 1 \<le> patience i (sd_k s) + stalled (sd_k s1) \<and> patience i (sd_k s1) \<le> patience i (sd_k s)"
proof -
  let ?c = "k_current (sd_k s)"
  have cb: "0 \<le> t_counter (current (sd_k s)) \<and> t_counter (current (sd_k s)) < 2 ^ 31" if "?c \<noteq> 0"
    using ok that by (auto simp: slices_ok_def current_def)
  note D = do_timer_tasks[where s = s and rtc = rtc and user = user, folded s1, OF cb]
  have cnt: "t_counter (the_task (sd_k s1) p) = (if p = ?c then if p = 0 then 0 else max 0 (t_counter (the_task (sd_k s) p) - 1)
      else t_counter (the_task (sd_k s) p))" for p using D(3)[of p] by (simp add: same_task_def)
  have pri: "t_priority (the_task (sd_k s1) p) = t_priority (the_task (sd_k s) p)" for p using D(3)[of p] by (simp add: same_task_def)
  have sta: "t_state (the_task (sd_k s1) p) = t_state (the_task (sd_k s) p)" for p using D(3)[of p] by (simp add: same_task_def)
  have ring: "k_ring (sd_k s1) = k_ring (sd_k s)" "k_current (sd_k s1) = ?c" using D(1,2) by blast+
  then show "k_ring (sd_k s1) = k_ring (sd_k s)" by simp
  show "slices_ok (sd_k s1)" using ok unfolding slices_ok_def cnt pri ring by auto
  show "runnable (sd_k s1) i" using i by (simp add: runnable_def sta)
  show "sd_itimer_ticks s1 = sd_itimer_ticks s + 1" by (simp add: s1 do_timer_k)
  have cur: "t_counter (current (sd_k s1)) = (if ?c = 0 then 0 else max 0 (t_counter (current (sd_k s)) - 1))"
    using cnt[of ?c] ring(2) by (simp add: current_def)
  have due: "sd_need_resched s1" if "?c = 0 \<or> t_counter (current (sd_k s)) \<le> 1" using D(4) that by blast
  show "stalled (sd_k s1) = 1 \<longrightarrow> reschedule_due s1"
    using ring(2) cur due by (auto simp: stalled_def reschedule_due_def split: if_splits)
  assume ni: "?c \<noteq> i"
  define d where "d = (if ?c \<noteq> 0 \<and> t_counter (current (sd_k s)) \<noteq> 0 then 1 else 0 :: nat)"
  have debt: "debt i (sd_k s1) + d = debt i (sd_k s)"
    unfolding debt_def ring(1)
  proof (rule sum_decrease[where c = ?c])
    show "nat (t_counter (the_task (sd_k s1) ?c)) + d = nat (t_counter (the_task (sd_k s) ?c))" if "?c \<in> set (k_ring (sd_k s)) - {i}"
    proof -
      have "?c \<noteq> 0" using that by (intro slices_nonzero[OF ok]) simp
      then show ?thesis using cb by (auto simp: cnt d_def current_def)
    qed
    show "d = 0" if "?c \<notin> set (k_ring (sd_k s)) - {i}" using that ok ni by (auto simp: d_def slices_ok_def)
  qed (auto simp: cnt)
  have "t_counter (the_task (sd_k s1) p) \<le> t_counter (the_task (sd_k s) p)" if "p \<in> set (k_ring (sd_k s))" for p
    using cnt[of p] ok that by (auto simp: slices_ok_def)
  then have refill: "refill i (sd_k s1) \<le> refill i (sd_k s)"
    unfolding refill_def ring(1) pri by (intro sum_mono nat_mono add_right_mono zdiv_mono1) auto
  have ci: "t_counter (the_task (sd_k s1) i) = t_counter (the_task (sd_k s) i)" using cnt[of i] ni by simp
  have st: "stalled (sd_k s) = 1 - d" "stalled (sd_k s1) \<le> 1" "d \<le> 1" "d = 0 \<Longrightarrow> stalled (sd_k s1) = 1"
    using cur ring(2) by (auto simp: stalled_def d_def split: if_splits)
  show "patience i (sd_k s1) + 1 \<le> patience i (sd_k s) + stalled (sd_k s1) \<and> patience i (sd_k s1) \<le> patience i (sd_k s)"
    using debt refill ci st by (cases "d = 0"; simp add: patience_def)
qed

lemma tick_patience:
  assumes ok: "slices_ok (sd_k s)" and i: "i \<in> set (k_ring (sd_k s))" "runnable (sd_k s) i"
    and tk: "unat (sd_itimer_ticks s) + 1 < 2 ^ 31"
  shows "\<exists>s'. sched_do rtc (Ev_tick user) s = Some s' \<and> slices_ok (sd_k s') \<and> k_ring (sd_k s') = k_ring (sd_k s) \<and> runnable (sd_k s') i \<and>
    unat (sd_itimer_ticks s') \<le> unat (sd_itimer_ticks s) + 1 \<and>
    (k_current (sd_k s) = i \<or> k_current (sd_k s') = i \<or> patience i (sd_k s') + (if user then 1 else 0) \<le> patience i (sd_k s))"
proof -
  let ?s1 = "do_timer rtc user s"
  note D = do_timer_patience[OF ok i refl, where rtc = rtc and user = user]
  have t1: "unat (sd_itimer_ticks ?s1) \<le> unat (sd_itimer_ticks s) + 1" using D(4) tk by (simp add: unat_add_lt)
  show ?thesis
  proof (cases "user \<and> reschedule_due ?s1")
    case True
    have "unat (sd_itimer_ticks ?s1) < 2 ^ 31" using t1 tk by linarith
    from schedule_patience[OF D(1) _ D(3) this] obtain s' where s': "schedule ?s1 = Some s'" "slices_ok (sd_k s')"
      "k_ring (sd_k s') = k_ring (sd_k ?s1)" "runnable (sd_k s') i" "sd_itimer_ticks s' = 0"
      "k_current (sd_k s') = i \<or> patience i (sd_k s') + stalled (sd_k ?s1) \<le> patience i (sd_k ?s1)" using i D(2) by auto
    have "patience i (sd_k s') + 1 \<le> patience i (sd_k s)" if "k_current (sd_k s) \<noteq> i" "k_current (sd_k s') \<noteq> i"
      using that s'(6) D(6) by linarith
    then show ?thesis using True s' D(2) by (auto simp: Let_def)
  next
    case False
    then have "user \<Longrightarrow> stalled (sd_k ?s1) = 0" using D(5) by (auto simp: stalled_def split: if_splits)
    then show ?thesis using False D(1-3,6) t1 by (auto simp: Let_def)
  qed
qed

lemma sched_do_patience:
  assumes ok: "slices_ok (sd_k s)" and i: "i \<in> set (k_ring (sd_k s))" "runnable (sd_k s) i"
    and tk: "unat (sd_itimer_ticks s) + ticks_of [e] < 2 ^ 31" and oth: "\<And>f. e = Ev_other f \<Longrightarrow> spares i f"
  shows "\<exists>s'. sched_do rtc e s = Some s' \<and> slices_ok (sd_k s') \<and> k_ring (sd_k s') = k_ring (sd_k s) \<and> runnable (sd_k s') i \<and>
    unat (sd_itimer_ticks s') \<le> unat (sd_itimer_ticks s) + ticks_of [e] \<and>
    (k_current (sd_k s) = i \<or> k_current (sd_k s') = i \<or> patience i (sd_k s') + user_ticks [e] \<le> patience i (sd_k s))"
proof (cases e)
  case Ev_schedule
  then show ?thesis using schedule_patience[OF ok i] tk by (fastforce simp: ticks_of_def user_ticks_def is_tick_def)
next
  case (Ev_other f)
  let ?k = "sd_k s"
  have f: "k_ring (f ?k) = k_ring ?k" "k_current (f ?k) = k_current ?k" "\<And>p. t_counter (the_task (f ?k) p) = t_counter (the_task ?k p)"
    "\<And>p. t_priority (the_task (f ?k) p) = t_priority (the_task ?k p)" "runnable (f ?k) i"
    using oth[OF Ev_other] i(2) by (auto simp: spares_def)
  have "k_current (f ?k) \<in> insert 0 (set (k_ring ?k))" using ok f(2) by (simp add: slices_ok_def)
  from slices_same[OF ok f(1) this f(3,4)] show ?thesis using f by (simp add: Ev_other user_ticks_def)
next
  case (Ev_tick user)
  show ?thesis using tick_patience[OF ok i, where rtc = rtc and user = user] tk
    by (simp add: Ev_tick ticks_of_def user_ticks_def is_tick_def split: if_splits)
qed

lemma sched_run_patience:
  assumes "slices_ok (sd_k s)" "i \<in> set (k_ring (sd_k s))" "runnable (sd_k s) i"
    "unat (sd_itimer_ticks s) + ticks_of es < 2 ^ 31" "\<And>f. Ev_other f \<in> set es \<Longrightarrow> spares i f"
  shows "\<exists>s' rn. sched_run rtc es s = Some (s', rn) \<and> (patience i (sd_k s) < user_ticks es \<longrightarrow> i \<in> set (k_current (sd_k s) # rn))"
  using assms
proof (induction es arbitrary: s)
  case (Cons e es)
  have tk: "ticks_of (e # es) = ticks_of [e] + ticks_of es" "user_ticks (e # es) = user_ticks [e] + user_ticks es"
    by (simp_all add: ticks_of_def user_ticks_def)
  have "unat (sd_itimer_ticks s) + ticks_of [e] < 2 ^ 31" "\<And>f. e = Ev_other f \<Longrightarrow> spares i f" using Cons.prems tk by auto
  from sched_do_patience[OF Cons.prems(1-3) this, where rtc = rtc] obtain s1 where s1: "sched_do rtc e s = Some s1"
    "slices_ok (sd_k s1)" "k_ring (sd_k s1) = k_ring (sd_k s)" "runnable (sd_k s1) i"
    "unat (sd_itimer_ticks s1) \<le> unat (sd_itimer_ticks s) + ticks_of [e]"
    "k_current (sd_k s) = i \<or> k_current (sd_k s1) = i \<or> patience i (sd_k s1) + user_ticks [e] \<le> patience i (sd_k s)" by blast
  have "i \<in> set (k_ring (sd_k s1))" "unat (sd_itimer_ticks s1) + ticks_of es < 2 ^ 31" "\<And>f. Ev_other f \<in> set es \<Longrightarrow> spares i f"
    using Cons.prems s1(3,5) tk(1) by auto
  from Cons.IH[OF s1(2) this(1) s1(4) this(2,3)] obtain s' rn where r: "sched_run rtc es s1 = Some (s', rn)"
    "patience i (sd_k s1) < user_ticks es \<longrightarrow> i \<in> set (k_current (sd_k s1) # rn)" by blast
  have "i \<in> set (k_current (sd_k s) # k_current (sd_k s1) # rn)" if "patience i (sd_k s) < user_ticks (e # es)"
  proof (cases "k_current (sd_k s) = i \<or> k_current (sd_k s1) = i")
    case False
    then have "patience i (sd_k s1) < user_ticks es" using s1(6) that tk(2) by linarith
    then show ?thesis using r(2) by auto
  qed auto
  then show ?case using s1(1) r(1) by simp
qed (simp add: user_ticks_def)

lemma patience_bound:
  "patience i k \<le> 1 + 2 * (\<Sum>p\<in>set (k_ring k) - {i}. nat (t_counter (the_task k p))) +
     2 * (\<Sum>p\<in>set (k_ring k) - {i}. nat (t_counter (the_task k p) div 2 + t_priority (the_task k p)))"
  by (simp add: patience_def debt_def refill_def stalled_def)

section \<open>Properties\<close>

text \<open>
  C12. \<^verbatim>\<open>schedule\<close> returns whenever fewer than \<open>2\<^sup>3\<^sup>1\<close> ticks have passed since the last call, and it
  chooses right: of the tasks that are runnable after its pass over timers, signals and timeouts it takes one
  with the most time left, and the idle task only when there is none; when all of them have used up
  their time, and only then, every task's counter becomes half of what it was plus its priority, in 32 bits.
  The counters of the tasks are not negative when it is called.
\<close>

theorem schedule_chooses:
  assumes "unat (sd_itimer_ticks s) < 2 ^ 31" "distinct (k_ring (sd_k s))"
    "\<forall>p\<in>set (k_ring (sd_k s)). 0 \<le> t_counter (the_task (sd_k s) p)"
  shows "\<exists>k1 nx s'. sched_pass (sd_itimer_ticks s) (sd_jiffies s) (k_ring (sd_k s)) (sd_k s, - 1) = Some (k1, nx) \<and>
    schedule s = Some s' \<and> chosen k1 (k_current (sd_k s')) \<and>
    (\<forall>p\<in>set (k_ring (sd_k s)). t_counter (the_task (sd_k s') p) =
       (if exhausted k1 then wrap32 (t_counter (the_task (sd_k s) p) div 2 + t_priority (the_task (sd_k s) p))
        else t_counter (the_task (sd_k s) p)))"
proof -
  obtain k1 nx where p: "sched_pass (sd_itimer_ticks s) (sd_jiffies s) (k_ring (sd_k s)) (sd_k s, - 1) = Some (k1, nx)"
    "same_slice (sd_k s) k1" using sched_pass_ends[OF assms(1)] by blast
  have r: "k_ring k1 = k_ring (sd_k s)" "\<And>i. t_counter (the_task k1 i) = t_counter (the_task (sd_k s) i)"
    "\<And>i. t_priority (the_task k1 i) = t_priority (the_task (sd_k s) i)"
    using p(2) by (auto simp: same_slice_def)
  have "\<forall>p\<in>set (k_ring k1). 0 \<le> t_counter (the_task k1 p)" using assms(3) r by simp
  from schedule_unfold[OF p(1) this] obtain n s' where n: "chosen k1 n" "schedule s = Some s'"
    "sd_k s' = (if exhausted k1 then recalc k1 else k1)\<lparr>k_current := n\<rparr>" by auto
  have d: "distinct (k_ring k1)" using assms(2) r(1) by simp
  have u: "the_task (k\<lparr>k_current := n\<rparr>) x = the_task k x" for k x by (simp add: the_task_def)
  have "t_counter (the_task (sd_k s') p) = (if exhausted k1 then wrap32 (t_counter (the_task (sd_k s) p) div 2 + t_priority (the_task (sd_k s) p))
        else t_counter (the_task (sd_k s) p))" if "p \<in> set (k_ring (sd_k s))" for p
    unfolding n(3) u using that r by (simp add: recalc_task[OF d] sar32_half)
  moreover have "k_current (sd_k s') = n" using n(3) by simp
  ultimately show ?thesis using p(1) n(1,2) by blast
qed

definition example_sched :: "kstate \<Rightarrow> sched_state" where
  "example_sched k = \<lparr>sd_k = k, sd_clock = clock_boot, sd_jiffies = 0, sd_itimer_ticks = 0, sd_itimer_next = - 1,
     sd_need_resched = False, sd_intr_count = 0, sd_swtch = 0, sd_cpu_user = 0, sd_cpu_nice = 0, sd_cpu_system = 0,
     sd_avenrun = [0, 0, 0], sd_load_count = LOAD_FREQ, sd_timers = [], sd_lost_ticks = 0, sd_timer_active = 0,
     sd_timer_table = replicate 32 0, sd_bh = False\<rparr>"

theorem schedule_chooses_witness:
  "\<exists>s'. schedule (example_sched (example_table 0)) = Some s' \<and> k_current (sd_k s') \<in> {1, 2}"
proof -
  let ?s = "example_sched (example_table 0)"
  note ev = example_sched_def example_table_def example_user_def INIT_TASK_def the_task_def
  obtain k1 nx s' where w: "sched_pass (sd_itimer_ticks ?s) (sd_jiffies ?s) (k_ring (sd_k ?s)) (sd_k ?s, - 1) = Some (k1, nx)"
    "schedule ?s = Some s'" "chosen k1 (k_current (sd_k s'))"
    using schedule_chooses[of ?s] by (fastforce simp: ev)
  have "k1 = example_table 0" using w(1) by (simp add: ev real_timer_def wake_check_def Let_def)
  then have "k_current (sd_k s') \<in> {1, 2}" using w(3) by (auto simp: chosen_def runnable_def ev split: if_splits)
  then show ?thesis using w(2) by blast
qed

text \<open>
  C13. No runnable task starves: in any sequence of timer interrupts, calls of \<^verbatim>\<open>schedule\<close> and other
  events that leave the time slices alone and task \<open>i\<close> runnable, every call of \<^verbatim>\<open>schedule\<close> returns, and
  task \<open>i\<close> runs before the number of interrupts taken in user mode exceeds one more than twice the time
  the other tasks have left and would get from one recalculation. Counters are non-negative, priorities
  lie between 1 and \<open>2\<^sup>3\<^sup>0\<close>, and fewer than \<open>2\<^sup>3\<^sup>1\<close> interrupts come; interrupts of the kernel do not count
  because they do not reschedule.
\<close>

theorem schedule_no_starvation:
  assumes "slices_ok (sd_k s)" "i \<in> set (k_ring (sd_k s))" "runnable (sd_k s) i"
    "unat (sd_itimer_ticks s) + ticks_of es < 2 ^ 31" "\<forall>f. Ev_other f \<in> set es \<longrightarrow> spares i f"
    "1 + 2 * (\<Sum>p\<in>set (k_ring (sd_k s)) - {i}. nat (t_counter (the_task (sd_k s) p))) +
       2 * (\<Sum>p\<in>set (k_ring (sd_k s)) - {i}. nat (t_counter (the_task (sd_k s) p) div 2 + t_priority (the_task (sd_k s) p)))
     < user_ticks es"
  shows "\<exists>s' rn. sched_run rtc es s = Some (s', rn) \<and> i \<in> set (k_current (sd_k s) # rn)"
  using sched_run_patience[OF assms(1-4), where rtc = rtc] assms(5) le_less_trans[OF patience_bound assms(6)] by blast

theorem schedule_no_starvation_witness:
  "\<exists>s' rn. sched_run (\<lambda>_. False) (Ev_schedule # replicate 100 (Ev_tick True) @ [Ev_tick False]) (example_sched (example_table 1)) = Some (s', rn) \<and> 2 \<in> set rn"
proof -
  let ?s = "example_sched (example_table 1)"
  let ?es = "Ev_schedule # replicate 100 (Ev_tick True) @ [Ev_tick False]"
  note ev = example_sched_def example_table_def example_user_def INIT_TASK_def the_task_def
  have t: "ticks_of ?es = 101" "user_ticks ?es = 100" by (simp_all add: ticks_of_def user_ticks_def is_tick_def)
  have "{p \<in> set (k_ring (sd_k ?s)). p \<noteq> 2} = {1}" "set (k_ring (sd_k ?s)) - {2} = {1}" by (auto simp: ev)
  then have "\<exists>s' rn. sched_run (\<lambda>_. False) ?es ?s = Some (s', rn) \<and> 2 \<in> set (k_current (sd_k ?s) # rn)"
    using schedule_no_starvation[where s = ?s and i = 2 and es = ?es and rtc = "\<lambda>_. False"] unfolding t by (simp add: slices_ok_def runnable_def ev)
  then show ?thesis by (simp add: ev)
qed

text \<open>
  The load averages cannot overflow: each new average lies between zero and the larger of the old one
  and the number of active tasks, so all three stay below the number of slots of the task table.
\<close>

lemma load_average_bounds:
  assumes "unat load \<le> 127 * 2048" "unat n \<le> 127 * 2048" "e \<in> {EXP_1, EXP_5, EXP_15}"
  shows "unat (CALC_LOAD load e n) \<le> max (unat load) (unat n) \<and>
    unat (CALC_LOAD load e n) = (unat load * unat e + unat n * (2048 - unat e)) div 2048"
proof -
  have e: "unat e < 2048" "unat (FIXED_1 - e) = 2048 - unat e" using assms(3) by (auto simp: kconst)
  let ?m = "max (unat load) (unat n)"
  have sum: "unat load * unat e + unat n * (2048 - unat e) \<le> ?m * 2048"
  proof -
    have "unat load * unat e \<le> ?m * unat e" "unat n * (2048 - unat e) \<le> ?m * (2048 - unat e)" by (simp_all add: mult_le_mono1)
    moreover have "?m * unat e + ?m * (2048 - unat e) = ?m * 2048" using e(1) by (simp add: distrib_left[symmetric])
    ultimately show ?thesis by linarith
  qed
  have m: "?m * 2048 \<le> 127 * 2048 * 2048" using assms(1,2) by simp
  have a: "unat (load * e) = unat load * unat e" "unat (n * (FIXED_1 - e)) = unat n * (2048 - unat e)"
    using sum m e by (auto simp: unat_mult_lem[THEN iffD1])
  have "unat (load * e + n * (FIXED_1 - e)) = unat load * unat e + unat n * (2048 - unat e)"
  proof -
    have "unat load * unat e + unat n * (2048 - unat e) < 2 ^ 32" by (rule le_less_trans[OF order_trans[OF sum m]]) simp
    then show ?thesis by (subst unat_add_lt) (simp_all only: a)
  qed
  then have r: "unat (CALC_LOAD load e n) = (unat load * unat e + unat n * (2048 - unat e)) div 2048"
    by (simp add: CALC_LOAD_def FSHIFT_def unat_drop_bit_eq drop_bit_nat_def)
  have "(unat load * unat e + unat n * (2048 - unat e)) div 2048 \<le> ?m * 2048 div 2048" by (rule div_le_mono[OF sum])
  then show ?thesis using r by simp
qed

theorem load_average_bounds_witness: "unat (CALC_LOAD 2048 EXP_5 4096) \<le> 4096"
  using load_average_bounds[of 2048 4096 EXP_5] by simp

end
