(* ===== verification/Ipc_Msg.thy ===== *)
theory Ipc_Msg
  imports Sys_Cred
begin

text \<open>
  System V message queues (\<^verbatim>\<open>ipc/msg.c\<close>) and the permission check of all System V objects
  (\<^verbatim>\<open>ipc/util.c\<close>). A call that sleeps is split at its label \<^verbatim>\<open>slept\<close>.
\<close>

section \<open>Permissions\<close>

record ipc_perm =
  ip_key :: int
  ip_uid :: u16
  ip_gid :: u16
  ip_cuid :: u16
  ip_cgid :: u16
  ip_mode :: u16
  ip_seq :: u16

text \<open>\<^const>\<open>True\<close> when access is refused.\<close>

definition ipcperms :: "ipc_perm \<Rightarrow> u16 \<Rightarrow> task_struct \<Rightarrow> bool" where
  "ipcperms ipcp flag t =
     (if suser t then False
      else
        let requested_mode = drop_bit 6 flag OR drop_bit 3 flag OR flag;
            granted_mode = (if t_euid t = ip_cuid ipcp \<or> t_euid t = ip_uid ipcp then drop_bit 6 (ip_mode ipcp)
                            else if in_group_p (ip_cgid ipcp) t \<or> in_group_p (ip_gid ipcp) t then drop_bit 3 (ip_mode ipcp)
                            else ip_mode ipcp)
        in requested_mode AND NOT granted_mode AND 7 \<noteq> 0)"

text \<open>A slot of a table of objects; \<^verbatim>\<open>IPC_NOID\<close> marks one that is being set up.\<close>

datatype 'a ipc_slot = IPC_UNUSED | IPC_NOID | Ipc 'a

definition IPC_CREAT :: u32 where [kconst]: "IPC_CREAT = 0x200"
definition IPC_EXCL :: u32 where [kconst]: "IPC_EXCL = 0x400"
definition IPC_NOWAIT :: u32 where [kconst]: "IPC_NOWAIT = 0x800"

abbreviation (input) "IPC_PRIVATE \<equiv> (0 :: int)"
abbreviation (input) "IPC_RMID \<equiv> (0 :: int)"
abbreviation (input) "IPC_SET \<equiv> (1 :: int)"
abbreviation (input) "IPC_STAT \<equiv> (2 :: int)"
abbreviation (input) "IPC_INFO \<equiv> (3 :: int)"

definition flag_set :: "u32 \<Rightarrow> u32 \<Rightarrow> bool" where
  "flag_set flg m \<longleftrightarrow> flg AND m \<noteq> 0"

text \<open>Lowering the highest used slot.\<close>

fun lower_max :: "'a ipc_slot list \<Rightarrow> nat \<Rightarrow> nat" where
  "lower_max que 0 = 0"
| "lower_max que (Suc m) = (case que ! m of IPC_UNUSED \<Rightarrow> lower_max que m | _ \<Rightarrow> m)"

section \<open>Queues\<close>

text \<open>
  The linked list from \<^verbatim>\<open>msg_first\<close> to \<^verbatim>\<open>msg_last\<close> is a list; \<^verbatim>\<open>msg_ts\<close> is the length of the text.
  \<open>mq_addr\<close> is the address of the structure: a call that sleeps keeps it.
\<close>

record msg =
  mg_type :: int
  mg_text :: "u8 list"

record msqid_ds =
  mq_addr :: nat
  mq_perm :: ipc_perm
  mq_msgs :: "msg list"
  mq_stime :: int
  mq_rtime :: int
  mq_ctime :: int
  mq_cbytes :: u16
  mq_qnum :: u16
  mq_qbytes :: u16
  mq_lspid :: u16
  mq_lrpid :: u16

record msg_state =
  ms_que :: "msqid_ds ipc_slot list"
  ms_bytes :: int
  ms_hdrs :: int
  ms_seq :: u16
  ms_used :: int
  ms_max :: nat

definition MSGMNI :: int where [kconst]: "MSGMNI = 128"
definition MSGMAX :: int where [kconst]: "MSGMAX = 4056"
definition MSGMNB :: int where [kconst]: "MSGMNB = 16384"
definition MSG_NOERROR :: u32 where [kconst]: "MSG_NOERROR = 0x1000"
definition MSG_EXCEPT :: u32 where [kconst]: "MSG_EXCEPT = 0x2000"

definition msg_init :: msg_state where
  "msg_init = \<lparr>ms_que = replicate (nat MSGMNI) IPC_UNUSED, ms_bytes = 0, ms_hdrs = 0, ms_seq = 0, ms_used = 0, ms_max = 0\<rparr>"

definition msq_slot :: "int \<Rightarrow> nat" where
  "msq_slot msqid = nat (msqid mod MSGMNI)"

definition msq_at :: "int \<Rightarrow> msg_state \<Rightarrow> msqid_ds ipc_slot" where
  "msq_at msqid s = ms_que s ! msq_slot msqid"

definition put_msq :: "int \<Rightarrow> msqid_ds ipc_slot \<Rightarrow> msg_state \<Rightarrow> msg_state" where
  "put_msq msqid q s = s\<lparr>ms_que := (ms_que s)[msq_slot msqid := q]\<rparr>"

definition held_msq :: "int \<Rightarrow> msg_state \<Rightarrow> nat" where
  "held_msq msqid s = (case msq_at msqid s of Ipc msq \<Rightarrow> mq_addr msq | _ \<Rightarrow> 0)"

text \<open>The identifier is that of the queue in the slot, not of one removed before it.\<close>

definition seq_ok :: "ipc_perm \<Rightarrow> int \<Rightarrow> bool" where
  "seq_ok p msqid \<longleftrightarrow> uint (ip_seq p) = msqid div MSGMNI"

section \<open>msgsnd\<close>

text \<open>The checks before the label \<^verbatim>\<open>slept\<close>.\<close>

definition msgsnd_enter :: "va_fun \<Rightarrow> int \<Rightarrow> u32 \<Rightarrow> int \<Rightarrow> int \<Rightarrow> msg_state \<Rightarrow> errno option" where
  "msgsnd_enter va msqid msgp msgsz mtype s =
     (if msgsz > MSGMAX \<or> msgsz < 0 \<or> msqid < 0 then Some EINVAL
      else if msgp = 0 then Some EFAULT
      else (case va VERIFY_READ (msgp + 4) (word_of_int msgsz) of
              Some e \<Rightarrow> Some e
            | None \<Rightarrow>
                if mtype < 1 then Some EINVAL
                else (case msq_at msqid s of Ipc _ \<Rightarrow> None | _ \<Rightarrow> Some EINVAL)))"

text \<open>
  From the label to the allocation of the header, with the address \<open>msq\<close> of the queue: an error, sleep on
  \<^verbatim>\<open>wwait\<close> and start again, or room. A queue that was removed meanwhile is no longer in its slot; it has
  another sequence number, and is not freed before its sleepers have left.
\<close>

datatype msg_wait = Msg_err errno | Msg_sleep | Msg_go

definition msgsnd_slept :: "int \<Rightarrow> nat \<Rightarrow> int \<Rightarrow> u32 \<Rightarrow> task_struct \<Rightarrow> msg_state \<Rightarrow> msg_wait" where
  "msgsnd_slept msqid addr msgsz msgflg t s =
     (case msq_at msqid s of
        Ipc msq \<Rightarrow>
          if mq_addr msq \<noteq> addr \<or> \<not> seq_ok (mq_perm msq) msqid then Msg_err EIDRM
          else if ipcperms (mq_perm msq) S_IWUGO t then Msg_err EACCES
          else if msgsz + uint (mq_cbytes msq) > uint (mq_qbytes msq)
          then if flag_set msgflg IPC_NOWAIT then Msg_err EAGAIN
               else if signal_pending t then Msg_err EINTR
               else Msg_sleep
          else Msg_go
      | _ \<Rightarrow> Msg_err EIDRM)"

text \<open>
  After the allocation, which may sleep: link the message. The queue at \<open>addr\<close> may have been removed and
  freed in the meantime; when its slot has another queue by then, the sequence number is read from
  freed memory, which holds \<open>stale\<close>. \<^const>\<open>None\<close>: the message is written through the pointer to the freed queue.
  The last component tells whether \<^verbatim>\<open>rwait\<close> is woken.
\<close>

definition link_msg :: "int \<Rightarrow> u8 list \<Rightarrow> task_struct \<Rightarrow> int \<Rightarrow> msqid_ds \<Rightarrow> msqid_ds" where
  "link_msg mtype text t now msq =
     msq\<lparr>mq_msgs := mq_msgs msq @ [\<lparr>mg_type = mtype, mg_text = text\<rparr>],
         mq_cbytes := mq_cbytes msq + word_of_int (int (length text)), mq_qnum := mq_qnum msq + 1,
         mq_lspid := word_of_int (t_pid t), mq_stime := now\<rparr>"

definition msgsnd_link ::
  "int \<Rightarrow> nat \<Rightarrow> u16 \<Rightarrow> int \<Rightarrow> u8 list \<Rightarrow> task_struct \<Rightarrow> int \<Rightarrow> msg_state \<Rightarrow> (int res \<times> msg_state \<times> bool) option" where
  "msgsnd_link msqid addr stale mtype text t now s =
     (case msq_at msqid s of
        Ipc msq \<Rightarrow>
          if mq_addr msq = addr
          then if \<not> seq_ok (mq_perm msq) msqid then Some (Inl EIDRM, s, False)
               else let msgsz = int (length text) in
                    Some (Inr msgsz,
                          (put_msq msqid (Ipc (link_msg mtype text t now msq)) s)
                            \<lparr>ms_bytes := wrap32 (ms_bytes s + msgsz), ms_hdrs := wrap32 (ms_hdrs s + 1)\<rparr>,
                          True)
          else if uint stale \<noteq> msqid div MSGMNI then Some (Inl EIDRM, s, False)
          else None
      | _ \<Rightarrow> Some (Inl EIDRM, s, False))"

text \<open>
  The whole call up to the point where it sleeps (\<^const>\<open>None\<close> in the first component) or returns. \<open>mem\<close> tells
  whether the allocation succeeds, \<open>others\<close> is what other tasks do to the table while it sleeps.
\<close>

definition sys_msgsnd ::
  "va_fun \<Rightarrow> bool \<Rightarrow> (msg_state \<Rightarrow> msg_state) \<Rightarrow> u16 \<Rightarrow> int \<Rightarrow> u32 \<Rightarrow> int \<Rightarrow> u8 list \<Rightarrow> u32 \<Rightarrow> task_struct \<Rightarrow> int \<Rightarrow> msg_state \<Rightarrow>
   (int res option \<times> msg_state) option" where
  "sys_msgsnd va mem others stale msqid msgp mtype text msgflg t now s =
     (case msgsnd_enter va msqid msgp (int (length text)) mtype s of
        Some e \<Rightarrow> Some (Some (Inl e), s)
      | None \<Rightarrow>
          let addr = held_msq msqid s in
          case msgsnd_slept msqid addr (int (length text)) msgflg t s of
            Msg_err e \<Rightarrow> Some (Some (Inl e), s)
          | Msg_sleep \<Rightarrow> Some (None, s)
          | Msg_go \<Rightarrow>
              if \<not> mem then Some (Some (Inl ENOMEM), others s)
              else map_option (\<lambda>(r, s1, _). (Some r, s1)) (msgsnd_link msqid addr stale mtype text t now (others s)))"

section \<open>msgrcv\<close>

text \<open>The three searches of the loop, as the index of the message.\<close>

fun first_msg :: "(msg \<Rightarrow> bool) \<Rightarrow> msg list \<Rightarrow> nat option" where
  "first_msg P [] = None"
| "first_msg P (m # ms) = (if P m then Some 0 else map_option Suc (first_msg P ms))"

text \<open>The index of the least type seen so far, the next index and the rest of the list.\<close>

fun least_msg :: "msg list \<Rightarrow> nat \<Rightarrow> nat \<Rightarrow> msg list \<Rightarrow> nat" where
  "least_msg all leastp i [] = leastp"
| "least_msg all leastp i (m # ms) =
     (if mg_type m < mg_type (all ! leastp) then least_msg all i (Suc i) ms else least_msg all leastp (Suc i) ms)"

definition find_msg :: "int \<Rightarrow> u32 \<Rightarrow> msg list \<Rightarrow> nat option" where
  "find_msg msgtyp msgflg ms =
     (if msgtyp = 0 then if ms = [] then None else Some 0
      else if msgtyp > 0
      then if flag_set msgflg MSG_EXCEPT then first_msg (\<lambda>m. mg_type m \<noteq> msgtyp) ms
           else first_msg (\<lambda>m. mg_type m = msgtyp) ms
      else if ms = [] then None
      else let leastp = least_msg ms 0 0 ms in
           if mg_type (ms ! leastp) \<le> wrap32 (- msgtyp) then Some leastp else None)"

definition msgrcv_enter :: "va_fun \<Rightarrow> int \<Rightarrow> u32 \<Rightarrow> int \<Rightarrow> msg_state \<Rightarrow> errno option" where
  "msgrcv_enter va msqid msgp msgsz s =
     (if msqid < 0 \<or> msgsz < 0 then Some EINVAL
      else if msgp = 0 \<or> msgp + 4 = 0 then Some EFAULT
      else (case va VERIFY_WRITE (msgp + 4) (word_of_int msgsz) of
              Some e \<Rightarrow> Some e
            | None \<Rightarrow> (case msq_at msqid s of Ipc _ \<Rightarrow> None | _ \<Rightarrow> Some EINVAL)))"

text \<open>
  One round of the loop, with the address of the queue: an error, a message with its type, or sleep on
  \<^verbatim>\<open>rwait\<close> (\<^const>\<open>None\<close>).
\<close>

definition take_msg :: "nat \<Rightarrow> task_struct \<Rightarrow> int \<Rightarrow> msqid_ds \<Rightarrow> msqid_ds" where
  "take_msg i t now msq =
     (let nmsg = mq_msgs msq ! i;
          rest = take i (mq_msgs msq) @ drop (Suc i) (mq_msgs msq);
          qnum = mq_qnum msq - 1
      in msq\<lparr>mq_msgs := (if qnum = 0 then [] else rest), mq_qnum := qnum, mq_rtime := now,
             mq_lrpid := word_of_int (t_pid t), mq_cbytes := mq_cbytes msq - word_of_int (int (length (mg_text nmsg)))\<rparr>)"

definition msgrcv_round ::
  "int \<Rightarrow> nat \<Rightarrow> int \<Rightarrow> int \<Rightarrow> u32 \<Rightarrow> task_struct \<Rightarrow> int \<Rightarrow> msg_state \<Rightarrow> (int \<times> u8 list) res option \<times> msg_state" where
  "msgrcv_round msqid addr msgsz msgtyp msgflg t now s =
     (case msq_at msqid s of
        Ipc msq \<Rightarrow>
          if mq_addr msq \<noteq> addr \<or> \<not> seq_ok (mq_perm msq) msqid then (Some (Inl EIDRM), s)
          else if ipcperms (mq_perm msq) S_IRUGO t then (Some (Inl EACCES), s)
          else (case find_msg msgtyp msgflg (mq_msgs msq) of
                  Some i \<Rightarrow>
                    let nmsg = mq_msgs msq ! i; ts = int (length (mg_text nmsg)) in
                    if msgsz < ts \<and> \<not> flag_set msgflg MSG_NOERROR then (Some (Inl E2BIG), s)
                    else (Some (Inr (mg_type nmsg, take (nat (if msgsz > ts then ts else msgsz)) (mg_text nmsg))),
                          (put_msq msqid (Ipc (take_msg i t now msq)) s)
                            \<lparr>ms_bytes := wrap32 (ms_bytes s - ts), ms_hdrs := wrap32 (ms_hdrs s - 1)\<rparr>)
                | None \<Rightarrow>
                    if flag_set msgflg IPC_NOWAIT then (Some (Inl ENOMSG), s)
                    else if signal_pending t then (Some (Inl EINTR), s)
                    else (None, s))
      | _ \<Rightarrow> (Some (Inl EIDRM), s))"

definition sys_msgrcv ::
  "va_fun \<Rightarrow> int \<Rightarrow> u32 \<Rightarrow> int \<Rightarrow> int \<Rightarrow> u32 \<Rightarrow> task_struct \<Rightarrow> int \<Rightarrow> msg_state \<Rightarrow> (int \<times> u8 list) res option \<times> msg_state" where
  "sys_msgrcv va msqid msgp msgsz msgtyp msgflg t now s =
     (case msgrcv_enter va msqid msgp msgsz s of
        Some e \<Rightarrow> (Some (Inl e), s)
      | None \<Rightarrow> msgrcv_round msqid (held_msq msqid s) msgsz msgtyp msgflg t now s)"

section \<open>msgget\<close>

text \<open>The search for a key stops and sleeps at a slot that is being set up.\<close>

datatype find_out = Key_at nat | Key_none | Key_wait

fun findkey_loop :: "('a \<Rightarrow> ipc_perm) \<Rightarrow> int \<Rightarrow> 'a ipc_slot list \<Rightarrow> nat \<Rightarrow> nat \<Rightarrow> find_out" where
  "findkey_loop perm key que qid 0 = Key_none"
| "findkey_loop perm key que qid (Suc n) =
     (case que ! qid of
        IPC_NOID \<Rightarrow> Key_wait
      | IPC_UNUSED \<Rightarrow> findkey_loop perm key que (Suc qid) n
      | Ipc q \<Rightarrow> if key = ip_key (perm q) then Key_at qid else findkey_loop perm key que (Suc qid) n)"

definition msg_findkey :: "int \<Rightarrow> msg_state \<Rightarrow> find_out" where
  "msg_findkey key s = findkey_loop mq_perm key (ms_que s) 0 (Suc (ms_max s))"

fun unused_slot :: "'a ipc_slot list \<Rightarrow> nat option" where
  "unused_slot [] = None"
| "unused_slot (q # qs) = (case q of IPC_UNUSED \<Rightarrow> Some 0 | _ \<Rightarrow> map_option Suc (unused_slot qs))"

text \<open>\<^verbatim>\<open>newque\<close> marks the slot while it allocates, and then fills it or gives it back.\<close>

definition newque_reserve :: "msg_state \<Rightarrow> (errno + nat) \<times> msg_state" where
  "newque_reserve s =
     (case unused_slot (ms_que s) of
        None \<Rightarrow> (Inl ENOSPC, s)
      | Some qid \<Rightarrow> (Inr qid, s\<lparr>ms_que := (ms_que s)[qid := IPC_NOID]\<rparr>))"

definition newque_fill :: "nat option \<Rightarrow> nat \<Rightarrow> int \<Rightarrow> u32 \<Rightarrow> task_struct \<Rightarrow> int \<Rightarrow> msg_state \<Rightarrow> int res \<times> msg_state" where
  "newque_fill mem qid key msgflg t now s =
     (case mem of
        None \<Rightarrow> (Inl ENOMEM, s\<lparr>ms_que := (ms_que s)[qid := IPC_UNUSED]\<rparr>)
      | Some addr \<Rightarrow>
          let perm = \<lparr>ip_key = key, ip_uid = t_euid t, ip_gid = t_egid t, ip_cuid = t_euid t, ip_cgid = t_egid t,
                      ip_mode = ucast msgflg AND S_IRWXUGO, ip_seq = ms_seq s\<rparr>;
              msq = \<lparr>mq_addr = addr, mq_perm = perm, mq_msgs = [], mq_stime = 0, mq_rtime = 0, mq_ctime = now, mq_cbytes = 0,
                     mq_qnum = 0, mq_qbytes = word_of_int MSGMNB, mq_lspid = 0, mq_lrpid = 0\<rparr>
          in (Inr (uint (ms_seq s) * MSGMNI + int qid),
              s\<lparr>ms_max := max qid (ms_max s), ms_que := (ms_que s)[qid := Ipc msq], ms_used := ms_used s + 1\<rparr>))"

text \<open>\<open>mem\<close> is the address that the allocator returns, if any.\<close>

definition newque ::
  "nat option \<Rightarrow> (msg_state \<Rightarrow> msg_state) \<Rightarrow> int \<Rightarrow> u32 \<Rightarrow> task_struct \<Rightarrow> int \<Rightarrow> msg_state \<Rightarrow> int res \<times> msg_state" where
  "newque mem others key msgflg t now s =
     (case newque_reserve s of
        (Inl e, s1) \<Rightarrow> (Inl e, s1)
      | (Inr qid, s1) \<Rightarrow> newque_fill mem qid key msgflg t now (others s1))"

text \<open>\<^const>\<open>None\<close>: sleeps on \<^verbatim>\<open>msg_lock\<close>.\<close>

definition sys_msgget ::
  "nat option \<Rightarrow> (msg_state \<Rightarrow> msg_state) \<Rightarrow> int \<Rightarrow> u32 \<Rightarrow> task_struct \<Rightarrow> int \<Rightarrow> msg_state \<Rightarrow> int res option \<times> msg_state" where
  "sys_msgget mem others key msgflg t now s =
     (let new = (case newque mem others key msgflg t now s of (r, s1) \<Rightarrow> (Some r, s1)) in
      if key = IPC_PRIVATE then new
      else (case msg_findkey key s of
              Key_wait \<Rightarrow> (None, s)
            | Key_none \<Rightarrow> if \<not> flag_set msgflg IPC_CREAT then (Some (Inl ENOENT), s) else new
            | Key_at qid \<Rightarrow>
                if flag_set msgflg IPC_CREAT \<and> flag_set msgflg IPC_EXCL then (Some (Inl EEXIST), s)
                else (case ms_que s ! qid of
                        Ipc msq \<Rightarrow>
                          if ipcperms (mq_perm msq) (ucast msgflg) t then (Some (Inl EACCES), s)
                          else (Some (Inr (uint (ip_seq (mq_perm msq)) * MSGMNI + int qid)), s)
                      | _ \<Rightarrow> (Some (Inl EIDRM), s))))"

section \<open>msgctl\<close>

text \<open>
  Removing a queue: its slot is free at once; then the caller wakes the sleepers and lets others run until
  these have left (\<open>others\<close>), and last it frees the messages and the queue.
\<close>

definition freeque_start :: "nat \<Rightarrow> msqid_ds \<Rightarrow> msg_state \<Rightarrow> msg_state" where
  "freeque_start qid msq s =
     s\<lparr>ms_seq := ms_seq s + 1, ms_bytes := wrap32 (ms_bytes s - uint (mq_cbytes msq)),
       ms_max := (if qid = ms_max s then lower_max (ms_que s) (ms_max s) else ms_max s),
       ms_que := (ms_que s)[qid := IPC_UNUSED], ms_used := ms_used s - 1\<rparr>"

definition freeque_end :: "msqid_ds \<Rightarrow> msg_state \<Rightarrow> msg_state" where
  "freeque_end msq s = s\<lparr>ms_hdrs := wrap32 (ms_hdrs s - int (length (mq_msgs msq)))\<rparr>"

record msginfo =
  mi_pool :: int
  mi_map :: int
  mi_max :: int
  mi_mnb :: int
  mi_mni :: int
  mi_ssz :: int
  mi_tql :: int
  mi_seg :: int

definition MSGPOOL :: int where [kconst]: "MSGPOOL = MSGMNI * MSGMNB sdiv 1024"
definition MSGTQL :: int where [kconst]: "MSGTQL = MSGMNB"
definition MSGMAP :: int where [kconst]: "MSGMAP = MSGMNB"
definition MSGSSZ :: int where [kconst]: "MSGSSZ = 16"
definition MSGSEG :: int where
  "MSGSEG = (if MSGPOOL * 1024 sdiv MSGSSZ \<le> 0xffff then MSGPOOL * 1024 sdiv MSGSSZ else 0xffff)"

abbreviation (input) "MSG_STAT \<equiv> (11 :: int)"
abbreviation (input) "MSG_INFO \<equiv> (12 :: int)"

text \<open>What a control call returns and stores in the caller's buffer.\<close>

datatype msgctl_out = Ctl_ret int | Ctl_info msginfo int | Ctl_stat msqid_ds int

definition msgctl_info :: "int \<Rightarrow> msg_state \<Rightarrow> msginfo" where
  "msgctl_info cmd s =
     (let mi = \<lparr>mi_pool = MSGPOOL, mi_map = MSGMAP, mi_max = MSGMAX, mi_mnb = MSGMNB, mi_mni = MSGMNI,
                mi_ssz = MSGSSZ, mi_tql = MSGTQL, mi_seg = MSGSEG\<rparr>
      in if cmd = MSG_INFO then mi\<lparr>mi_pool := ms_used s, mi_map := ms_hdrs s, mi_tql := ms_bytes s\<rparr> else mi)"

text \<open>The first \<^verbatim>\<open>switch\<close>: \<^const>\<open>None\<close> when the call goes on.\<close>

definition msgctl_first :: "va_fun \<Rightarrow> int \<Rightarrow> int \<Rightarrow> u32 \<Rightarrow> task_struct \<Rightarrow> msg_state \<Rightarrow> msgctl_out res option" where
  "msgctl_first va msqid cmd buf t s =
     (if cmd = IPC_INFO \<or> cmd = MSG_INFO
      then if buf = 0 then Some (Inl EFAULT)
           else (case va VERIFY_WRITE buf 32 of
                   Some e \<Rightarrow> Some (Inl e)
                 | None \<Rightarrow> Some (Inr (Ctl_info (msgctl_info cmd s) (int (ms_max s)))))
      else if cmd = MSG_STAT
      then if buf = 0 then Some (Inl EFAULT)
           else (case va VERIFY_WRITE buf 56 of
                   Some e \<Rightarrow> Some (Inl e)
                 | None \<Rightarrow>
                     if msqid > int (ms_max s) then Some (Inl EINVAL)
                     else (case ms_que s ! nat msqid of
                             Ipc msq \<Rightarrow>
                               if ipcperms (mq_perm msq) S_IRUGO t then Some (Inl EACCES)
                               else Some (Inr (Ctl_stat msq (msqid + uint (ip_seq (mq_perm msq)) * MSGMNI)))
                           | _ \<Rightarrow> Some (Inl EINVAL)))
      else if cmd = IPC_SET then if buf = 0 then Some (Inl EFAULT) else None
      else if cmd = IPC_STAT
      then if buf = 0 then Some (Inl EFAULT)
           else (case va VERIFY_WRITE buf 56 of Some e \<Rightarrow> Some (Inl e) | None \<Rightarrow> None)
      else None)"

definition ipc_owner :: "ipc_perm \<Rightarrow> task_struct \<Rightarrow> bool" where
  "ipc_owner p t \<longleftrightarrow> suser t \<or> t_euid t = ip_cuid p \<or> t_euid t = ip_uid p"

definition perm_set :: "ipc_perm \<Rightarrow> ipc_perm \<Rightarrow> ipc_perm" where
  "perm_set tbuf p = p\<lparr>ip_uid := ip_uid tbuf, ip_gid := ip_gid tbuf,
     ip_mode := (ip_mode p AND NOT S_IRWXUGO) OR (S_IRWXUGO AND ip_mode tbuf)\<rparr>"

text \<open>
  \<open>tbuf\<close> is the structure at \<open>buf\<close>; of it the call uses \<^verbatim>\<open>msg_perm\<close> and \<^verbatim>\<open>msg_qbytes\<close>. The body up to
  the wait of \<^verbatim>\<open>freeque\<close>: the last component is the queue that is being removed. Then the whole call.
\<close>

definition msgctl_body ::
  "va_fun \<Rightarrow> int \<Rightarrow> int \<Rightarrow> u32 \<Rightarrow> ipc_perm \<Rightarrow> u16 \<Rightarrow> task_struct \<Rightarrow> int \<Rightarrow> msg_state \<Rightarrow> msgctl_out res \<times> msg_state \<times> msqid_ds option" where
  "msgctl_body va msqid cmd buf tperm tqbytes t now s =
     (if msqid < 0 \<or> cmd < 0 then (Inl EINVAL, s, None)
      else (case msgctl_first va msqid cmd buf t s of
              Some r \<Rightarrow> (r, s, None)
            | None \<Rightarrow>
                (case msq_at msqid s of
                   Ipc msq \<Rightarrow>
                     if \<not> seq_ok (mq_perm msq) msqid then (Inl EIDRM, s, None)
                     else if cmd = IPC_STAT
                     then if ipcperms (mq_perm msq) S_IRUGO t then (Inl EACCES, s, None) else (Inr (Ctl_stat msq 0), s, None)
                     else if cmd = IPC_RMID \<or> cmd = IPC_SET
                     then if \<not> ipc_owner (mq_perm msq) t then (Inl EPERM, s, None)
                          else if cmd = IPC_RMID then (Inr (Ctl_ret 0), freeque_start (msq_slot msqid) msq s, Some msq)
                          else if uint tqbytes > MSGMNB \<and> \<not> suser t then (Inl EPERM, s, None)
                          else (Inr (Ctl_ret 0),
                                put_msq msqid (Ipc (msq\<lparr>mq_qbytes := tqbytes, mq_perm := perm_set tperm (mq_perm msq),
                                                         mq_ctime := now\<rparr>)) s, None)
                     else (Inl EINVAL, s, None)
                 | _ \<Rightarrow> (Inl EINVAL, s, None))))"

definition sys_msgctl ::
  "va_fun \<Rightarrow> (msg_state \<Rightarrow> msg_state) \<Rightarrow> int \<Rightarrow> int \<Rightarrow> u32 \<Rightarrow> ipc_perm \<Rightarrow> u16 \<Rightarrow> task_struct \<Rightarrow> int \<Rightarrow> msg_state \<Rightarrow>
   msgctl_out res \<times> msg_state" where
  "sys_msgctl va others msqid cmd buf tperm tqbytes t now s =
     (case msgctl_body va msqid cmd buf tperm tqbytes t now s of
        (r, s1, None) \<Rightarrow> (r, s1)
      | (r, s1, Some msq) \<Rightarrow> (r, freeque_end msq (others s1)))"

section \<open>Which message is received\<close>

lemma first_msg_Some:
  "first_msg P ms = Some i \<longleftrightarrow> i < length ms \<and> P (ms ! i) \<and> (\<forall>j<i. \<not> P (ms ! j))"
proof (induction ms arbitrary: i)
  case (Cons m ms)
  show ?case
  proof (cases i)
    case 0
    then show ?thesis by auto
  next
    case (Suc k)
    then show ?thesis using Cons.IH[of k] by (auto simp: All_less_Suc2)
  qed
qed simp

lemma first_msg_None: "first_msg P ms = None \<longleftrightarrow> (\<forall>m\<in>set ms. \<not> P m)"
  by (induction ms) auto

lemma least_msg_inv:
  assumes "rest = drop i all" "l < length all" "l < i \<or> l = 0 \<and> i = 0"
    "\<forall>j<i. mg_type (all ! l) \<le> mg_type (all ! j)" "\<forall>j<l. mg_type (all ! l) < mg_type (all ! j)"
  shows "least_msg all l i rest < length all \<and>
    (\<forall>j<length all. mg_type (all ! least_msg all l i rest) \<le> mg_type (all ! j)) \<and>
    (\<forall>j<least_msg all l i rest. mg_type (all ! least_msg all l i rest) < mg_type (all ! j))"
  using assms
proof (induction rest arbitrary: l i)
  case Nil
  then have "length all \<le> i" by simp
  then show ?case using Nil by auto
next
  case (Cons m ms)
  then have i: "i < length all" "m = all ! i" "ms = drop (Suc i) all"
    by (metis drop_all linorder_not_le list.distinct(1), metis drop_all linorder_not_le list.distinct(1) list.sel(1) hd_drop_conv_nth,
        metis list.sel(3) drop_Suc tl_drop)
  show ?case
  proof (cases "mg_type m < mg_type (all ! l)")
    case True
    have "\<forall>j<i. mg_type (all ! i) < mg_type (all ! j)" using True i(2) Cons.prems(4) by fastforce
    then have "\<forall>j<Suc i. mg_type (all ! i) \<le> mg_type (all ! j)" "\<forall>j<i. mg_type (all ! i) < mg_type (all ! j)"
      by (auto simp: less_Suc_eq order_le_less)
    then show ?thesis using Cons.IH[OF i(3), of i] i True by simp
  next
    case False
    then have "\<forall>j<Suc i. mg_type (all ! l) \<le> mg_type (all ! j)" using i(2) Cons.prems(4) by (auto simp: less_Suc_eq)
    moreover have "l < Suc i" using Cons.prems(3) by auto
    ultimately show ?thesis using Cons.IH[OF i(3), of l] Cons.prems(2,5) False by simp
  qed
qed

lemma least_msg_least:
  assumes "ms \<noteq> []"
  shows "least_msg ms 0 0 ms < length ms \<and> (\<forall>j<length ms. mg_type (ms ! least_msg ms 0 0 ms) \<le> mg_type (ms ! j)) \<and>
    (\<forall>j<least_msg ms 0 0 ms. mg_type (ms ! least_msg ms 0 0 ms) < mg_type (ms ! j))"
  by (rule least_msg_inv) (use assms in auto)

text \<open>What a receiver asks for, and in which order the messages are preferred.\<close>

definition wanted :: "int \<Rightarrow> u32 \<Rightarrow> msg \<Rightarrow> bool" where
  "wanted msgtyp msgflg m \<longleftrightarrow>
     (if msgtyp = 0 then True
      else if msgtyp > 0 then if flag_set msgflg MSG_EXCEPT then mg_type m \<noteq> msgtyp else mg_type m = msgtyp
      else mg_type m \<le> - msgtyp)"

definition preferred :: "int \<Rightarrow> msg list \<Rightarrow> nat \<Rightarrow> nat \<Rightarrow> bool" where
  "preferred msgtyp ms i j \<longleftrightarrow>
     (if msgtyp < 0 then mg_type (ms ! i) < mg_type (ms ! j) \<or> mg_type (ms ! i) = mg_type (ms ! j) \<and> i < j else i < j)"

lemma find_msg_spec:
  assumes "- 2147483648 < msgtyp" "msgtyp \<le> 2147483647"
  shows "case find_msg msgtyp msgflg ms of
      None \<Rightarrow> \<forall>m\<in>set ms. \<not> wanted msgtyp msgflg m
    | Some i \<Rightarrow> i < length ms \<and> wanted msgtyp msgflg (ms ! i) \<and>
        (\<forall>j<length ms. j \<noteq> i \<longrightarrow> wanted msgtyp msgflg (ms ! j) \<longrightarrow> preferred msgtyp ms i j)"
proof -
  consider "msgtyp = 0" | "msgtyp > 0" | "msgtyp < 0" by linarith
  then show ?thesis
  proof cases
    case 1
    then show ?thesis by (auto simp: find_msg_def wanted_def preferred_def)
  next
    case 2
    let ?P = "\<lambda>m. if flag_set msgflg MSG_EXCEPT then mg_type m \<noteq> msgtyp else mg_type m = msgtyp"
    have e: "find_msg msgtyp msgflg ms = first_msg ?P ms" using 2 by (auto simp: find_msg_def)
    have w: "wanted msgtyp msgflg m = ?P m" for m using 2 by (simp add: wanted_def)
    show ?thesis unfolding e w using 2
      by (auto simp: preferred_def first_msg_None first_msg_Some split: option.split) (metis linorder_neqE_nat)+
  next
    case 3
    have n: "wrap32 (- msgtyp) = - msgtyp" using assms by (intro wrap32_id) auto
    show ?thesis
    proof (cases "ms = []")
      case True
      then show ?thesis using 3 by (simp add: find_msg_def)
    next
      case False
      let ?l = "least_msg ms 0 0 ms"
      note L = least_msg_least[OF False]
      have e: "find_msg msgtyp msgflg ms = (if mg_type (ms ! ?l) \<le> - msgtyp then Some ?l else None)"
        using 3 False n by (simp add: find_msg_def Let_def)
      have w: "wanted msgtyp msgflg m \<longleftrightarrow> mg_type m \<le> - msgtyp" for m using 3 by (simp add: wanted_def)
      have p: "preferred msgtyp ms ?l j" if "j < length ms" "j \<noteq> ?l" for j
        using L that 3 unfolding preferred_def by (metis linorder_neqE_nat order_le_less)
      show ?thesis unfolding e w using L p by (auto simp: in_set_conv_nth) (meson order_trans)+
    qed
  qed
qed

section \<open>Accounting\<close>

definition msgs_bytes :: "msg list \<Rightarrow> int" where
  "msgs_bytes ms = sum_list (map (\<lambda>m. int (length (mg_text m))) ms)"

definition queue_ok :: "msqid_ds \<Rightarrow> bool" where
  "queue_ok q \<longleftrightarrow> uint (mq_cbytes q) = msgs_bytes (mq_msgs q) \<and> uint (mq_qnum q) = int (length (mq_msgs q))"

definition slot_ok :: "msqid_ds ipc_slot \<Rightarrow> bool" where
  "slot_ok x \<longleftrightarrow> (case x of Ipc q \<Rightarrow> queue_ok q | _ \<Rightarrow> True)"

definition slot_bytes :: "msqid_ds ipc_slot \<Rightarrow> int" where
  "slot_bytes x = (case x of Ipc q \<Rightarrow> msgs_bytes (mq_msgs q) | _ \<Rightarrow> 0)"

definition slot_hdrs :: "msqid_ds ipc_slot \<Rightarrow> int" where
  "slot_hdrs x = (case x of Ipc q \<Rightarrow> int (length (mq_msgs q)) | _ \<Rightarrow> 0)"

definition slot_live :: "msqid_ds ipc_slot \<Rightarrow> int" where
  "slot_live x = (case x of Ipc q \<Rightarrow> 1 | _ \<Rightarrow> 0)"

definition msg_ok :: "msg_state \<Rightarrow> bool" where
  "msg_ok s \<longleftrightarrow> length (ms_que s) = 128 \<and> (\<forall>x\<in>set (ms_que s). slot_ok x) \<and>
     ms_bytes s = sum_list (map slot_bytes (ms_que s))"

definition used_ok :: "msg_state \<Rightarrow> bool" where
  "used_ok s \<longleftrightarrow> ms_used s = sum_list (map slot_live (ms_que s))"

lemma msgs_bytes_simps [simp]:
  "msgs_bytes [] = 0" "msgs_bytes (m # ms) = int (length (mg_text m)) + msgs_bytes ms"
  "msgs_bytes (xs @ ys) = msgs_bytes xs + msgs_bytes ys"
  by (simp_all add: msgs_bytes_def)

lemma msgs_bytes_nonneg [simp]: "0 \<le> msgs_bytes ms"
  by (induction ms) simp_all

lemma sum_list_update_int:
  "i < length xs \<Longrightarrow> sum_list (map f (xs[i := x])) = sum_list (map f xs) + f x - (f (xs ! i) :: int)"
  by (induction xs arbitrary: i) (auto split: nat.split)

lemma slot_range:
  assumes "slot_ok x"
  shows "0 \<le> slot_bytes x \<and> slot_bytes x \<le> 65535"
proof (cases x)
  case (Ipc q)
  have "uint (mq_cbytes q) \<le> 65535" using uint_bounded[of "mq_cbytes q"] by simp
  then show ?thesis using assms Ipc by (simp add: slot_ok_def queue_ok_def slot_bytes_def)
qed (simp_all add: slot_bytes_def)

lemma sum_range:
  "\<forall>x\<in>set xs. 0 \<le> f x \<and> f x \<le> 65535 \<Longrightarrow> 0 \<le> sum_list (map f xs) \<and> sum_list (map f xs) \<le> 65535 * int (length xs)"
  by (induction xs) auto

text \<open>Changing one slot and the counters with it.\<close>

lemma msg_ok_update:
  assumes "msg_ok s" "i < 128" "slot_ok x" "ms_que s' = (ms_que s)[i := x]"
    and b: "b = ms_bytes s + slot_bytes x - slot_bytes (ms_que s ! i)" "ms_bytes s' = b \<or> ms_bytes s' = wrap32 b"
    and u: "ms_used s' = ms_used s + slot_live x - slot_live (ms_que s ! i)"
  shows "msg_ok s'" "used_ok s \<Longrightarrow> used_ok s'"
    "sum_list (map slot_hdrs (ms_que s')) = sum_list (map slot_hdrs (ms_que s)) + slot_hdrs x - slot_hdrs (ms_que s ! i)"
proof -
  have l: "length (ms_que s) = 128" using assms(1) by (simp add: msg_ok_def)
  have ok: "\<forall>y\<in>set (ms_que s'). slot_ok y"
    using assms(1,3) set_update_subset_insert[of "ms_que s" i x] unfolding assms(4) msg_ok_def by blast
  have sb: "b = sum_list (map slot_bytes (ms_que s'))"
    using assms(1,2) l b(1) unfolding assms(4) by (simp add: sum_list_update_int msg_ok_def)
  show "used_ok s'" if "used_ok s"
    using assms(2) l u that unfolding used_ok_def assms(4) by (simp add: sum_list_update_int)
  have "0 \<le> b \<and> b \<le> 65535 * 128"
    using sum_range[of "ms_que s'" slot_bytes] ok slot_range l unfolding sb assms(4) by auto
  then have "wrap32 b = b" by (auto intro!: wrap32_id)
  then show "msg_ok s'" using ok sb b(2) l assms(4) by (auto simp: msg_ok_def)
  show "sum_list (map slot_hdrs (ms_que s')) = sum_list (map slot_hdrs (ms_que s)) + slot_hdrs x - slot_hdrs (ms_que s ! i)"
    using assms(2) l unfolding assms(4) by (simp add: sum_list_update_int)
qed

lemma msq_slot_lt [simp]: "msq_slot msqid < 128"
  by (simp add: msq_slot_def kconst nat_less_iff)

lemma msq_ok:
  assumes "msg_ok s" "ms_que s ! i = Ipc q" "i < 128"
  shows "queue_ok q"
  using assms nth_mem[of i "ms_que s"] by (fastforce simp: msg_ok_def slot_ok_def)

lemma uint_len16: "int n < 65536 \<Longrightarrow> uint (word_of_int (int n) :: u16) = int n"
  unfolding uint_word_of_int by simp

text \<open>Whether a message fits without a wrap of the counters of the queue.\<close>

definition fits :: "u8 list \<Rightarrow> msqid_ds \<Rightarrow> bool" where
  "fits text q \<longleftrightarrow> length (mq_msgs q) < 65535 \<and> msgs_bytes (mq_msgs q) + int (length text) \<le> 65535"

text \<open>No queue has more messages or bytes than its 16-bit counters can tell.\<close>

definition small_queues :: "msg_state \<Rightarrow> bool" where
  "small_queues s \<longleftrightarrow> list_all (\<lambda>x. case x of Ipc q \<Rightarrow> length (mq_msgs q) \<le> 65535 \<and> msgs_bytes (mq_msgs q) \<le> 65535 | _ \<Rightarrow> True) (ms_que s)"

lemma link_queue_ok:
  assumes "queue_ok q" "fits text q"
  shows "queue_ok (link_msg ty text t now q)" "mq_msgs (link_msg ty text t now q) = mq_msgs q @ [\<lparr>mg_type = ty, mg_text = text\<rparr>]"
proof -
  have f: "int (length text) + uint (mq_cbytes q) \<le> 65535" "length (mq_msgs q) < 65535"
    using assms by (simp_all add: fits_def queue_ok_def)
  have l: "uint (word_of_int (int (length text)) :: u16) = int (length text)"
    by (rule uint_len16) (use f(1) uint_ge_0[of "mq_cbytes q"] in linarith)
  have "uint (mq_cbytes q + word_of_int (int (length text))) = uint (mq_cbytes q) + int (length text)"
    unfolding uint_word_ariths(1) l using f(1) by simp
  moreover have "uint (mq_qnum q + 1) = uint (mq_qnum q) + 1"
    unfolding uint_word_ariths(1) using assms(1) f(2) by (simp add: queue_ok_def)
  ultimately show "queue_ok (link_msg ty text t now q)" using assms(1) by (simp add: queue_ok_def link_msg_def)
  show "mq_msgs (link_msg ty text t now q) = mq_msgs q @ [\<lparr>mg_type = ty, mg_text = text\<rparr>]" by (simp add: link_msg_def)
qed

text \<open>The effect of each piece of a call on the counters. The headers are counted in 32 bits.\<close>

definition hdrs_by :: "int \<Rightarrow> msg_state \<Rightarrow> msg_state \<Rightarrow> bool" where
  "hdrs_by d s s' \<longleftrightarrow> ms_hdrs s' = wrap32 (ms_hdrs s + d) \<and>
     sum_list (map slot_hdrs (ms_que s')) = sum_list (map slot_hdrs (ms_que s)) + d"

definition same_noid :: "msg_state \<Rightarrow> msg_state \<Rightarrow> bool" where
  "same_noid s s' \<longleftrightarrow> (\<forall>i<128. ms_que s' ! i = IPC_NOID \<longleftrightarrow> ms_que s ! i = IPC_NOID)"

lemma same_noid_upd:
  "length (ms_que s) = 128 \<Longrightarrow> i < 128 \<Longrightarrow> ms_que s' = (ms_que s)[i := x] \<Longrightarrow> x \<noteq> IPC_NOID \<Longrightarrow> ms_que s ! i \<noteq> IPC_NOID \<Longrightarrow> same_noid s s'"
  by (auto simp: same_noid_def nth_list_update)

lemma msg_link_ok:
  assumes ok: "msg_ok s" and e: "msgsnd_link msqid addr stale mtype text t now s = Some (r, s', w)"
    and f: "small_queues s'"
  shows "msg_ok s' \<and> (used_ok s \<longrightarrow> used_ok s') \<and> same_noid s s' \<and> (s' = s \<or> hdrs_by 1 s s')"
proof (cases "s' = s")
  case False
  then obtain q where q: "msq_at msqid s = Ipc q"
    "s' = (put_msq msqid (Ipc (link_msg mtype text t now q)) s)\<lparr>ms_bytes := wrap32 (ms_bytes s + int (length text)), ms_hdrs := wrap32 (ms_hdrs s + 1)\<rparr>"
    using e by (auto simp: msgsnd_link_def Let_def split: ipc_slot.splits if_splits)
  have i: "ms_que s ! msq_slot msqid = Ipc q" using q(1) by (simp add: msq_at_def)
  have u: "ms_que s' = (ms_que s)[msq_slot msqid := Ipc (link_msg mtype text t now q)]" by (simp add: q(2) put_msq_def)
  have "Ipc (link_msg mtype text t now q) \<in> set (ms_que s')"
    unfolding u by (rule set_update_memI) (use ok in \<open>simp add: msg_ok_def\<close>)
  then have "fits text q" using f by (auto simp: small_queues_def list_all_iff fits_def link_msg_def)
  note L = link_queue_ok[OF msq_ok[OF ok i msq_slot_lt] this, of mtype t now]
  note U = msg_ok_update[OF ok msq_slot_lt _ u refl]
  have "msg_ok s'" "used_ok s \<longrightarrow> used_ok s'" "hdrs_by 1 s s'"
    using U L i by (simp_all add: slot_ok_def slot_bytes_def slot_live_def slot_hdrs_def hdrs_by_def q(2) put_msq_def)
  moreover have "same_noid s s'" by (rule same_noid_upd[OF _ msq_slot_lt u]) (use ok i in \<open>simp_all add: msg_ok_def\<close>)
  ultimately show ?thesis by simp
qed (use ok in \<open>simp add: same_noid_def\<close>)

lemma msgs_bytes_split:
  "i < length ms \<Longrightarrow> msgs_bytes ms = msgs_bytes (take i ms @ drop (Suc i) ms) + int (length (mg_text (ms ! i)))"
  using arg_cong[OF id_take_nth_drop[of i ms], of msgs_bytes] by simp

lemma take_msg_ok:
  assumes "queue_ok q" "i < length (mq_msgs q)"
  shows "queue_ok (take_msg i t now q)" "mq_msgs (take_msg i t now q) = take i (mq_msgs q) @ drop (Suc i) (mq_msgs q)"
proof -
  let ?r = "take i (mq_msgs q) @ drop (Suc i) (mq_msgs q)" and ?n = "int (length (mg_text (mq_msgs q ! i)))"
  note b = msgs_bytes_split[OF assms(2)]
  have q: "uint (mq_cbytes q) = msgs_bytes ?r + ?n" "uint (mq_qnum q) = int (length (mq_msgs q))"
    using assms(1) b by (simp_all add: queue_ok_def)
  have "uint (mq_cbytes q) < 65536" using uint_bounded[of "mq_cbytes q"] by simp
  then have l: "?n < 65536" using q(1) msgs_bytes_nonneg[of ?r] by linarith
  have n: "uint (word_of_int ?n :: u16) = ?n" by (rule uint_len16[OF l])
  have c: "uint (mq_cbytes q - word_of_int ?n) = msgs_bytes ?r"
    using q(1) by (subst uint_sub_lem[THEN iffD1]) (simp_all only: word_le_def n, simp_all)
  have u: "uint (mq_qnum q - 1) = int (length ?r)"
    using q(2) assms(2) by (subst uint_sub_lem[THEN iffD1]) (auto simp: word_le_def)
  have z: "mq_qnum q - 1 = 0 \<longleftrightarrow> ?r = []"
  proof -
    have "mq_qnum q - 1 = 0 \<longleftrightarrow> uint (mq_qnum q - 1) = 0" by (simp only: word_uint_eq_iff) simp
    then show ?thesis unfolding u by (simp only: of_nat_eq_0_iff length_0_conv)
  qed
  show m: "mq_msgs (take_msg i t now q) = ?r" using z by (auto simp: take_msg_def Let_def)
  show "queue_ok (take_msg i t now q)" unfolding queue_ok_def m using c u by (simp add: take_msg_def Let_def)
qed

lemma find_msg_bound:
  assumes "find_msg ty fl ms = Some i"
  shows "i < length ms"
  using assms least_msg_least[of ms]
  by (auto simp: find_msg_def first_msg_Some Let_def split: if_splits)

lemma msg_rcv_ok:
  assumes "msg_ok s" "msgrcv_round msqid addr msgsz msgtyp msgflg t now s = (r, s')"
  shows "msg_ok s' \<and> (used_ok s \<longrightarrow> used_ok s') \<and> same_noid s s' \<and> (s' = s \<or> hdrs_by (- 1) s s')"
proof (cases "s' = s")
  case False
  then obtain q i where q: "msq_at msqid s = Ipc q" "find_msg msgtyp msgflg (mq_msgs q) = Some i"
    "s' = (put_msq msqid (Ipc (take_msg i t now q)) s)
       \<lparr>ms_bytes := wrap32 (ms_bytes s - int (length (mg_text (mq_msgs q ! i)))), ms_hdrs := wrap32 (ms_hdrs s - 1)\<rparr>"
    using assms(2) by (auto simp: msgrcv_round_def Let_def split: ipc_slot.splits if_splits option.splits)
  have i: "ms_que s ! msq_slot msqid = Ipc q" using q(1) by (simp add: msq_at_def)
  note lt = find_msg_bound[OF q(2)] and b = msgs_bytes_split[OF find_msg_bound[OF q(2)]]
  note k = take_msg_ok[OF msq_ok[OF assms(1) i msq_slot_lt] lt, of t now]
  have len: "int (length (take i (mq_msgs q) @ drop (Suc i) (mq_msgs q))) = int (length (mq_msgs q)) - 1" using lt by simp
  have u: "ms_que s' = (ms_que s)[msq_slot msqid := Ipc (take_msg i t now q)]" by (simp add: q(3) put_msq_def)
  note U = msg_ok_update[OF assms(1) msq_slot_lt _ u refl]
  have "msg_ok s'" "used_ok s \<longrightarrow> used_ok s'" "hdrs_by (- 1) s s'"
    using U k i b len by (simp_all add: slot_ok_def slot_bytes_def slot_live_def slot_hdrs_def hdrs_by_def q(3) put_msq_def del: length_append)
  moreover have "same_noid s s'" by (rule same_noid_upd[OF _ msq_slot_lt u]) (use assms(1) i in \<open>simp_all add: msg_ok_def\<close>)
  ultimately show ?thesis by simp
qed (use assms in \<open>simp add: same_noid_def\<close>)

lemma unused_slot_Some: "unused_slot qs = Some i \<Longrightarrow> i < length qs \<and> qs ! i = IPC_UNUSED"
  by (induction qs arbitrary: i) (auto split: ipc_slot.splits)

lemma msg_reserve_ok:
  assumes "msg_ok s" "newque_reserve s = (Inr qid, s')"
  shows "qid < 128" "ms_que s ! qid = IPC_UNUSED" "ms_que s' = (ms_que s)[qid := IPC_NOID]" "msg_ok s'" "used_ok s \<longrightarrow> used_ok s'" "ms_hdrs s' = ms_hdrs s"
    "sum_list (map slot_hdrs (ms_que s')) = sum_list (map slot_hdrs (ms_que s))"
proof -
  have u: "unused_slot (ms_que s) = Some qid" and s': "s' = s\<lparr>ms_que := (ms_que s)[qid := IPC_NOID]\<rparr>"
    using assms(2) by (auto simp: newque_reserve_def split: option.splits)
  show i: "qid < 128" "ms_que s ! qid = IPC_UNUSED" using unused_slot_Some[OF u] assms(1) by (simp_all add: msg_ok_def)
  show q: "ms_que s' = (ms_que s)[qid := IPC_NOID]" by (simp add: s')
  note U = msg_ok_update[OF assms(1) i(1) _ q refl]
  show "msg_ok s'" "used_ok s \<longrightarrow> used_ok s'" "ms_hdrs s' = ms_hdrs s" "sum_list (map slot_hdrs (ms_que s')) = sum_list (map slot_hdrs (ms_que s))"
    using U i by (simp_all add: slot_ok_def slot_bytes_def slot_live_def slot_hdrs_def s')
qed

lemma msg_fill_ok:
  assumes "msg_ok s" "qid < 128" "ms_que s ! qid = IPC_NOID" "newque_fill mem qid key msgflg t now s = (r, s')"
  shows "msg_ok s'" "used_ok s \<longrightarrow> used_ok s'" "\<exists>x. ms_que s' = (ms_que s)[qid := x] \<and> x \<noteq> IPC_NOID" "ms_hdrs s' = ms_hdrs s"
    "sum_list (map slot_hdrs (ms_que s')) = sum_list (map slot_hdrs (ms_que s))"
proof -
  obtain x where x: "ms_que s' = (ms_que s)[qid := x]" "x \<noteq> IPC_NOID" "slot_ok x" "slot_bytes x = 0" "slot_hdrs x = 0"
    "ms_used s' = ms_used s + slot_live x" "ms_bytes s' = ms_bytes s" "ms_hdrs s' = ms_hdrs s"
    using assms(4) by (cases mem) (auto simp: newque_fill_def Let_def slot_ok_def slot_bytes_def slot_hdrs_def slot_live_def queue_ok_def)
  note U = msg_ok_update[OF assms(1,2) x(3,1) refl]
  show "msg_ok s'" "used_ok s \<longrightarrow> used_ok s'" "sum_list (map slot_hdrs (ms_que s')) = sum_list (map slot_hdrs (ms_que s))"
    using U x assms(3) by (simp_all add: slot_bytes_def slot_live_def slot_hdrs_def)
  show "\<exists>x. ms_que s' = (ms_que s)[qid := x] \<and> x \<noteq> IPC_NOID" "ms_hdrs s' = ms_hdrs s" using x by auto
qed

definition removed_hdrs :: "msqid_ds option \<Rightarrow> int" where
  "removed_hdrs rm = (case rm of None \<Rightarrow> 0 | Some q \<Rightarrow> int (length (mq_msgs q)))"

lemma msg_ctl_ok:
  assumes "msg_ok s" "msgctl_body va msqid cmd buf tperm tqbytes t now s = (r, s', rm)"
  shows "msg_ok s'" "used_ok s \<longrightarrow> used_ok s'" "same_noid s s'" "ms_hdrs s' = ms_hdrs s"
    "sum_list (map slot_hdrs (ms_que s')) + removed_hdrs rm = sum_list (map slot_hdrs (ms_que s))"
proof -
  let ?q1 = "\<lambda>q. q\<lparr>mq_qbytes := tqbytes, mq_perm := perm_set tperm (mq_perm q), mq_ctime := now\<rparr>"
  consider (same) "s' = s" "rm = None"
    | (rmid) q where "msq_at msqid s = Ipc q" "s' = freeque_start (msq_slot msqid) q s" "rm = Some q"
    | (set) q where "msq_at msqid s = Ipc q" "s' = put_msq msqid (Ipc (?q1 q)) s" "rm = None"
  proof (cases "msqid < 0 \<or> cmd < 0 \<or> msgctl_first va msqid cmd buf t s \<noteq> None \<or> (\<forall>q. msq_at msqid s \<noteq> Ipc q)")
    case True
    then have "s' = s \<and> rm = None" using assms(2)
      by (cases "msqid < 0 \<or> cmd < 0"; cases "msgctl_first va msqid cmd buf t s"; cases "msq_at msqid s"; simp add: msgctl_body_def)
    then show ?thesis using same by blast
  next
    case False
    then obtain q where q: "msq_at msqid s = Ipc q" by blast
    then show ?thesis using False assms(2) same rmid[OF q] set[OF q] by (auto simp: msgctl_body_def split: if_splits)
  qed
  then have "msg_ok s' \<and> (used_ok s \<longrightarrow> used_ok s') \<and> same_noid s s' \<and> ms_hdrs s' = ms_hdrs s \<and>
      sum_list (map slot_hdrs (ms_que s')) + removed_hdrs rm = sum_list (map slot_hdrs (ms_que s))"
  proof cases
    case same
    then show ?thesis using assms(1) by (simp add: removed_hdrs_def same_noid_def)
  next
    case rmid
    have i: "ms_que s ! msq_slot msqid = Ipc q" using rmid(1) by (simp add: msq_at_def)
    have k: "queue_ok q" by (rule msq_ok[OF assms(1) i]) simp
    have u: "ms_que s' = (ms_que s)[msq_slot msqid := IPC_UNUSED]" by (simp add: rmid(2) freeque_start_def)
    note U = msg_ok_update[OF assms(1) msq_slot_lt _ u refl]
    have "same_noid s s'" by (rule same_noid_upd[OF _ msq_slot_lt u]) (use assms(1) i in \<open>simp_all add: msg_ok_def\<close>)
    then show ?thesis using U k i
      by (simp add: slot_ok_def slot_bytes_def slot_live_def slot_hdrs_def rmid(2,3) freeque_start_def queue_ok_def removed_hdrs_def)
  next
    case set
    have i: "ms_que s ! msq_slot msqid = Ipc q" using set(1) by (simp add: msq_at_def)
    have k: "queue_ok q" by (rule msq_ok[OF assms(1) i]) simp
    have u: "ms_que s' = (ms_que s)[msq_slot msqid := Ipc (?q1 q)]" by (simp add: set(2) put_msq_def)
    note U = msg_ok_update[OF assms(1) msq_slot_lt _ u refl]
    have "same_noid s s'" by (rule same_noid_upd[OF _ msq_slot_lt u]) (use assms(1) i in \<open>simp_all add: msg_ok_def\<close>)
    then show ?thesis using U k i
      by (simp add: slot_ok_def slot_bytes_def slot_live_def slot_hdrs_def set(2,3) put_msq_def queue_ok_def removed_hdrs_def)
  qed
  then show "msg_ok s'" "used_ok s \<longrightarrow> used_ok s'" "same_noid s s'" "ms_hdrs s' = ms_hdrs s"
    "sum_list (map slot_hdrs (ms_que s')) + removed_hdrs rm = sum_list (map slot_hdrs (ms_que s))" by blast+
qed

section \<open>Interleaved calls\<close>

text \<open>
  The calls in progress: a sender that allocates the header, a caller of \<^verbatim>\<open>newque\<close> that allocates the queue,
  a remover that waits for the sleepers of its queue to leave. All other tasks run meanwhile. Calls that
  sleep at a label have changed nothing and go on from there with the address they hold.
\<close>

datatype msg_call = Snd_alloc int nat int "u8 list" task_struct | Get_alloc nat int u32 task_struct | Rm_wait msqid_ds

text \<open>A sender that would write to a freed queue has no step: what follows is not defined.\<close>

inductive msg_step :: "msg_state \<times> msg_call list \<Rightarrow> msg_state \<times> msg_call list \<Rightarrow> bool" where
  snd_start: "msgsnd_slept msqid addr (int (length text)) msgflg t s = Msg_go \<Longrightarrow>
    msg_step (s, P) (s, Snd_alloc msqid addr mtype text t # P)"
| snd_nomem: "c = Snd_alloc msqid addr mtype text t \<Longrightarrow> c \<in> set P \<Longrightarrow> msg_step (s, P) (s, remove1 c P)"
| snd_end: "c = Snd_alloc msqid addr mtype text t \<Longrightarrow> c \<in> set P \<Longrightarrow>
    msgsnd_link msqid addr stale mtype text t now s = Some (r, s', w) \<Longrightarrow>
    msg_step (s, P) (s', remove1 c P)"
| rcv: "msgrcv_round msqid addr msgsz msgtyp msgflg t now s = (out, s') \<Longrightarrow> msg_step (s, P) (s', P)"
| get_start: "newque_reserve s = (Inr qid, s') \<Longrightarrow> msg_step (s, P) (s', Get_alloc qid key msgflg t # P)"
| get_end: "c = Get_alloc qid key msgflg t \<Longrightarrow> c \<in> set P \<Longrightarrow> newque_fill mem qid key msgflg t now s = (r, s') \<Longrightarrow>
    msg_step (s, P) (s', remove1 c P)"
| ctl: "msgctl_body va msqid cmd buf tperm tqbytes t now s = (o', s', rm) \<Longrightarrow>
    msg_step (s, P) (s', case rm of None \<Rightarrow> P | Some q \<Rightarrow> Rm_wait q # P)"
| rm_end: "c = Rm_wait q \<Longrightarrow> c \<in> set P \<Longrightarrow> msg_step (s, P) (freeque_end q s, remove1 c P)"

definition call_hdrs :: "msg_call \<Rightarrow> int" where
  "call_hdrs c = (case c of Rm_wait q \<Rightarrow> int (length (mq_msgs q)) | _ \<Rightarrow> 0)"

definition is_get :: "nat \<Rightarrow> msg_call \<Rightarrow> bool" where
  "is_get i c \<longleftrightarrow> (case c of Get_alloc qid _ _ _ \<Rightarrow> qid = i | _ \<Rightarrow> False)"

definition msgs_inv :: "msg_state \<times> msg_call list \<Rightarrow> bool" where
  "msgs_inv x \<longleftrightarrow> (case x of (s, P) \<Rightarrow> msg_ok s \<and> used_ok s \<and>
     ms_hdrs s = wrap32 (sum_list (map slot_hdrs (ms_que s)) + sum_list (map call_hdrs P)) \<and>
     (\<forall>i. cnt (is_get i) P = (if i < 128 \<and> ms_que s ! i = IPC_NOID then 1 else 0)))"

lemma wrap32_cong: "wrap32 (wrap32 a + b) = wrap32 (a + b)" "wrap32 (b + wrap32 a) = wrap32 (b + a)" "wrap32 (wrap32 a - b) = wrap32 (a - b)"
  by (simp_all add: wrap32_def)

lemma msgs_invI:
  assumes "msg_ok s'" "used_ok s'" "ms_hdrs s' = wrap32 (sum_list (map slot_hdrs (ms_que s')) + sum_list (map call_hdrs P'))"
    "\<And>i. cnt (is_get i) P' = (if i < 128 \<and> ms_que s' ! i = IPC_NOID then 1 else 0)"
  shows "msgs_inv (s', P')"
  using assms by (simp add: msgs_inv_def)

lemma cnt_get_remove:
  assumes "c \<in> set P" "\<And>i. \<not> is_get i c"
  shows "cnt (is_get i) (remove1 c P) = cnt (is_get i) P"
  using cnt_remove1[OF assms(1), of "is_get i"] assms(2) by simp

lemma hdrs_step:
  assumes "ms_hdrs s = wrap32 (sum_list (map slot_hdrs (ms_que s)) + k)" "s' = s \<or> hdrs_by d s s'"
  shows "ms_hdrs s' = wrap32 (sum_list (map slot_hdrs (ms_que s')) + k)"
  using assms(2)
proof
  assume "hdrs_by d s s'"
  then show ?thesis using assms(1) by (simp add: hdrs_by_def wrap32_cong algebra_simps)
qed (use assms(1) in simp)

lemma msg_step_inv: "msg_step x y \<Longrightarrow> small_queues (fst y) \<Longrightarrow> msgs_inv x \<Longrightarrow> msgs_inv y"
proof (induction rule: msg_step.induct)
  case (snd_start msqid addr "text" msgflg t s P mtype)
  then show ?case by (simp add: msgs_inv_def is_get_def call_hdrs_def)
next
  case (snd_nomem c msqid addr mtype "text" t P s)
  then show ?case using sum_list_map_remove1[OF snd_nomem.hyps(2), of call_hdrs]
    by (simp add: msgs_inv_def cnt_get_remove is_get_def call_hdrs_def)
next
  case (snd_end c msqid addr mtype "text" t P stale now s r s' w)
  have I: "msg_ok s" "ms_hdrs s = wrap32 (sum_list (map slot_hdrs (ms_que s)) + sum_list (map call_hdrs P))"
    "\<And>i. cnt (is_get i) P = (if i < 128 \<and> ms_que s ! i = IPC_NOID then 1 else 0)" "used_ok s" using snd_end.prems by (simp_all add: msgs_inv_def)
  note L = msg_link_ok[OF I(1) snd_end.hyps(3)]
  have h: "sum_list (map call_hdrs (remove1 c P)) = sum_list (map call_hdrs P)"
    using sum_list_map_remove1[OF snd_end.hyps(2), of call_hdrs] snd_end.hyps(1) by (simp add: call_hdrs_def)
  have g: "cnt (is_get i) (remove1 c P) = cnt (is_get i) P" for i
    by (rule cnt_get_remove[OF snd_end.hyps(2)]) (simp add: snd_end.hyps(1) is_get_def)
  show ?case
    by (rule msgs_invI) (use L I(3,4) snd_end.prems(1) hdrs_step[OF I(2), of s'] in \<open>auto simp: h g same_noid_def\<close>)
next
  case (rcv msqid addr msgsz msgtyp msgflg t now s out s' P)
  have I: "msg_ok s" "ms_hdrs s = wrap32 (sum_list (map slot_hdrs (ms_que s)) + sum_list (map call_hdrs P))"
    "\<And>i. cnt (is_get i) P = (if i < 128 \<and> ms_que s ! i = IPC_NOID then 1 else 0)" "used_ok s" using rcv.prems by (simp_all add: msgs_inv_def)
  note L = msg_rcv_ok[OF I(1) rcv.hyps]
  show ?case by (rule msgs_invI) (use L I(3,4) hdrs_step[OF I(2), of s'] in \<open>auto simp: same_noid_def\<close>)
next
  case (get_start s qid s' P key msgflg t)
  have I: "msg_ok s" "ms_hdrs s = wrap32 (sum_list (map slot_hdrs (ms_que s)) + sum_list (map call_hdrs P))"
    "\<And>i. cnt (is_get i) P = (if i < 128 \<and> ms_que s ! i = IPC_NOID then 1 else 0)" "used_ok s" using get_start.prems by (simp_all add: msgs_inv_def)
  note R = msg_reserve_ok[OF I(1) get_start.hyps]
  show ?case
  proof (rule msgs_invI)
    show "cnt (is_get i) (Get_alloc qid key msgflg t # P) = (if i < 128 \<and> ms_que s' ! i = IPC_NOID then 1 else 0)" for i
      using I(1) I(3)[of i] R(1-3) by (auto simp: is_get_def msg_ok_def nth_list_update)
  qed (use R I(2,4) in \<open>simp_all add: call_hdrs_def\<close>)
next
  case (get_end c qid key msgflg t P mem now s r s')
  have I: "msg_ok s" "ms_hdrs s = wrap32 (sum_list (map slot_hdrs (ms_que s)) + sum_list (map call_hdrs P))"
    "\<And>i. cnt (is_get i) P = (if i < 128 \<and> ms_que s ! i = IPC_NOID then 1 else 0)" "used_ok s" using get_end.prems by (simp_all add: msgs_inv_def)
  have rm: "cnt (is_get i) P = cnt (is_get i) (remove1 c P) + (if i = qid then 1 else 0)" for i
    using cnt_remove1[OF get_end.hyps(2), of "is_get i"] by (auto simp: get_end.hyps(1) is_get_def)
  have q: "qid < 128" "ms_que s ! qid = IPC_NOID" using rm[of qid] I(3)[of qid] by (auto split: if_splits)
  note F = msg_fill_ok[OF I(1) q get_end.hyps(3)]
  obtain x where x: "ms_que s' = (ms_que s)[qid := x]" "x \<noteq> IPC_NOID" using F(3) by blast
  have h: "sum_list (map call_hdrs (remove1 c P)) = sum_list (map call_hdrs P)"
    using sum_list_map_remove1[OF get_end.hyps(2), of call_hdrs] get_end.hyps(1) by (simp add: call_hdrs_def)
  show ?case
  proof (rule msgs_invI)
    show "cnt (is_get i) (remove1 c P) = (if i < 128 \<and> ms_que s' ! i = IPC_NOID then 1 else 0)" for i
      using I(1) I(3)[of i] rm[of i] q x by (auto simp: msg_ok_def nth_list_update split: if_splits)
  qed (use F I(2,4) h in simp_all)
next
  case (ctl va msqid cmd buf tperm tqbytes t now s o' s' rm P)
  have I: "msg_ok s" "ms_hdrs s = wrap32 (sum_list (map slot_hdrs (ms_que s)) + sum_list (map call_hdrs P))"
    "\<And>i. cnt (is_get i) P = (if i < 128 \<and> ms_que s ! i = IPC_NOID then 1 else 0)" "used_ok s" using ctl.prems by (simp_all add: msgs_inv_def)
  note C = msg_ctl_ok[OF I(1) ctl.hyps]
  show ?case
  proof (rule msgs_invI[OF C(1)])
    show "used_ok s'" using C(2) I(4) by simp
    show "ms_hdrs s' = wrap32 (sum_list (map slot_hdrs (ms_que s')) + sum_list (map call_hdrs (case rm of None \<Rightarrow> P | Some q \<Rightarrow> Rm_wait q # P)))"
      using C(4,5) I(2) by (cases rm) (simp_all add: removed_hdrs_def call_hdrs_def algebra_simps flip: C(5))
    show "cnt (is_get i) (case rm of None \<Rightarrow> P | Some q \<Rightarrow> Rm_wait q # P) = (if i < 128 \<and> ms_que s' ! i = IPC_NOID then 1 else 0)" for i
      using I(3)[of i] C(3) by (cases rm) (auto simp: is_get_def same_noid_def)
  qed
next
  case (rm_end c q P s)
  have I: "msg_ok s" "ms_hdrs s = wrap32 (sum_list (map slot_hdrs (ms_que s)) + sum_list (map call_hdrs P))"
    "\<And>i. cnt (is_get i) P = (if i < 128 \<and> ms_que s ! i = IPC_NOID then 1 else 0)" "used_ok s" using rm_end.prems by (simp_all add: msgs_inv_def)
  have h: "sum_list (map call_hdrs P) = int (length (mq_msgs q)) + sum_list (map call_hdrs (remove1 c P))"
    using sum_list_map_remove1[OF rm_end.hyps(2), of call_hdrs] rm_end.hyps(1) by (simp add: call_hdrs_def)
  have g: "cnt (is_get i) (remove1 c P) = cnt (is_get i) P" for i
    by (rule cnt_get_remove[OF rm_end.hyps(2)]) (simp add: rm_end.hyps(1) is_get_def)
  have "msg_ok (freeque_end q s)" using I(1) by (simp add: msg_ok_def freeque_end_def)
  then show ?case
    by (rule msgs_invI) (use I(2-4) in \<open>simp_all add: freeque_end_def used_ok_def h g wrap32_cong algebra_simps\<close>)
qed

definition msg_boot :: "msg_state \<times> msg_call list \<Rightarrow> bool" where
  "msg_boot x \<longleftrightarrow> x = (msg_init, [])"

lemma msg_init_ok: "msg_ok msg_init"
  by (simp add: msg_init_def msg_ok_def slot_ok_def slot_bytes_def kconst sum_list_replicate set_replicate_conv_if)

interpretation msgs: invariant_system msg_boot "\<lambda>x y. msg_step x y \<and> small_queues (fst y)" msgs_inv
proof unfold_locales
  fix x assume "msg_boot x"
  moreover have "wrap32 0 = 0" by (rule wrap32_id) simp_all
  ultimately show "msgs_inv x" using msg_init_ok
    by (simp add: msg_boot_def msgs_inv_def used_ok_def cnt_def msg_init_def slot_hdrs_def slot_live_def kconst sum_list_replicate)
qed (use msg_step_inv in blast)

lemma unused_slot_0: "unused_slot (replicate (Suc n) IPC_UNUSED) = Some 0"
  by simp

lemma msgget_private_init:
  "sys_msgget (Some addr) (\<lambda>s. s) IPC_PRIVATE msgflg t now msg_init =
     (Some (Inr 0), snd (newque_fill (Some addr) 0 IPC_PRIVATE msgflg t now (snd (newque_reserve msg_init))))"
  "newque_reserve msg_init = (Inr 0, snd (newque_reserve msg_init))"
proof -
  have u: "unused_slot (ms_que msg_init) = Some 0" using unused_slot_0[of 127] by (simp add: msg_init_def kconst del: replicate.simps)
  then show "newque_reserve msg_init = (Inr 0, snd (newque_reserve msg_init))" by (simp add: newque_reserve_def)
  show "sys_msgget (Some addr) (\<lambda>s. s) IPC_PRIVATE msgflg t now msg_init =
     (Some (Inr 0), snd (newque_fill (Some addr) 0 IPC_PRIVATE msgflg t now (snd (newque_reserve msg_init))))"
    using u by (simp add: sys_msgget_def newque_def newque_reserve_def newque_fill_def Let_def msg_init_def)
qed

text \<open>
  C16. Calls that send, receive, create and remove queues run in any order, and other calls run while a sender
  allocates its header, a creator its queue, and a remover waits for the sleepers to leave. As long as no
  queue comes to hold more than 65535 messages or 65535 bytes, and no sender writes to a queue
  that was freed while it allocated, the counters agree with the queues at every moment: for each queue
  \<^verbatim>\<open>msg_cbytes\<close> is the number of bytes and \<^verbatim>\<open>msg_qnum\<close> the number of messages it holds,
  \<^verbatim>\<open>msgbytes\<close> is the total of the bytes and \<^verbatim>\<open>used_queues\<close> the number of queues. \<^verbatim>\<open>msghdrs\<close> is, in
  32 bits, the number of messages of these queues and of those removed but not yet freed. A slot is marked
  as reserved exactly while one caller sets up a queue in it.
\<close>

theorem msg_accounting:
  assumes "reach msg_boot (\<lambda>x y. msg_step x y \<and> small_queues (fst y)) (s, P)"
  shows "length (ms_que s) = 128 \<and>
    (\<forall>i<128. \<forall>q. ms_que s ! i = Ipc q \<longrightarrow>
      uint (mq_cbytes q) = msgs_bytes (mq_msgs q) \<and> uint (mq_qnum q) = int (length (mq_msgs q))) \<and>
    ms_bytes s = (\<Sum>x\<leftarrow>ms_que s. slot_bytes x) \<and> ms_used s = (\<Sum>x\<leftarrow>ms_que s. slot_live x) \<and>
    ms_hdrs s = wrap32 ((\<Sum>x\<leftarrow>ms_que s. slot_hdrs x) + (\<Sum>c\<leftarrow>P. call_hdrs c)) \<and>
    (\<forall>i. cnt (is_get i) P = (if i < 128 \<and> ms_que s ! i = IPC_NOID then 1 else 0))"
  using msgs.reach_inv[OF assms] msq_ok[of s] by (simp add: msgs_inv_def msg_ok_def used_ok_def queue_ok_def)

definition example_msgs :: msg_state where
  "example_msgs = snd (sys_msgget (Some 4096) (\<lambda>s. s) IPC_PRIVATE 0 INIT_TASK 5 msg_init)"

lemma example_msgs_at:
  "msq_at 0 example_msgs = Ipc \<lparr>mq_addr = 4096, mq_perm = \<lparr>ip_key = 0, ip_uid = t_euid INIT_TASK, ip_gid = t_egid INIT_TASK,
     ip_cuid = t_euid INIT_TASK, ip_cgid = t_egid INIT_TASK, ip_mode = 0, ip_seq = 0\<rparr>, mq_msgs = [], mq_stime = 0,
     mq_rtime = 0, mq_ctime = 5, mq_cbytes = 0, mq_qnum = 0, mq_qbytes = word_of_int MSGMNB, mq_lspid = 0, mq_lrpid = 0\<rparr>"
  "length (ms_que example_msgs) = 128" "\<forall>x\<in>set (tl (ms_que example_msgs)). x = IPC_UNUSED"
proof -
  have u: "unused_slot (ms_que msg_init) = Some 0" using unused_slot_0[of 127] by (simp add: msg_init_def kconst del: replicate.simps)
  show "msq_at 0 example_msgs = Ipc \<lparr>mq_addr = 4096, mq_perm = \<lparr>ip_key = 0, ip_uid = t_euid INIT_TASK, ip_gid = t_egid INIT_TASK,
     ip_cuid = t_euid INIT_TASK, ip_cgid = t_egid INIT_TASK, ip_mode = 0, ip_seq = 0\<rparr>, mq_msgs = [], mq_stime = 0,
     mq_rtime = 0, mq_ctime = 5, mq_cbytes = 0, mq_qnum = 0, mq_qbytes = word_of_int MSGMNB, mq_lspid = 0, mq_lrpid = 0\<rparr>"
    "length (ms_que example_msgs) = 128" "\<forall>x\<in>set (tl (ms_que example_msgs)). x = IPC_UNUSED"
    unfolding example_msgs_def msgget_private_init(1) newque_reserve_def u using replicate_Suc[of 127 "IPC_UNUSED :: msqid_ds ipc_slot"]
    by (simp_all add: newque_fill_def Let_def msq_at_def msq_slot_def msg_init_def kconst)
qed

text \<open>What a successful send does.\<close>

lemma msgsnd_done:
  assumes "sys_msgsnd va mem (\<lambda>s. s) stale msqid msgp mtype text msgflg t now s = Some (Some (Inr n), s1)" "msq_at msqid s = Ipc q"
  shows "1 \<le> mtype" "seq_ok (mq_perm q) msqid" "n = int (length text)"
    "int (length text) + uint (mq_cbytes q) \<le> uint (mq_qbytes q)"
    "ms_que s1 = (ms_que s)[msq_slot msqid := Ipc (link_msg mtype text t now q)]"
    "msgsnd_slept msqid (mq_addr q) (int (length text)) msgflg t s = Msg_go"
    "msgsnd_link msqid (mq_addr q) stale mtype text t now s = Some (Inr n, s1, True)"
proof -
  have e: "msgsnd_enter va msqid msgp (int (length text)) mtype s = None"
    using assms(1) by (simp add: sys_msgsnd_def split: option.splits)
  have h: "held_msq msqid s = mq_addr q" using assms(2) by (simp add: held_msq_def)
  show g: "msgsnd_slept msqid (mq_addr q) (int (length text)) msgflg t s = Msg_go"
    using assms(1) e by (simp add: sys_msgsnd_def h Let_def split: msg_wait.splits if_splits)
  then have "mem" using assms(1) e by (simp add: sys_msgsnd_def h Let_def split: if_splits)
  then have "map_option (\<lambda>(r, s1, _). (Some r, s1)) (msgsnd_link msqid (mq_addr q) stale mtype text t now s) = Some (Some (Inr n), s1)"
    using assms(1) e g by (simp add: sys_msgsnd_def h Let_def)
  then show l: "msgsnd_link msqid (mq_addr q) stale mtype text t now s = Some (Inr n, s1, True)"
    using assms(2) by (auto simp: msgsnd_link_def Let_def split: if_splits)
  show "1 \<le> mtype" using e by (simp add: msgsnd_enter_def split: if_splits option.splits)
  show "seq_ok (mq_perm q) msqid" "int (length text) + uint (mq_cbytes q) \<le> uint (mq_qbytes q)"
    using g assms(2) by (simp_all add: msgsnd_slept_def split: if_splits)
  show "n = int (length text)" "ms_que s1 = (ms_que s)[msq_slot msqid := Ipc (link_msg mtype text t now q)]"
    using l assms(2) by (auto simp: msgsnd_link_def Let_def put_msq_def split: if_splits)
qed

definition example_sent :: msg_state where
  "example_sent = (case sys_msgsnd (\<lambda>_ _ _. None) True (\<lambda>s. s) 0 0 1000 3 [7, 8] 0 INIT_TASK 6 example_msgs of
     Some (_, s) \<Rightarrow> s | None \<Rightarrow> example_msgs)"

lemma example_msgs_send:
  "sys_msgsnd (\<lambda>_ _ _. None) True (\<lambda>s. s) 0 0 1000 3 [7, 8] 0 INIT_TASK 6 example_msgs = Some (Some (Inr 2), example_sent)"
  by (simp add: example_sent_def sys_msgsnd_def msgsnd_enter_def msgsnd_slept_def msgsnd_link_def held_msq_def example_msgs_at(1) seq_ok_def
    ipcperms_def suser_def INIT_TASK_def flag_set_def kconst)

lemma example_sent_que:
  "\<exists>q. ms_que example_sent = Ipc q # tl (ms_que example_msgs) \<and> mq_msgs q = [\<lparr>mg_type = 3, mg_text = [7, 8]\<rparr>] \<and> uint (ip_seq (mq_perm q)) = 0"
  using msgsnd_done(5)[OF example_msgs_send example_msgs_at(1)] example_msgs_at(2)
  by (cases "ms_que example_msgs") (simp_all add: msq_slot_def link_msg_def)

lemma example_small: "small_queues example_msgs" "small_queues example_sent" "small_queues (snd (newque_reserve msg_init))"
proof -
  show "small_queues example_msgs" "small_queues example_sent"
    using example_msgs_at example_sent_que
    by (cases "ms_que example_msgs"; auto simp: small_queues_def msq_at_def msq_slot_def list_all_iff)+
  show "small_queues (snd (newque_reserve msg_init))"
    using set_update_subset_insert[of "replicate 128 (IPC_UNUSED :: msqid_ds ipc_slot)"]
    by (fastforce simp: small_queues_def newque_reserve_def msg_init_def kconst list_all_iff split: option.splits ipc_slot.splits)
qed

lemma example_reach:
  "reach msg_boot (\<lambda>x y. msg_step x y \<and> small_queues (fst y)) (example_msgs, [])"
  "reach msg_boot (\<lambda>x y. msg_step x y \<and> small_queues (fst y)) (example_sent, [])"
proof -
  let ?R = "reach msg_boot (\<lambda>x y. msg_step x y \<and> small_queues (fst y))" and ?g = "Get_alloc 0 IPC_PRIVATE 0 INIT_TASK"
  have "?R (msg_init, [])" by (rule reach_init) (simp add: msg_boot_def)
  then have "?R (snd (newque_reserve msg_init), [?g])"
    by (rule reach_step) (use msgget_private_init(2) example_small(3) in \<open>auto intro: msg_step.get_start\<close>)
  moreover have "msg_step (snd (newque_reserve msg_init), [?g]) (example_msgs, remove1 ?g [?g])"
    by (rule msg_step.get_end[OF refl, where mem = "Some 4096" and now = 5
        and r = "fst (newque_fill (Some 4096) 0 IPC_PRIVATE 0 INIT_TASK 5 (snd (newque_reserve msg_init)))"])
      (simp, simp only: example_msgs_def msgget_private_init(1) snd_conv prod.collapse)
  ultimately show r: "?R (example_msgs, [])" using example_small(1) by (auto intro: reach_step)
  let ?c = "Snd_alloc 0 4096 3 [7, 8] INIT_TASK"
  note d = msgsnd_done[OF example_msgs_send example_msgs_at(1), simplified]
  have "?R (example_msgs, [?c])"
    by (rule reach_step[OF r]) (use d(6) example_small(1) in \<open>auto intro!: msg_step.snd_start\<close>)
  moreover have "msg_step (example_msgs, [?c]) (example_sent, remove1 ?c [?c])"
    by (rule msg_step.snd_end[OF refl _ d(7)]) simp
  ultimately show "?R (example_sent, [])" using example_small(2) by (auto intro: reach_step)
qed

theorem msg_accounting_witness:
  "ms_bytes example_sent = (\<Sum>x\<leftarrow>ms_que example_sent. slot_bytes x) \<and> ms_used example_sent = (\<Sum>x\<leftarrow>ms_que example_sent. slot_live x) \<and>
   ms_hdrs example_sent = wrap32 (\<Sum>x\<leftarrow>ms_que example_sent. slot_hdrs x)"
  using msg_accounting[OF example_reach(2)] by simp

lemma example_ok: "msg_ok example_msgs" "msg_ok example_sent"
  using msgs.reach_inv[OF example_reach(1)] msgs.reach_inv[OF example_reach(2)] by (simp_all add: msgs_inv_def)

lemma example_sent_at:
  "\<exists>q. msq_at 0 example_sent = Ipc q \<and> mq_msgs q = [\<lparr>mg_type = 3, mg_text = [7, 8]\<rparr>] \<and> uint (ip_seq (mq_perm q)) = 0"
  using example_sent_que by (auto simp: msq_at_def msq_slot_def)

text \<open>
  C20. A receive that does not sleep either fails and changes nothing, with \<^verbatim>\<open>ENOMSG\<close> only when the
  queue has no message of the wanted type, or returns the message the type argument asks for: the first
  of the queue, the first of (or not of) that type, or the first of the least type not above the bound.
  That message and no other leaves the queue, and the other queues are as before.
\<close>

theorem msgrcv_selects:
  assumes "msg_ok s" "- 2147483648 < msgtyp" "msgtyp \<le> 2147483647" "0 \<le> msgsz"
    and "msgrcv_enter va msqid msgp msgsz s = None"
    and "sys_msgrcv va msqid msgp msgsz msgtyp msgflg t now s = (Some r, s')"
  shows "case r of
      Inl e \<Rightarrow> s' = s \<and> (\<forall>q. e = ENOMSG \<longrightarrow> msq_at msqid s = Ipc q \<longrightarrow> (\<forall>m\<in>set (mq_msgs q). \<not> wanted msgtyp msgflg m))
    | Inr (mtype, text) \<Rightarrow> \<exists>q q' i. msq_at msqid s = Ipc q \<and> ms_que s' = (ms_que s)[msq_slot msqid := Ipc q'] \<and>
        i < length (mq_msgs q) \<and> wanted msgtyp msgflg (mq_msgs q ! i) \<and>
        (\<forall>j<length (mq_msgs q). j \<noteq> i \<longrightarrow> wanted msgtyp msgflg (mq_msgs q ! j) \<longrightarrow> preferred msgtyp (mq_msgs q) i j) \<and>
        mtype = mg_type (mq_msgs q ! i) \<and> text = take (nat msgsz) (mg_text (mq_msgs q ! i)) \<and>
        mq_msgs q' = take i (mq_msgs q) @ drop (Suc i) (mq_msgs q)"
proof -
  from assms(5,6) have e: "msgrcv_round msqid (held_msq msqid s) msgsz msgtyp msgflg t now s = (Some r, s')" by (simp add: sys_msgrcv_def)
  show ?thesis
  proof (cases "msq_at msqid s")
    case (Ipc q)
    have k: "queue_ok q" by (rule msq_ok[OF assms(1), of "msq_slot msqid"]) (use Ipc in \<open>simp_all add: msq_at_def\<close>)
    note S = find_msg_spec[OF assms(2,3), of "mq_msgs q" msgflg]
    show ?thesis
    proof (cases "find_msg msgtyp msgflg (mq_msgs q)")
      case None
      then show ?thesis using e Ipc S by (auto simp: msgrcv_round_def split: if_splits)
    next
      case (Some i)
      show ?thesis
      proof (cases r)
        case (Inl e')
        then show ?thesis using e Ipc Some by (auto simp: msgrcv_round_def Let_def split: if_splits)
      next
        case (Inr p)
        have "ms_que s' = (ms_que s)[msq_slot msqid := Ipc (take_msg i t now q)]"
          "p = (mg_type (mq_msgs q ! i), take (nat msgsz) (mg_text (mq_msgs q ! i)))"
          using e Ipc Some Inr by (auto simp: msgrcv_round_def Let_def put_msq_def split: if_splits)
        then show ?thesis using Inr Ipc S Some take_msg_ok(2)[OF k, of i t now] by auto
      qed
    qed
  qed (use e in \<open>auto simp: msgrcv_round_def\<close>)
qed

lemma example_sent_enter: "msgrcv_enter (\<lambda>_ _ _. None) 0 1000 8 example_sent = None"
  using example_sent_at by (auto simp: msgrcv_enter_def)

theorem msgrcv_selects_witness:
  "\<exists>q i. msq_at 0 example_sent = Ipc q \<and> i < length (mq_msgs q) \<and> wanted (- 4) 0 (mq_msgs q ! i) \<and>
     mg_type (mq_msgs q ! i) = 3 \<and> take 8 (mg_text (mq_msgs q ! i)) = [7, 8]"
proof -
  have e: "sys_msgrcv (\<lambda>_ _ _. None) 0 1000 8 (- 4) 0 INIT_TASK 6 example_sent =
    (Some (Inr (3, [7, 8])), snd (sys_msgrcv (\<lambda>_ _ _. None) 0 1000 8 (- 4) 0 INIT_TASK 6 example_sent))"
    using example_sent_at by (auto simp: sys_msgrcv_def example_sent_enter msgrcv_round_def held_msq_def seq_ok_def ipcperms_def suser_def
      INIT_TASK_def find_msg_def flag_set_def wrap32_def kconst Let_def)
  show ?thesis
    using msgrcv_selects[OF example_ok(2) _ _ _ example_sent_enter e] by auto
qed

text \<open>
  C25. A message that was sent is received unchanged: when the queue has no message of its type and the
  reader's buffer is large enough, a receive for that type returns its type and text, and the
  queue holds the messages it held before.
\<close>

theorem msgsnd_msgrcv:
  assumes "msg_ok s" "msq_at msqid s = Ipc q" "length (mq_msgs q) < 65535" "\<forall>m\<in>set (mq_msgs q). mg_type m \<noteq> mtype"
    and snd: "sys_msgsnd va mem (\<lambda>s. s) stale msqid msgp mtype text msgflg t now s = Some (Some (Inr n), s1)"
    and rcv: "msgrcv_enter va' msqid msgp' msgsz s1 = None" "int (length text) \<le> msgsz"
      "\<not> flag_set msgflg' MSG_EXCEPT" "\<not> ipcperms (mq_perm q) S_IRUGO t'"
  shows "\<exists>s2 q2. sys_msgrcv va' msqid msgp' msgsz mtype msgflg' t' now' s1 = (Some (Inr (mtype, text)), s2) \<and>
    ms_que s2 = (ms_que s)[msq_slot msqid := Ipc q2] \<and> mq_msgs q2 = mq_msgs q \<and> mq_cbytes q2 = mq_cbytes q \<and> mq_qnum q2 = mq_qnum q"
proof -
  note d = msgsnd_done[OF snd assms(2)]
  let ?m = "\<lparr>mg_type = mtype, mg_text = text\<rparr>" and ?i = "length (mq_msgs q)"
  define q1 where "q1 = link_msg mtype text t now q"
  have k: "length (ms_que s) = 128" "queue_ok q"
    using assms(1,2) msq_ok[OF assms(1), of "msq_slot msqid" q] by (simp_all add: msg_ok_def msq_at_def)
  have att: "msq_at msqid s1 = Ipc q1" unfolding msq_at_def d(5) q1_def using k(1) by simp
  have "fits text q" using k(2) d(4) assms(3) uint_bounded[of "mq_qbytes q"] by (simp add: fits_def queue_ok_def)
  then have q1: "queue_ok q1" "mq_msgs q1 = mq_msgs q @ [?m]" "mq_perm q1 = mq_perm q"
    using link_queue_ok[OF k(2)] by (simp_all add: q1_def link_msg_def)
  have f: "find_msg mtype msgflg' (mq_msgs q1) = Some ?i"
    using d(1) rcv(3) assms(4) by (simp add: find_msg_def q1(2) first_msg_Some nth_append)
  note k = take_msg_ok(2)[OF q1(1), of ?i t' now']
  have nn: "length text \<le> nat msgsz" using rcv(2) by simp
  show ?thesis
    by (intro exI[of _ "snd (sys_msgrcv va' msqid msgp' msgsz mtype msgflg' t' now' s1)"] exI[of _ "take_msg ?i t' now' q1"])
      (use rcv nn att f k d(2,5) q1(2,3) in \<open>simp add: sys_msgrcv_def held_msq_def msgrcv_round_def Let_def put_msq_def take_msg_def q1_def link_msg_def\<close>)
qed

theorem msgsnd_msgrcv_witness:
  "\<exists>s2. sys_msgrcv (\<lambda>_ _ _. None) 0 1000 8 3 0 INIT_TASK 9
     example_sent = (Some (Inr (3, [7, 8])), s2)"
  using msgsnd_msgrcv[OF example_ok(1) example_msgs_at(1) _ _ example_msgs_send example_sent_enter, of 0 INIT_TASK 9]
  by (auto simp: flag_set_def ipcperms_def suser_def INIT_TASK_def)

text \<open>
  Both conditions on the run are needed. The room of the queue is tested before the allocation and not again:
  a message is linked whatever the queue has got meanwhile, so that enough senders that allocate at the
  same time make \<^verbatim>\<open>msg_cbytes\<close> exceed \<^verbatim>\<open>msg_qbytes\<close>, and wrap.
\<close>

lemma senders_overcommit:
  assumes "length (ms_que s) = 128" "msq_at msqid s = Ipc q" "seq_ok (mq_perm q) msqid"
  shows "\<exists>s'. msgsnd_link msqid (mq_addr q) stale mtype text t now s = Some (Inr (int (length text)), s', True) \<and>
    msq_at msqid s' = Ipc (link_msg mtype text t now q)"
  using assms by (simp add: msgsnd_link_def Let_def msq_at_def put_msq_def)

text \<open>
  Empty messages use no bytes, so \<^verbatim>\<open>msg_qbytes\<close> does not bound their number; after 65536 of them \<^verbatim>\<open>msg_qnum\<close>
  is 0, and with one more in the queue a single receive takes the queue to be empty and loses the others.
\<close>

lemma qnum_wraps:
  assumes "uint (mq_qnum q) = int (length (mq_msgs q))" "length (mq_msgs q) = 65535"
  shows "mq_msgs (take_msg i t now (q\<lparr>mq_msgs := mq_msgs q @ [m1, m2], mq_qnum := mq_qnum q + 1 + 1\<rparr>)) = []"
proof -
  have "mq_qnum q = word_of_int (int (length (mq_msgs q)))" unfolding assms(1)[symmetric] by simp
  then have "mq_qnum q + 1 = 0" using assms(2) by simp
  then show ?thesis by (simp add: take_msg_def)
qed

end
