(* ===== verification/Ipc_Sem.thy ===== *)
theory Ipc_Sem
  imports Ipc_Msg
begin

text \<open>
  System V semaphore arrays (\<^verbatim>\<open>ipc/sem.c\<close>, \<^verbatim>\<open>include/linux/sem.h\<close>). An undo structure is
  linked both into a list of its process and into a list of its array; it lives in a store, and both lists
  hold its address.
\<close>

section \<open>Data\<close>

record sem =
  se_pid :: u16
  se_val :: u16
  se_ncnt :: u16
  se_zcnt :: u16

record sembuf =
  sb_num :: u16
  sb_op :: u16
  sb_flg :: u16

record sem_undo =
  un_semid :: int
  un_semadj :: u16
  un_num :: u16

record semid_ds =
  sa_perm :: ipc_perm
  sa_otime :: int
  sa_ctime :: int
  sa_base :: "sem list"
  sa_undo :: "nat list"
  sa_nsems :: u16

text \<open>The table with its counters, the undo structures and each task's list of them. \<open>ss_next\<close> is the address the allocator returns next.\<close>

record semary_state =
  ss_ary :: "semid_ds ipc_slot list"
  ss_sems :: int
  ss_ids :: int
  ss_max :: nat
  ss_seq :: u16
  ss_undo :: "nat \<Rightarrow> sem_undo"
  ss_semun :: "nat \<Rightarrow> nat list"
  ss_next :: nat

definition SEM_UNDO :: u32 where [kconst]: "SEM_UNDO = 0x1000"
definition SEMMNI :: int where [kconst]: "SEMMNI = 128"
definition SEMMSL :: int where [kconst]: "SEMMSL = 32"
definition SEMMNS :: int where [kconst]: "SEMMNS = SEMMNI * SEMMSL"
definition SEMOPM :: int where [kconst]: "SEMOPM = 32"
definition SEMVMX :: int where [kconst]: "SEMVMX = 32767"
definition SEMUME :: int where [kconst]: "SEMUME = SEMOPM"
definition SEMMNU :: int where [kconst]: "SEMMNU = SEMMNS"
definition SEMAEM :: int where [kconst]: "SEMAEM = SEMVMX div 2"
definition SEMMAP :: int where [kconst]: "SEMMAP = SEMMNS"
definition SEMUSZ :: int where [kconst]: "SEMUSZ = 20"

abbreviation (input) "GETPID \<equiv> (11 :: int)"
abbreviation (input) "GETVAL \<equiv> (12 :: int)"
abbreviation (input) "GETALL \<equiv> (13 :: int)"
abbreviation (input) "GETNCNT \<equiv> (14 :: int)"
abbreviation (input) "GETZCNT \<equiv> (15 :: int)"
abbreviation (input) "SETVAL \<equiv> (16 :: int)"
abbreviation (input) "SETALL \<equiv> (17 :: int)"
abbreviation (input) "SEM_STAT \<equiv> (18 :: int)"
abbreviation (input) "SEM_INFO \<equiv> (19 :: int)"

definition sem_init :: "semary_state \<Rightarrow> semary_state" where
  "sem_init s = s\<lparr>ss_ary := replicate (nat SEMMNI) IPC_UNUSED, ss_sems := 0, ss_ids := 0, ss_max := 0, ss_seq := 0\<rparr>"

definition sem_slot :: "int \<Rightarrow> nat" where
  "sem_slot semid = nat (semid mod SEMMNI)"

definition sma_at :: "int \<Rightarrow> semary_state \<Rightarrow> semid_ds ipc_slot" where
  "sma_at semid s = ss_ary s ! sem_slot semid"

definition put_sma :: "int \<Rightarrow> semid_ds ipc_slot \<Rightarrow> semary_state \<Rightarrow> semary_state" where
  "put_sma semid x s = s\<lparr>ss_ary := (ss_ary s)[sem_slot semid := x]\<rparr>"

definition sem_seq_ok :: "ipc_perm \<Rightarrow> int \<Rightarrow> bool" where
  "sem_seq_ok p semid \<longleftrightarrow> uint (ip_seq p) = semid div SEMMNI"

section \<open>semget\<close>

definition sem_findkey :: "int \<Rightarrow> semary_state \<Rightarrow> find_out" where
  "sem_findkey key s = findkey_loop sa_perm key (ss_ary s) 0 (Suc (ss_max s))"

text \<open>Up to the allocation, and after it.\<close>

definition newary_reserve :: "int \<Rightarrow> semary_state \<Rightarrow> (errno + nat) \<times> semary_state" where
  "newary_reserve nsems s =
     (if nsems = 0 then (Inl EINVAL, s)
      else if ss_sems s + nsems > SEMMNS then (Inl ENOSPC, s)
      else (case unused_slot (ss_ary s) of
              None \<Rightarrow> (Inl ENOSPC, s)
            | Some i \<Rightarrow> (Inr i, s\<lparr>ss_ary := (ss_ary s)[i := IPC_NOID], ss_sems := ss_sems s + nsems\<rparr>)))"

definition newary_fill :: "bool \<Rightarrow> nat \<Rightarrow> int \<Rightarrow> int \<Rightarrow> u32 \<Rightarrow> task_struct \<Rightarrow> int \<Rightarrow> semary_state \<Rightarrow> int res \<times> semary_state" where
  "newary_fill mem i key nsems semflg t now s =
     (if \<not> mem then (Inl ENOMEM, s\<lparr>ss_ary := (ss_ary s)[i := IPC_UNUSED], ss_sems := ss_sems s - nsems\<rparr>)
      else
        let perm = \<lparr>ip_key = key, ip_uid = t_euid t, ip_gid = t_egid t, ip_cuid = t_euid t, ip_cgid = t_egid t,
                    ip_mode = ucast semflg AND S_IRWXUGO, ip_seq = ss_seq s\<rparr>;
            sma = \<lparr>sa_perm = perm, sa_otime = 0, sa_ctime = now,
                   sa_base = replicate (nat nsems) \<lparr>se_pid = 0, se_val = 0, se_ncnt = 0, se_zcnt = 0\<rparr>,
                   sa_undo = [], sa_nsems = word_of_int nsems\<rparr>
        in (Inr (uint (ss_seq s) * SEMMNI + int i),
            s\<lparr>ss_max := max i (ss_max s), ss_ids := ss_ids s + 1, ss_ary := (ss_ary s)[i := Ipc sma]\<rparr>))"

definition newary ::
  "bool \<Rightarrow> (semary_state \<Rightarrow> semary_state) \<Rightarrow> int \<Rightarrow> int \<Rightarrow> u32 \<Rightarrow> task_struct \<Rightarrow> int \<Rightarrow> semary_state \<Rightarrow> int res \<times> semary_state" where
  "newary mem others key nsems semflg t now s =
     (case newary_reserve nsems s of
        (Inl e, s1) \<Rightarrow> (Inl e, s1)
      | (Inr i, s1) \<Rightarrow> newary_fill mem i key nsems semflg t now (others s1))"

text \<open>\<^const>\<open>None\<close>: sleeps on \<^verbatim>\<open>sem_lock\<close>.\<close>

definition sys_semget ::
  "bool \<Rightarrow> (semary_state \<Rightarrow> semary_state) \<Rightarrow> int \<Rightarrow> int \<Rightarrow> u32 \<Rightarrow> task_struct \<Rightarrow> int \<Rightarrow> semary_state \<Rightarrow> int res option \<times> semary_state" where
  "sys_semget mem others key nsems semflg t now s =
     (let new = (case newary mem others key nsems semflg t now s of (r, s1) \<Rightarrow> (Some r, s1)) in
      if nsems < 0 \<or> nsems > SEMMSL then (Some (Inl EINVAL), s)
      else if key = IPC_PRIVATE then new
      else (case sem_findkey key s of
              Key_wait \<Rightarrow> (None, s)
            | Key_none \<Rightarrow> if \<not> flag_set semflg IPC_CREAT then (Some (Inl ENOENT), s) else new
            | Key_at i \<Rightarrow>
                if flag_set semflg IPC_CREAT \<and> flag_set semflg IPC_EXCL then (Some (Inl EEXIST), s)
                else (case ss_ary s ! i of
                        Ipc sma \<Rightarrow>
                          if nsems > uint (sa_nsems sma) then (Some (Inl EINVAL), s)
                          else if ipcperms (sa_perm sma) (ucast semflg) t then (Some (Inl EACCES), s)
                          else (Some (Inr (uint (ip_seq (sa_perm sma)) * SEMMNI + int i)), s)
                      | _ \<Rightarrow> (Some (Inl EINVAL), s))))"

section \<open>semctl\<close>

text \<open>Setting the adjustment of some undo structures of an array to 0.\<close>

definition clear_undo :: "(sem_undo \<Rightarrow> bool) \<Rightarrow> nat list \<Rightarrow> (nat \<Rightarrow> sem_undo) \<Rightarrow> nat \<Rightarrow> sem_undo" where
  "clear_undo P undo st a = (if a \<in> set undo \<and> P (st a) then (st a)\<lparr>un_semadj := 0\<rparr> else st a)"

text \<open>
  All counters are changed before the loop that lets the sleeping callers leave; after it only the memory of
  the array is freed. What other tasks do while the loop runs comes after this function.
\<close>

definition freeary :: "nat \<Rightarrow> semid_ds \<Rightarrow> semary_state \<Rightarrow> semary_state" where
  "freeary i sma s =
     s\<lparr>ss_seq := ss_seq s + 1, ss_sems := ss_sems s - uint (sa_nsems sma),
       ss_max := (if i = ss_max s then lower_max (ss_ary s) (ss_max s) else ss_max s),
       ss_ary := (ss_ary s)[i := IPC_UNUSED], ss_ids := ss_ids s - 1,
       ss_undo := clear_undo (\<lambda>_. True) (sa_undo sma) (ss_undo s)\<rparr>"

record seminfo =
  si_map :: int
  si_mni :: int
  si_mns :: int
  si_mnu :: int
  si_msl :: int
  si_opm :: int
  si_ume :: int
  si_usz :: int
  si_vmx :: int
  si_aem :: int

datatype semctl_out = Sctl_ret int | Sctl_info seminfo int | Sctl_stat semid_ds int | Sctl_all "u16 list"

definition semctl_info :: "int \<Rightarrow> semary_state \<Rightarrow> seminfo" where
  "semctl_info cmd s =
     (let si = \<lparr>si_map = SEMMAP, si_mni = SEMMNI, si_mns = SEMMNS, si_mnu = SEMMNU, si_msl = SEMMSL, si_opm = SEMOPM,
                si_ume = SEMUME, si_usz = SEMUSZ, si_vmx = SEMVMX, si_aem = SEMAEM\<rparr>
      in if cmd = SEM_INFO then si\<lparr>si_usz := ss_ids s, si_aem := ss_sems s\<rparr> else si)"

text \<open>
  \<open>arg\<close> is the argument, \<open>argv\<close> the word it points to. The first \<^verbatim>\<open>switch\<close>: \<^const>\<open>None\<close> when the
  call goes on.
\<close>

definition semctl_first :: "va_fun \<Rightarrow> int \<Rightarrow> int \<Rightarrow> u32 \<Rightarrow> u32 \<Rightarrow> task_struct \<Rightarrow> semary_state \<Rightarrow> semctl_out res option" where
  "semctl_first va semid cmd arg argv t s =
     (if cmd = IPC_INFO \<or> cmd = SEM_INFO
      then if arg = 0 \<or> argv = 0 then Some (Inl EFAULT)
           else (case va VERIFY_WRITE argv 40 of
                   Some e \<Rightarrow> Some (Inl e)
                 | None \<Rightarrow> Some (Inr (Sctl_info (semctl_info cmd s) (int (ss_max s)))))
      else if cmd = SEM_STAT
      then if arg = 0 \<or> argv = 0 then Some (Inl EFAULT)
           else (case va VERIFY_WRITE argv 44 of
                   Some e \<Rightarrow> Some (Inl e)
                 | None \<Rightarrow>
                     if semid > int (ss_max s) then Some (Inl EINVAL)
                     else (case ss_ary s ! nat semid of
                             Ipc sma \<Rightarrow>
                               if ipcperms (sa_perm sma) S_IRUGO t then Some (Inl EACCES)
                               else Some (Inr (Sctl_stat sma (semid + uint (ip_seq (sa_perm sma)) * SEMMNI)))
                           | _ \<Rightarrow> Some (Inl EINVAL)))
      else None)"

text \<open>
  The second \<^verbatim>\<open>switch\<close>: it answers the queries, checks the arguments of the other commands and copies
  them in. \<open>vals\<close> are the first \<^verbatim>\<open>nsems\<close> elements of the array at \<open>argv\<close>.
\<close>

definition semctl_check ::
  "va_fun \<Rightarrow> semid_ds \<Rightarrow> sem \<Rightarrow> int \<Rightarrow> u32 \<Rightarrow> u32 \<Rightarrow> u16 list \<Rightarrow> task_struct \<Rightarrow> semctl_out res option" where
  "semctl_check va sma sem cmd arg argv vals t =
     (let checked = (\<lambda>ty n. if arg = 0 \<or> argv = 0 then Some (Inl EFAULT) else map_option Inl (va ty argv n)) in
      if cmd \<in> {GETVAL, GETPID, GETNCNT, GETZCNT, GETALL}
      then if ipcperms (sa_perm sma) S_IRUGO t then Some (Inl EACCES)
           else if cmd = GETVAL then Some (Inr (Sctl_ret (uint (se_val sem))))
           else if cmd = GETPID then Some (Inr (Sctl_ret (sint (se_pid sem))))
           else if cmd = GETNCNT then Some (Inr (Sctl_ret (uint (se_ncnt sem))))
           else if cmd = GETZCNT then Some (Inr (Sctl_ret (uint (se_zcnt sem))))
           else checked VERIFY_WRITE (2 * ucast (sa_nsems sma))
      else if cmd = SETVAL
      then if arg = 0 then Some (Inl EFAULT)
           else if sint argv > SEMVMX \<or> sint argv < 0 then Some (Inl ERANGE)
           else None
      else if cmd = SETALL
      then (case checked VERIFY_READ 44 of
              Some r \<Rightarrow> Some r
            | None \<Rightarrow> if \<exists>v\<in>set vals. uint v > SEMVMX then Some (Inl ERANGE) else None)
      else if cmd = IPC_STAT then checked VERIFY_WRITE 44
      else if cmd = IPC_SET then checked VERIFY_READ 44
      else None)"

fun set_vals :: "sem list \<Rightarrow> u16 list \<Rightarrow> sem list" where
  "set_vals (b # bs) (v # vs) = b\<lparr>se_val := v\<rparr> # set_vals bs vs"
| "set_vals bs vs = bs"

text \<open>The third \<^verbatim>\<open>switch\<close>: the changes.\<close>

definition semctl_do ::
  "int \<Rightarrow> nat \<Rightarrow> semid_ds \<Rightarrow> int \<Rightarrow> u32 \<Rightarrow> u16 list \<Rightarrow> ipc_perm \<Rightarrow> task_struct \<Rightarrow> int \<Rightarrow> semary_state \<Rightarrow> semctl_out res \<times> semary_state" where
  "semctl_do semid semnum sma cmd argv vals tperm t now s =
     (if cmd = GETALL
      then if ipcperms (sa_perm sma) S_IRUGO t then (Inl EACCES, s) else (Inr (Sctl_all (map se_val (sa_base sma))), s)
      else if cmd = SETVAL
      then if ipcperms (sa_perm sma) S_IWUGO t then (Inl EACCES, s)
           else (Inr (Sctl_ret 0),
                 (put_sma semid (Ipc (sma\<lparr>sa_ctime := now,
                    sa_base := (sa_base sma)[semnum := (sa_base sma ! semnum)\<lparr>se_val := ucast argv\<rparr>]\<rparr>)) s)
                   \<lparr>ss_undo := clear_undo (\<lambda>un. int semnum = uint (un_num un)) (sa_undo sma) (ss_undo s)\<rparr>)
      else if cmd = IPC_SET
      then if ipc_owner (sa_perm sma) t
           then (Inr (Sctl_ret 0), put_sma semid (Ipc (sma\<lparr>sa_perm := perm_set tperm (sa_perm sma), sa_ctime := now\<rparr>)) s)
           else (Inl EPERM, s)
      else if cmd = IPC_STAT
      then if ipcperms (sa_perm sma) S_IRUGO t then (Inl EACCES, s) else (Inr (Sctl_stat sma 0), s)
      else if cmd = SETALL
      then if ipcperms (sa_perm sma) S_IWUGO t then (Inl EACCES, s)
           else (Inr (Sctl_ret 0),
                 (put_sma semid (Ipc (sma\<lparr>sa_base := set_vals (sa_base sma) vals, sa_ctime := now\<rparr>)) s)
                   \<lparr>ss_undo := clear_undo (\<lambda>_. True) (sa_undo sma) (ss_undo s)\<rparr>)
      else (Inl EINVAL, s))"

text \<open>
  The call up to the point where it has copied its arguments, which may sleep (\<^const>\<open>None\<close>: it goes on),
  and the rest. The array can be removed in between; then the slot does not hold an array with the number
  the caller asks for. (If it holds another one, the code reads the number from the array it knew, which is
  freed by then.)
\<close>

definition semctl_enter ::
  "va_fun \<Rightarrow> int \<Rightarrow> int \<Rightarrow> int \<Rightarrow> u32 \<Rightarrow> u32 \<Rightarrow> u16 list \<Rightarrow> task_struct \<Rightarrow> semary_state \<Rightarrow> (semctl_out res \<times> semary_state) option" where
  "semctl_enter va semid semnum cmd arg argv vals t s =
     (if semid < 0 \<or> semnum < 0 \<or> cmd < 0 then Some (Inl EINVAL, s)
      else (case semctl_first va semid cmd arg argv t s of
              Some r \<Rightarrow> Some (r, s)
            | None \<Rightarrow>
                (case sma_at semid s of
                   Ipc sma \<Rightarrow>
                     if \<not> sem_seq_ok (sa_perm sma) semid then Some (Inl EIDRM, s)
                     else if semnum \<ge> uint (sa_nsems sma) then Some (Inl EINVAL, s)
                     else if cmd = IPC_RMID
                     then if ipc_owner (sa_perm sma) t then Some (Inr (Sctl_ret 0), freeary (sem_slot semid) sma s) else Some (Inl EPERM, s)
                     else map_option (\<lambda>r. (r, s)) (semctl_check va sma (sa_base sma ! nat semnum) cmd arg argv vals t)
                 | _ \<Rightarrow> Some (Inl EINVAL, s))))"

definition semctl_finish ::
  "int \<Rightarrow> int \<Rightarrow> int \<Rightarrow> u32 \<Rightarrow> u16 list \<Rightarrow> ipc_perm \<Rightarrow> task_struct \<Rightarrow> int \<Rightarrow> semary_state \<Rightarrow> semctl_out res \<times> semary_state" where
  "semctl_finish semid semnum cmd argv vals tperm t now s =
     (case sma_at semid s of
        Ipc sma \<Rightarrow>
          if \<not> sem_seq_ok (sa_perm sma) semid then (Inl EIDRM, s)
          else semctl_do semid (nat semnum) sma cmd argv vals tperm t now s
      | _ \<Rightarrow> (Inl EIDRM, s))"

definition sys_semctl ::
  "va_fun \<Rightarrow> (semary_state \<Rightarrow> semary_state) \<Rightarrow> int \<Rightarrow> int \<Rightarrow> int \<Rightarrow> u32 \<Rightarrow> u32 \<Rightarrow> u16 list \<Rightarrow> ipc_perm \<Rightarrow> task_struct \<Rightarrow> int \<Rightarrow>
   semary_state \<Rightarrow> semctl_out res \<times> semary_state" where
  "sys_semctl va others semid semnum cmd arg argv vals tperm t now s =
     (case semctl_enter va semid semnum cmd arg argv vals t s of
        Some x \<Rightarrow> x
      | None \<Rightarrow> semctl_finish semid semnum cmd argv vals tperm t now (others s))"

section \<open>semop\<close>

definition sop_flag :: "sembuf \<Rightarrow> u32 \<Rightarrow> bool" where
  "sop_flag sop m = flag_set (ucast (sb_flg sop)) m"

text \<open>The first loop counts undo requests, changes and increments.\<close>

fun semop_scan :: "u16 \<Rightarrow> sembuf list \<Rightarrow> nat \<times> nat \<times> nat \<Rightarrow> (nat \<times> nat \<times> nat) res" where
  "semop_scan nsems [] c = Inr c"
| "semop_scan nsems (sop # sops) (undos, alter, ncnt) =
     (if sb_num sop > nsems then Inl EFBIG
      else semop_scan nsems sops
             (if sop_flag sop SEM_UNDO then Suc undos else undos,
              if sb_op sop \<noteq> 0 then Suc alter else alter,
              if sint (sb_op sop) > 0 then Suc ncnt else ncnt))"

fun find_un :: "(nat \<Rightarrow> sem_undo) \<Rightarrow> nat list \<Rightarrow> int \<Rightarrow> u16 \<Rightarrow> nat option" where
  "find_un st [] semid n = None"
| "find_un st (a # as) semid n =
     (if un_semid (st a) = semid \<and> un_num (st a) = n then Some a else find_un st as semid n)"

text \<open>
  Every operation with \<^verbatim>\<open>SEM_UNDO\<close> gets an undo structure. \<open>mem a\<close> tells whether the allocation that
  would return address \<open>a\<close> succeeds, \<open>me\<close> is the calling task.
\<close>

fun semop_undos :: "(nat \<Rightarrow> bool) \<Rightarrow> int \<Rightarrow> nat \<Rightarrow> sembuf list \<Rightarrow> semid_ds \<Rightarrow> semary_state \<Rightarrow> bool \<times> semary_state" where
  "semop_undos mem semid me [] sma s = (True, put_sma semid (Ipc sma) s)"
| "semop_undos mem semid me (sop # sops) sma s =
     (if \<not> sop_flag sop SEM_UNDO \<or> find_un (ss_undo s) (ss_semun s me) semid (sb_num sop) \<noteq> None
      then semop_undos mem semid me sops sma s
      else if \<not> mem (ss_next s) then (False, put_sma semid (Ipc sma) s)
      else
        let a = ss_next s in
        semop_undos mem semid me sops (sma\<lparr>sa_undo := a # sa_undo sma\<rparr>)
          (s\<lparr>ss_next := Suc a, ss_undo := (ss_undo s)(a := \<lparr>un_semid = semid, un_semadj = 0, un_num = sb_num sop\<rparr>),
             ss_semun := (ss_semun s)(me := a # ss_semun s me)\<rparr>))"

text \<open>
  How a round ends: an error, sleep until the value of a semaphore is zero (\<^const>\<open>True\<close>) or grows, an
  access beyond the array, or the value and whether the two wait queues are woken. \<open>Semop_beyond\<close> stands for the
  undefined behaviour of C: the code goes on with whatever memory follows the array, reads it in
  the first loop and may write it in the second, and nothing is said about such a call but that it gets there.
\<close>

datatype semop_out = Semop_err errno | Semop_sleep bool nat | Semop_beyond nat | Semop_ret int bool bool

definition semop_block :: "sembuf \<Rightarrow> task_struct \<Rightarrow> bool \<Rightarrow> semop_out" where
  "semop_block sop t zero =
     (if sop_flag sop IPC_NOWAIT then Semop_err EAGAIN
      else if signal_pending t then Semop_err EINTR
      else Semop_sleep zero (unat (sb_num sop)))"

fun semop_check :: "task_struct \<Rightarrow> sem list \<Rightarrow> sembuf list \<Rightarrow> semop_out option" where
  "semop_check t base [] = None"
| "semop_check t base (sop # sops) =
     (let n = unat (sb_num sop); v = uint (se_val (base ! n)); p = sint (sb_op sop) in
      if n \<ge> length base then Some (Semop_beyond n)
      else if p + v > SEMVMX then Some (Semop_err ERANGE)
      else if p = 0 \<and> v \<noteq> 0 then Some (semop_block sop t True)
      else if p + v < 0 then Some (semop_block sop t False)
      else semop_check t base sops)"

text \<open>The loop that carries the operations out, with the number of semaphores it brought to 0.\<close>

fun semop_apply ::
  "int \<Rightarrow> u16 \<Rightarrow> nat list \<Rightarrow> sembuf list \<Rightarrow> sem list \<times> (nat \<Rightarrow> sem_undo) \<times> nat \<Rightarrow> sem list \<times> (nat \<Rightarrow> sem_undo) \<times> nat" where
  "semop_apply semid pid semun [] x = x"
| "semop_apply semid pid semun (sop # sops) (base, st, zcnt) =
     (let n = unat (sb_num sop); sem = base ! n; v = se_val sem + sb_op sop;
          st1 = (if sop_flag sop SEM_UNDO
                 then (case find_un st semun semid (sb_num sop) of
                         Some a \<Rightarrow> st(a := (st a)\<lparr>un_semadj := un_semadj (st a) - sb_op sop\<rparr>)
                       | None \<Rightarrow> st)
                 else st)
      in semop_apply semid pid semun sops
           (base[n := sem\<lparr>se_pid := pid, se_val := v\<rparr>], st1, if v = 0 then Suc zcnt else zcnt))"

text \<open>
  From the label \<^verbatim>\<open>slept\<close>. Before it sleeps a task counts itself, and afterwards it takes the count back.
  The code keeps the address of the array; its slot holds the same array as long as the sequence number
  agrees, because every removal takes a new number and waits for the sleepers to leave.
\<close>

definition sem_count :: "bool \<Rightarrow> u16 \<Rightarrow> sem \<Rightarrow> sem" where
  "sem_count zero d c = (if zero then c\<lparr>se_zcnt := se_zcnt c + d\<rparr> else c\<lparr>se_ncnt := se_ncnt c + d\<rparr>)"

definition semop_recount :: "int \<Rightarrow> bool \<Rightarrow> nat \<Rightarrow> u16 \<Rightarrow> semid_ds \<Rightarrow> semary_state \<Rightarrow> semary_state" where
  "semop_recount semid zero n d sma s =
     put_sma semid (Ipc (sma\<lparr>sa_base := (sa_base sma)[n := sem_count zero d (sa_base sma ! n)]\<rparr>)) s"

definition semop_slept :: "int \<Rightarrow> sembuf list \<Rightarrow> nat \<Rightarrow> nat \<Rightarrow> task_struct \<Rightarrow> int \<Rightarrow> semary_state \<Rightarrow> semop_out \<times> semary_state" where
  "semop_slept semid sops ncnt me t now s =
     (case sma_at semid s of
        Ipc sma \<Rightarrow>
          if \<not> sem_seq_ok (sa_perm sma) semid then (Semop_err EIDRM, s)
          else (case semop_check t (sa_base sma) sops of
                  Some (Semop_sleep zero n) \<Rightarrow> (Semop_sleep zero n, semop_recount semid zero n 1 sma s)
                | Some r \<Rightarrow> (r, s)
                | None \<Rightarrow>
                    (case semop_apply semid (word_of_int (t_pid t)) (ss_semun s me) sops (sa_base sma, ss_undo s, 0) of
                       (base, st, zcnt) \<Rightarrow>
                         (Semop_ret (uint (se_val (base ! unat (sb_num (last sops))))) (ncnt \<noteq> 0) (zcnt \<noteq> 0),
                          (put_sma semid (Ipc (sma\<lparr>sa_base := base, sa_otime := now\<rparr>)) s)\<lparr>ss_undo := st\<rparr>)))
      | _ \<Rightarrow> (Semop_err EIDRM, s))"

text \<open>A task that slept for semaphore \<open>n\<close> goes on: it takes its count back and starts again.\<close>

definition semop_awake ::
  "int \<Rightarrow> bool \<Rightarrow> nat \<Rightarrow> sembuf list \<Rightarrow> nat \<Rightarrow> nat \<Rightarrow> task_struct \<Rightarrow> int \<Rightarrow> semary_state \<Rightarrow> semop_out \<times> semary_state" where
  "semop_awake semid zero n sops ncnt me t now s =
     (case sma_at semid s of
        Ipc sma \<Rightarrow> if sem_seq_ok (sa_perm sma) semid
          then semop_slept semid sops ncnt me t now (semop_recount semid zero n (- 1) sma s) else (Semop_err EIDRM, s)
      | _ \<Rightarrow> (Semop_err EIDRM, s))"

definition sys_semop ::
  "(nat \<Rightarrow> bool) \<Rightarrow> int \<Rightarrow> u32 \<Rightarrow> sembuf list \<Rightarrow> nat \<Rightarrow> task_struct \<Rightarrow> int \<Rightarrow> semary_state \<Rightarrow> semop_out \<times> semary_state" where
  "sys_semop mem semid tsops sops me t now s =
     (if sops = [] \<or> semid < 0 then (Semop_err EINVAL, s)
      else if int (length sops) > SEMOPM then (Semop_err E2BIG, s)
      else if tsops = 0 then (Semop_err EFAULT, s)
      else (case sma_at semid s of
              Ipc sma \<Rightarrow>
                (case semop_scan (sa_nsems sma) sops (0, 0, 0) of
                   Inl e \<Rightarrow> (Semop_err e, s)
                 | Inr (undos, alter, ncnt) \<Rightarrow>
                     if ipcperms (sa_perm sma) (if alter \<noteq> 0 then S_IWUGO else S_IRUGO) t then (Semop_err EACCES, s)
                     else (case if undos \<noteq> 0 then semop_undos mem semid me sops sma s else (True, s) of
                             (False, s1) \<Rightarrow> (Semop_err ENOMEM, s1)
                           | (True, s1) \<Rightarrow> semop_slept semid sops ncnt me t now s1))
            | _ \<Rightarrow> (Semop_err EINVAL, s)))"

section \<open>Exit\<close>

text \<open>
  What happens to one undo structure: the next one follows, the loop is left after the message about a
  broken list, or the task sleeps until the semaphore can take the adjustment.
\<close>

datatype exit_out = Exit_next | Exit_break | Exit_sleep nat

text \<open>One round of the inner loop.\<close>

definition exit_adjust :: "nat \<Rightarrow> task_struct \<Rightarrow> int \<Rightarrow> semary_state \<Rightarrow> exit_out \<times> semary_state" where
  "exit_adjust a t now s =
     (let un = ss_undo s a; n = unat (un_num un) in
      case sma_at (un_semid un) s of
        Ipc sma \<Rightarrow>
          if \<not> sem_seq_ok (sa_perm sma) (un_semid un) then (Exit_next, s)
          else
            let c = sa_base sma ! n in
            if uint (se_val c) + sint (un_semadj un) \<ge> 0
            then (Exit_next,
                  put_sma (un_semid un)
                    (Ipc (sma\<lparr>sa_base := (sa_base sma)[n := c\<lparr>se_val := se_val c + un_semadj un, se_pid := word_of_int (t_pid t)\<rparr>],
                              sa_otime := now\<rparr>)) s)
            else if signal_pending t then (Exit_next, s)
            else (Exit_sleep n, semop_recount (un_semid un) False n 1 sma s)
      | _ \<Rightarrow> (Exit_next, s))"

definition exit_one :: "nat \<Rightarrow> task_struct \<Rightarrow> int \<Rightarrow> semary_state \<Rightarrow> exit_out \<times> semary_state" where
  "exit_one a t now s =
     (let u = ss_undo s a in
      case sma_at (un_semid u) s of
        Ipc sma \<Rightarrow>
          if \<not> sem_seq_ok (sa_perm sma) (un_semid u) then (Exit_next, s)
          else if a \<notin> set (sa_undo sma) then (Exit_break, s)
          else
            let s1 = put_sma (un_semid u) (Ipc (sma\<lparr>sa_undo := remove1 a (sa_undo sma)\<rparr>)) s in
            if un_semadj u = 0 then (Exit_next, s1) else exit_adjust a t now s1
      | _ \<Rightarrow> (Exit_next, s))"

text \<open>\<^const>\<open>Some\<close>: asleep for the structure at the head of the list that is left.\<close>

fun exit_loop :: "nat list \<Rightarrow> task_struct \<Rightarrow> int \<Rightarrow> semary_state \<Rightarrow> (nat list \<times> nat) option \<times> semary_state" where
  "exit_loop [] t now s = (None, s)"
| "exit_loop (a # as) t now s =
     (case exit_one a t now s of
        (Exit_next, s1) \<Rightarrow> exit_loop as t now s1
      | (Exit_break, s1) \<Rightarrow> (None, s1)
      | (Exit_sleep n, s1) \<Rightarrow> (Some (a # as, n), s1))"

text \<open>
  The list of the task follows the loop: while the task sleeps, it starts with the structure in question;
  when the loop has been left, at its end or by the \<^verbatim>\<open>break\<close>, it is empty.
\<close>

definition exit_semun :: "nat \<Rightarrow> (nat list \<times> nat) option \<times> semary_state \<Rightarrow> (nat list \<times> nat) option \<times> semary_state" where
  "exit_semun me x =
     (case x of
        (None, s) \<Rightarrow> (None, s\<lparr>ss_semun := (ss_semun s)(me := [])\<rparr>)
      | (Some (as, n), s) \<Rightarrow> (Some (as, n), s\<lparr>ss_semun := (ss_semun s)(me := as)\<rparr>))"

definition sem_exit :: "nat \<Rightarrow> task_struct \<Rightarrow> int \<Rightarrow> semary_state \<Rightarrow> (nat list \<times> nat) option \<times> semary_state" where
  "sem_exit me t now s = exit_semun me (exit_loop (ss_semun s me) t now s)"

text \<open>The task that slept for the structure \<open>a\<close>, the first of its list, goes on.\<close>

definition exit_resume :: "nat \<Rightarrow> nat \<Rightarrow> nat list \<Rightarrow> nat \<Rightarrow> task_struct \<Rightarrow> int \<Rightarrow> semary_state \<Rightarrow> (nat list \<times> nat) option \<times> semary_state" where
  "exit_resume me a as n t now s =
     (let s1 = (case sma_at (un_semid (ss_undo s a)) s of
                  Ipc sma \<Rightarrow> if sem_seq_ok (sa_perm sma) (un_semid (ss_undo s a))
                    then semop_recount (un_semid (ss_undo s a)) False n (- 1) sma s else s
                | _ \<Rightarrow> s)
      in exit_semun me (case exit_adjust a t now s1 of
           (Exit_sleep m, s2) \<Rightarrow> (Some (a # as, m), s2)
         | (_, s2) \<Rightarrow> exit_loop as t now s2))"

section \<open>What an operation does to the values\<close>

definition slot_vals :: "semid_ds ipc_slot \<Rightarrow> u16 list" where
  "slot_vals x = (case x of Ipc sma \<Rightarrow> map se_val (sa_base sma) | _ \<Rightarrow> [])"

lemma sem_slot_lt [simp]: "sem_slot semid < 128"
  by (simp add: sem_slot_def kconst nat_less_iff)

lemma put_sma_simps [simp]:
  "ss_ary (put_sma semid x s) = (ss_ary s)[sem_slot semid := x]" "ss_undo (put_sma semid x s) = ss_undo s"
  "ss_semun (put_sma semid x s) = ss_semun s" "ss_next (put_sma semid x s) = ss_next s"
  "ss_sems (put_sma semid x s) = ss_sems s" "ss_ids (put_sma semid x s) = ss_ids s" "ss_max (put_sma semid x s) = ss_max s"
  "ss_seq (put_sma semid x s) = ss_seq s"
  by (simp_all add: put_sma_def)

lemma sma_at_put [simp]: "length (ss_ary s) = 128 \<Longrightarrow> sma_at semid (put_sma semid x s) = x"
  by (simp add: sma_at_def)

lemma put_sma_twice [simp]: "put_sma semid x (put_sma semid y s) = put_sma semid x s"
  by (simp add: put_sma_def)

lemma put_sma_same: "sma_at semid s = x \<Longrightarrow> put_sma semid x s = s"
  by (auto simp: put_sma_def sma_at_def)

lemma put_sma_vals:
  assumes "slot_vals x = slot_vals (sma_at semid s)"
  shows "map slot_vals (ss_ary (put_sma semid x s)) = map slot_vals (ss_ary s)"
  using assms by (cases "sem_slot semid < length (ss_ary s)") (simp_all add: map_update sma_at_def list_update_same_conv list_update_beyond)

lemma semop_check_None:
  "semop_check t base sops = None \<longleftrightarrow>
     (\<forall>sop\<in>set sops. unat (sb_num sop) < length base \<and>
        0 \<le> sint (sb_op sop) + uint (se_val (base ! unat (sb_num sop))) \<and>
        sint (sb_op sop) + uint (se_val (base ! unat (sb_num sop))) \<le> SEMVMX \<and>
        (sint (sb_op sop) = 0 \<longrightarrow> uint (se_val (base ! unat (sb_num sop))) = 0))"
  by (induction sops) (auto simp: Let_def not_le not_less)

lemma sint_op_nonneg:
  assumes "0 \<le> sint p + uint (v :: u16)" "sint p + uint v \<le> SEMVMX"
  shows "uint (v + p) = uint v + sint p"
proof -
  have e: "v + p = word_of_int (uint v + sint p)" by simp
  show ?thesis unfolding e uint_word_of_int using assms by (simp add: kconst)
qed

lemma semop_apply_frame:
  assumes "semop_apply semid pid semun sops (base, st, z) = (base', st', z')"
  shows "length base' = length base" "n \<notin> (unat \<circ> sb_num) ` set sops \<Longrightarrow> base' ! n = base ! n"
proof -
  have "length base' = length base \<and> (n \<notin> (unat \<circ> sb_num) ` set sops \<longrightarrow> base' ! n = base ! n)"
    using assms by (induction sops arbitrary: base st z) (auto simp: Let_def)
  then show "length base' = length base" "n \<notin> (unat \<circ> sb_num) ` set sops \<Longrightarrow> base' ! n = base ! n" by auto
qed

lemma semop_apply_vals:
  assumes "semop_apply semid pid semun sops (base, st, z) = (base', st', z')" "distinct (map sb_num sops)"
    "sop \<in> set sops" "unat (sb_num sop) < length base"
  shows "se_val (base' ! unat (sb_num sop)) = se_val (base ! unat (sb_num sop)) + sb_op sop"
  using assms
proof (induction sops arbitrary: base st z)
  case (Cons a sops)
  show ?case
  proof (cases "sop = a")
    case True
    have "unat (sb_num a) \<notin> (unat \<circ> sb_num) ` set sops" using Cons.prems(2) by (auto simp: word_unat_eq_iff)
    then show ?thesis using Cons.prems(1,4) True by (auto simp: Let_def dest!: semop_apply_frame(2))
  next
    case False
    then have "unat (sb_num a) \<noteq> unat (sb_num sop)" using Cons.prems(2,3) by (auto simp: word_unat_eq_iff rev_image_eqI)
    then show ?thesis using Cons.IH Cons.prems False by (auto simp: Let_def)
  qed
qed simp

lemma semop_undos_frame:
  assumes "semop_undos mem semid me sops sma s = (ok, s1)" "length (ss_ary s) = 128"
  shows "\<exists>un. s1 = (put_sma semid (Ipc (sma\<lparr>sa_undo := un\<rparr>)) s)
    \<lparr>ss_undo := ss_undo s1, ss_semun := ss_semun s1, ss_next := ss_next s1\<rparr>"
  using assms
proof (induction sops arbitrary: sma s)
  case Nil
  then show ?case by (auto intro!: exI[of _ "sa_undo sma"])
next
  case (Cons sop sops)
  consider (skip) "semop_undos mem semid me sops sma s = (ok, s1)"
    | (fail) "s1 = put_sma semid (Ipc sma) s"
    | (new) a st su where "semop_undos mem semid me sops (sma\<lparr>sa_undo := a # sa_undo sma\<rparr>)
        (s\<lparr>ss_next := Suc a, ss_undo := st, ss_semun := su\<rparr>) = (ok, s1)"
    using Cons.prems(1) by (auto simp: Let_def split: if_splits)
  then show ?case
  proof cases
    case skip
    then show ?thesis using Cons.IH Cons.prems(2) by blast
  next
    case fail
    then show ?thesis by (auto intro!: exI[of _ "sa_undo sma"])
  next
    case new
    show ?thesis using Cons.IH[OF new] Cons.prems(2) by (auto simp: put_sma_def)
  qed
qed

lemma semop_slept_other:
  assumes "semop_slept semid sops ncnt me t now s = (r, s')" "\<nexists>v n z. r = Semop_ret v n z"
  shows "map slot_vals (ss_ary s') = map slot_vals (ss_ary s)"
proof (cases "sma_at semid s")
  case (Ipc sma)
  have "slot_vals (Ipc (sma\<lparr>sa_base := (sa_base sma)[n := sem_count zero d (sa_base sma ! n)]\<rparr>)) = slot_vals (Ipc sma)" for zero n d
    by (cases "n < length (sa_base sma)") (simp_all add: slot_vals_def map_update sem_count_def list_update_same_conv list_update_beyond)
  then have "map slot_vals (ss_ary (semop_recount semid zero n d sma s)) = map slot_vals (ss_ary s)" for zero n d
    unfolding semop_recount_def by (intro put_sma_vals) (simp add: Ipc)
  then show ?thesis using assms Ipc
    by (auto simp: semop_slept_def split: if_splits option.splits semop_out.splits prod.splits)
qed (use assms in \<open>auto simp: semop_slept_def\<close>)

lemma semop_check_not_ret: "semop_check t base sops \<noteq> Some (Semop_ret v wn wz)"
  by (induction sops) (auto simp: Let_def semop_block_def)

lemma semop_slept_ret:
  assumes "semop_slept semid sops ncnt me t now s = (Semop_ret v wn wz, s')" "sma_at semid s = Ipc sma"
  obtains base st z where "semop_check t (sa_base sma) sops = None"
    "semop_apply semid (word_of_int (t_pid t)) (ss_semun s me) sops (sa_base sma, ss_undo s, 0) = (base, st, z)"
    "s' = (put_sma semid (Ipc (sma\<lparr>sa_base := base, sa_otime := now\<rparr>)) s)\<lparr>ss_undo := st\<rparr>"
    "sem_seq_ok (sa_perm sma) semid" "v = uint (se_val (base ! unat (sb_num (last sops))))"
  using assms
  by (auto simp: semop_slept_def semop_check_not_ret split: if_splits option.splits semop_out.splits prod.splits)

lemma semop_scan_undos:
  "semop_scan nsems sops (u, a, c) = Inr (u', a', c') \<Longrightarrow> u \<le> u' \<and> (u' = u \<longrightarrow> (\<forall>sop\<in>set sops. \<not> sop_flag sop SEM_UNDO))"
proof (induction sops arbitrary: u a c)
  case (Cons sop sops)
  then show ?case by (cases "sop_flag sop SEM_UNDO") (fastforce split: if_splits)+
qed simp

lemma semop_undos_none:
  "\<forall>sop\<in>set sops. \<not> sop_flag sop SEM_UNDO \<Longrightarrow> semop_undos mem semid me sops sma s = (True, put_sma semid (Ipc sma) s)"
  by (induction sops) simp_all

text \<open>A call fails before the loop, or goes on with the undo structures in place.\<close>

lemma semop_cases:
  assumes "sys_semop mem semid tsops sops me t now s = (r, s')" "sma_at semid s = Ipc sma"
  shows "(\<exists>e. r = Semop_err e \<and> (s' = s \<or> s' = snd (semop_undos mem semid me sops sma s))) \<or>
    (\<exists>ncnt s1. semop_undos mem semid me sops sma s = (True, s1) \<and> semop_slept semid sops ncnt me t now s1 = (r, s'))"
proof (cases "semop_scan (sa_nsems sma) sops (0, 0, 0)")
  case (Inl e)
  then show ?thesis using assms by (auto simp: sys_semop_def split: if_splits)
next
  case (Inr c)
  obtain u a n where c: "c = (u, a, n)" by (cases c)
  have z: "semop_undos mem semid me sops sma s = (True, s)" if "u = 0"
    using semop_scan_undos[OF Inr[unfolded c]] that semop_undos_none[of sops mem semid me sma s] put_sma_same[OF assms(2)] by simp
  show ?thesis using assms Inr[unfolded c] z
    by (cases "semop_undos mem semid me sops sma s") (auto simp: sys_semop_def split: if_splits bool.splits)
qed

lemma semop_undos_vals:
  assumes "semop_undos mem semid me sops sma s = (ok, s1)" "sma_at semid s = Ipc sma" "length (ss_ary s) = 128"
  shows "map slot_vals (ss_ary s1) = map slot_vals (ss_ary s)" "length (ss_ary s1) = 128"
    "\<exists>un. sma_at semid s1 = Ipc (sma\<lparr>sa_undo := un\<rparr>) \<and> ss_ary s1 = (ss_ary s)[sem_slot semid := Ipc (sma\<lparr>sa_undo := un\<rparr>)]"
proof -
  obtain un where u: "ss_ary s1 = ss_ary (put_sma semid (Ipc (sma\<lparr>sa_undo := un\<rparr>)) s)"
    using semop_undos_frame[OF assms(1,3)] by (metis semary_state.ext_inject semary_state.surjective semary_state.update_convs(6-8))
  have "slot_vals (Ipc (sma\<lparr>sa_undo := un\<rparr>)) = slot_vals (sma_at semid s)" unfolding assms(2) by (simp add: slot_vals_def)
  then show "map slot_vals (ss_ary s1) = map slot_vals (ss_ary s)" unfolding u by (rule put_sma_vals)
  show "length (ss_ary s1) = 128" "\<exists>un. sma_at semid s1 = Ipc (sma\<lparr>sa_undo := un\<rparr>) \<and>
      ss_ary s1 = (ss_ary s)[sem_slot semid := Ipc (sma\<lparr>sa_undo := un\<rparr>)]"
    using assms(3) by (auto simp: u sma_at_def)
qed

text \<open>
  C14. The operations of one call on distinct semaphores are carried out all or none. When the call
  returns a value, each of them could be carried out and each semaphore has its value changed by just
  its operation, in the range from 0 to \<^verbatim>\<open>SEMVMX\<close>, and the others are as before; when it fails or
  sleeps, or up to the point where it leaves the array, no value of any array has changed.
\<close>

theorem semop_atomic:
  assumes "sys_semop mem semid tsops sops me t now s = (r, s')" "sma_at semid s = Ipc sma" "length (ss_ary s) = 128"
    "distinct (map sb_num sops)"
  shows "case r of
      Semop_ret v wn wz \<Rightarrow> \<exists>sma'. ss_ary s' = (ss_ary s)[sem_slot semid := Ipc sma'] \<and>
        length (sa_base sma') = length (sa_base sma) \<and>
        (\<forall>sop\<in>set sops. unat (sb_num sop) < length (sa_base sma) \<and>
           uint (se_val (sa_base sma' ! unat (sb_num sop))) = uint (se_val (sa_base sma ! unat (sb_num sop))) + sint (sb_op sop) \<and>
           uint (se_val (sa_base sma' ! unat (sb_num sop))) \<le> SEMVMX) \<and>
        (\<forall>n. n \<notin> (unat \<circ> sb_num) ` set sops \<longrightarrow> sa_base sma' ! n = sa_base sma ! n)
    | _ \<Rightarrow> map slot_vals (ss_ary s') = map slot_vals (ss_ary s)"
proof (cases "\<exists>v wn wz. r = Semop_ret v wn wz")
  case False
  have "map slot_vals (ss_ary s') = map slot_vals (ss_ary s)"
    using semop_cases[OF assms(1,2)] semop_undos_vals(1)[OF _ assms(2,3)] semop_slept_other[OF _ False] by (metis prod.collapse)
  then show ?thesis using False by (auto split: semop_out.split)
next
  case True
  then obtain v wn wz where r: "r = Semop_ret v wn wz" by blast
  then obtain ncnt s1 where 1: "semop_undos mem semid me sops sma s = (True, s1)"
    "semop_slept semid sops ncnt me t now s1 = (Semop_ret v wn wz, s')" using semop_cases[OF assms(1,2)] by auto
  obtain un where u: "sma_at semid s1 = Ipc (sma\<lparr>sa_undo := un\<rparr>)" "ss_ary s1 = (ss_ary s)[sem_slot semid := Ipc (sma\<lparr>sa_undo := un\<rparr>)]"
    using semop_undos_vals(3)[OF 1(1) assms(2,3)] by blast
  obtain base st z where b: "semop_check t (sa_base sma) sops = None"
    "semop_apply semid (word_of_int (t_pid t)) (ss_semun s1 me) sops (sa_base sma, ss_undo s1, 0) = (base, st, z)"
    "s' = (put_sma semid (Ipc (sma\<lparr>sa_undo := un, sa_base := base, sa_otime := now\<rparr>)) s1)\<lparr>ss_undo := st\<rparr>"
    by (rule semop_slept_ret[OF 1(2) u(1)]) simp
  have "ss_ary s' = (ss_ary s)[sem_slot semid := Ipc (sma\<lparr>sa_undo := un, sa_base := base, sa_otime := now\<rparr>)]"
    by (simp add: b(3) u(2))
  moreover have "uint (se_val (base ! unat (sb_num sop))) = uint (se_val (sa_base sma ! unat (sb_num sop))) + sint (sb_op sop)"
    if "sop \<in> set sops" for sop
    using semop_apply_vals[OF b(2) assms(4) that] b(1) that by (simp add: semop_check_None sint_op_nonneg)
  ultimately show ?thesis using b(1) semop_apply_frame[OF b(2)] unfolding r semop_check_None semop_out.case
    by (intro exI[of _ "sma\<lparr>sa_undo := un, sa_base := base, sa_otime := now\<rparr>"]) (auto simp: add.commute)
qed

section \<open>Undo\<close>

definition undo_list :: "(nat \<Rightarrow> sem_undo) \<Rightarrow> int \<Rightarrow> nat \<Rightarrow> nat list \<Rightarrow> bool" where
  "undo_list st semid nxt L \<longleftrightarrow> distinct (map (un_num \<circ> st) L) \<and>
     (\<forall>a\<in>set L. un_semid (st a) = semid \<and> un_semadj (st a) = 0 \<and> a < nxt)"

lemma find_un_None: "find_un st L semid n = None \<longleftrightarrow> (\<forall>a\<in>set L. \<not> (un_semid (st a) = semid \<and> un_num (st a) = n))"
  by (induction L) auto

lemma find_un_Some: "find_un st L semid n = Some a \<Longrightarrow> a \<in> set L \<and> un_semid (st a) = semid \<and> un_num (st a) = n"
  by (induction L) (auto split: if_splits)

lemma find_un_iff:
  assumes "distinct (map (un_num \<circ> st) L)" "a \<in> set L" "un_semid (st a) = semid"
  shows "find_un st L semid (un_num (st a)) = Some a"
proof (cases "find_un st L semid (un_num (st a))")
  case None
  then show ?thesis using assms by (auto simp: find_un_None)
next
  case (Some b)
  then show ?thesis using find_un_Some[OF Some] assms(1,2) by (auto simp: distinct_map dest!: inj_onD[of _ _ b a])
qed

lemma semop_undos_list:
  assumes "semop_undos mem semid me sops sma s = (True, s1)" "length (ss_ary s) = 128"
    "undo_list (ss_undo s) semid (ss_next s) (ss_semun s me)" "set (ss_semun s me) \<subseteq> set (sa_undo sma)"
  shows "undo_list (ss_undo s1) semid (ss_next s1) (ss_semun s1 me) \<and>
    (\<exists>un. sma_at semid s1 = Ipc (sma\<lparr>sa_undo := un\<rparr>) \<and> set (ss_semun s1 me) \<subseteq> set un) \<and>
    (\<forall>sop\<in>set sops. sop_flag sop SEM_UNDO \<longrightarrow> (\<exists>a\<in>set (ss_semun s1 me). un_num (ss_undo s1 a) = sb_num sop)) \<and>
    (\<forall>a\<in>set (ss_semun s me). a \<in> set (ss_semun s1 me) \<and> ss_undo s1 a = ss_undo s a) \<and>
    (\<forall>a\<in>set (ss_semun s1 me). a \<in> set (ss_semun s me) \<or> un_num (ss_undo s1 a) \<in> sb_num ` set sops)"
  using assms
proof (induction sops arbitrary: sma s)
  case Nil
  then show ?case by (auto simp: undo_list_def intro!: exI[of _ "sa_undo sma"])
next
  case (Cons sop sops)
  show ?case
  proof (cases "\<not> sop_flag sop SEM_UNDO \<or> find_un (ss_undo s) (ss_semun s me) semid (sb_num sop) \<noteq> None")
    case True
    have e: "semop_undos mem semid me sops sma s = (True, s1)" using Cons.prems(1) True by auto
    note I = Cons.IH[OF e Cons.prems(2-4)]
    have "\<exists>a\<in>set (ss_semun s1 me). un_num (ss_undo s1 a) = sb_num sop" if "sop_flag sop SEM_UNDO"
    proof -
      obtain a where a: "find_un (ss_undo s) (ss_semun s me) semid (sb_num sop) = Some a" using True \<open>sop_flag sop SEM_UNDO\<close> by auto
      show ?thesis using I find_un_Some[OF a] by (intro bexI[of _ a]) auto
    qed
    then show ?thesis using I by auto
  next
    case False
    let ?a = "ss_next s"
    let ?s = "s\<lparr>ss_next := Suc ?a, ss_undo := (ss_undo s)(?a := \<lparr>un_semid = semid, un_semadj = 0, un_num = sb_num sop\<rparr>),
             ss_semun := (ss_semun s)(me := ?a # ss_semun s me)\<rparr>"
    have e: "semop_undos mem semid me sops (sma\<lparr>sa_undo := ?a # sa_undo sma\<rparr>) ?s = (True, s1)"
      using Cons.prems(1) False by (auto simp: Let_def split: if_splits)
    have new: "?a \<notin> set (ss_semun s me)" using Cons.prems(3) by (auto simp: undo_list_def)
    have m: "map (un_num \<circ> ss_undo ?s) (ss_semun s me) = map (un_num \<circ> ss_undo s) (ss_semun s me)" using new by auto
    have d: "distinct (map (un_num \<circ> ss_undo ?s) (ss_semun s me))"
      unfolding m using Cons.prems(3) by (simp add: undo_list_def)
    have p: "length (ss_ary ?s) = 128" "undo_list (ss_undo ?s) semid (ss_next ?s) (ss_semun ?s me)"
      "set (ss_semun ?s me) \<subseteq> set (sa_undo (sma\<lparr>sa_undo := ?a # sa_undo sma\<rparr>))"
      using Cons.prems(2-4) False d new by (auto simp: undo_list_def find_un_None split: if_splits)
    note I = Cons.IH[OF e p]
    then have "?a \<in> set (ss_semun s1 me)" "ss_undo s1 ?a = \<lparr>un_semid = semid, un_semadj = 0, un_num = sb_num sop\<rparr>" by auto
    moreover have "\<exists>un. sma_at semid s1 = Ipc (sma\<lparr>sa_undo := un\<rparr>) \<and> set (ss_semun s1 me) \<subseteq> set un" using I by auto
    moreover from calculation have "\<exists>a\<in>set (ss_semun s1 me). un_num (ss_undo s1 a) = sb_num sop" by (intro bexI[of _ ?a]) auto
    moreover have "ss_undo ?s a = ss_undo s a" if "a \<in> set (ss_semun s me)" for a using that new by auto
    moreover note I
    ultimately show ?thesis by auto
  qed
qed

lemma semop_apply_undo:
  assumes "semop_apply semid pid L sops (base, st, z) = (base', st', z')"
    "distinct (map (un_num \<circ> st) L)" "\<forall>a\<in>set L. un_semid (st a) = semid" "a \<in> set L"
  shows "un_semid (st' a) = semid \<and> un_num (st' a) = un_num (st a) \<and>
    un_semadj (st' a) = un_semadj (st a) - (\<Sum>sop\<leftarrow>sops. if sop_flag sop SEM_UNDO \<and> sb_num sop = un_num (st a) then sb_op sop else 0)"
  using assms
proof (induction sops arbitrary: base st z)
  case (Cons sop sops)
  define st1 where "st1 = (if sop_flag sop SEM_UNDO
    then (case find_un st L semid (sb_num sop) of
            Some a \<Rightarrow> st(a := (st a)\<lparr>un_semadj := un_semadj (st a) - sb_op sop\<rparr>) | None \<Rightarrow> st) else st)"
  have k: "un_semid (st1 b) = un_semid (st b)" "un_num (st1 b) = un_num (st b)" for b
    by (simp_all add: st1_def split: option.split)
  have adj: "un_semadj (st1 a) = un_semadj (st a) - (if sop_flag sop SEM_UNDO \<and> sb_num sop = un_num (st a) then sb_op sop else 0)"
  proof (cases "sb_num sop = un_num (st a)")
    case True
    then show ?thesis using find_un_iff[OF Cons.prems(2,4)] Cons.prems(3,4) by (simp add: st1_def)
  next
    case False
    then have "find_un st L semid (sb_num sop) \<noteq> Some a" using find_un_Some by metis
    then show ?thesis using False by (auto simp: st1_def split: option.split)
  qed
  obtain b1 z1 where e: "semop_apply semid pid L sops (b1, st1, z1) = (base', st', z')"
    using Cons.prems(1) by (auto simp: Let_def st1_def)
  have "distinct (map (un_num \<circ> st1) L)" using Cons.prems(2) k(2) by (simp add: comp_def)
  from Cons.IH[OF e this] show ?case using Cons.prems(3,4) k adj by simp
qed simp

lemma sum_one:
  assumes "distinct (map sb_num sops)" "sop \<in> set sops" "\<forall>sop\<in>set sops. P sop"
  shows "(\<Sum>x\<leftarrow>sops. if P x \<and> sb_num x = sb_num sop then sb_op x else 0) = sb_op sop"
  using assms
proof (induction sops)
  case (Cons x xs)
  have z: "(\<Sum>y\<leftarrow>ys. if P y \<and> sb_num y = n then sb_op y else 0) = 0" if "n \<notin> sb_num ` set ys" for ys n
    using that by (induction ys) auto
  show ?case
  proof (cases "sop = x")
    case True
    then show ?thesis using Cons.prems z[of "sb_num x" xs] by simp
  next
    case False
    then show ?thesis using Cons by (auto simp: rev_image_eqI)
  qed
qed simp

lemma exit_one_ok:
  assumes "sma_at semid s = Ipc sma" "length (ss_ary s) = 128" "un_semid (ss_undo s a) = semid" "a \<in> set (sa_undo sma)"
    "sem_seq_ok (sa_perm sma) semid" "unat (un_num (ss_undo s a)) < length (sa_base sma)"
    "0 \<le> uint (se_val (sa_base sma ! unat (un_num (ss_undo s a)))) + sint (un_semadj (ss_undo s a))"
  shows "\<exists>s1 sma1 c. exit_one a t now s = (Exit_next, s1) \<and> ss_ary s1 = (ss_ary s)[sem_slot semid := Ipc sma1] \<and>
    ss_undo s1 = ss_undo s \<and> ss_semun s1 = ss_semun s \<and> sa_perm sma1 = sa_perm sma \<and> sa_undo sma1 = remove1 a (sa_undo sma) \<and>
    sa_base sma1 = (sa_base sma)[unat (un_num (ss_undo s a)) := c] \<and>
    se_val c = se_val (sa_base sma ! unat (un_num (ss_undo s a))) + un_semadj (ss_undo s a)"
proof (cases "un_semadj (ss_undo s a) = 0")
  case True
  then show ?thesis using assms by (auto simp: exit_one_def Let_def intro!: exI[of _ "sma\<lparr>sa_undo := remove1 a (sa_undo sma)\<rparr>"]
    exI[of _ "sa_base sma ! unat (un_num (ss_undo s a))"])
next
  case False
  then show ?thesis using assms by (auto simp: exit_one_def exit_adjust_def Let_def intro!: exI)
qed

lemma exit_loop_ok:
  assumes "sma_at semid s = Ipc sma" "length (ss_ary s) = 128" "sem_seq_ok (sa_perm sma) semid"
    "distinct (map (un_num \<circ> ss_undo s) L)" "set L \<subseteq> set (sa_undo sma)"
    "\<forall>a\<in>set L. un_semid (ss_undo s a) = semid \<and> unat (un_num (ss_undo s a)) < length (sa_base sma) \<and>
       0 \<le> uint (se_val (sa_base sma ! unat (un_num (ss_undo s a)))) + sint (un_semadj (ss_undo s a))"
  shows "\<exists>s' sma'. exit_loop L t now s = (None, s') \<and> ss_ary s' = (ss_ary s)[sem_slot semid := Ipc sma'] \<and>
    ss_semun s' = ss_semun s \<and> length (sa_base sma') = length (sa_base sma) \<and>
    (\<forall>n. n \<notin> (unat \<circ> un_num \<circ> ss_undo s) ` set L \<longrightarrow> sa_base sma' ! n = sa_base sma ! n) \<and>
    (\<forall>a\<in>set L. se_val (sa_base sma' ! unat (un_num (ss_undo s a))) =
       se_val (sa_base sma ! unat (un_num (ss_undo s a))) + un_semadj (ss_undo s a))"
  using assms
proof (induction L arbitrary: s sma)
  case Nil
  then show ?case using list_update_id[of "ss_ary s" "sem_slot semid"] by (auto simp: sma_at_def intro!: exI[of _ sma])
next
  case (Cons a L)
  let ?n = "\<lambda>b. unat (un_num (ss_undo s b))"
  from Cons.prems obtain s1 sma1 c where 1: "exit_one a t now s = (Exit_next, s1)" "ss_ary s1 = (ss_ary s)[sem_slot semid := Ipc sma1]"
    "ss_undo s1 = ss_undo s" "ss_semun s1 = ss_semun s" "sa_perm sma1 = sa_perm sma" "sa_undo sma1 = remove1 a (sa_undo sma)"
    "sa_base sma1 = (sa_base sma)[?n a := c]" "se_val c = se_val (sa_base sma ! ?n a) + un_semadj (ss_undo s a)"
    using exit_one_ok[OF Cons.prems(1,2), of a t now] by auto
  have na: "?n b \<noteq> ?n a" "b \<noteq> a" if "b \<in> set L" for b using Cons.prems(4) that by (auto simp: word_unat_eq_iff rev_image_eqI)
  have att: "sma_at semid s1 = Ipc sma1" "length (ss_ary s1) = 128" using Cons.prems(2) by (simp_all add: sma_at_def 1(2))
  have "set L \<subseteq> set (sa_undo sma1)" using Cons.prems(5) na(2) by (auto simp: 1(6))
  moreover have "\<forall>b\<in>set L. un_semid (ss_undo s1 b) = semid \<and> unat (un_num (ss_undo s1 b)) < length (sa_base sma1) \<and>
       0 \<le> uint (se_val (sa_base sma1 ! unat (un_num (ss_undo s1 b)))) + sint (un_semadj (ss_undo s1 b))"
    using Cons.prems(6) by (auto simp: 1(3,7) na(1)[THEN not_sym])
  ultimately obtain s' sma' where 2: "exit_loop L t now s1 = (None, s')" "ss_ary s' = (ss_ary s1)[sem_slot semid := Ipc sma']"
    "ss_semun s' = ss_semun s1" "length (sa_base sma') = length (sa_base sma1)"
    "\<forall>n. n \<notin> (unat \<circ> un_num \<circ> ss_undo s1) ` set L \<longrightarrow> sa_base sma' ! n = sa_base sma1 ! n"
    "\<forall>b\<in>set L. se_val (sa_base sma' ! ?n b) = se_val (sa_base sma1 ! ?n b) + un_semadj (ss_undo s b)"
    using Cons.IH[OF att] Cons.prems(3,4) by (auto simp: 1(3,5))
  have a: "?n a < length (sa_base sma)" "?n a \<notin> (unat \<circ> un_num \<circ> ss_undo s) ` set L" using Cons.prems(6) na(1) by (simp, force)
  have "se_val (sa_base sma' ! ?n b) = se_val (sa_base sma ! ?n b) + un_semadj (ss_undo s b)" if "b \<in> set (a # L)" for b
    using that 2(5,6) a na(1)[THEN not_sym] by (cases "b = a") (auto simp: 1(3,7,8))
  moreover have "sa_base sma' ! n = sa_base sma ! n" if "n \<notin> (unat \<circ> un_num \<circ> ss_undo s) ` set (a # L)" for n
    using that 2(5) by (auto simp: 1(3,7))
  ultimately show ?case using 1(1,2,4,7) 2(1-4) by (auto intro!: exI[of _ sma'])
qed

lemma sint_minus16:
  assumes "- 32768 < sint (p :: u16)"
  shows "sint (- p) = - sint p"
proof -
  have e: "- p = word_of_int (- sint p)" by simp
  have "sint p < 32768" using sint_lt[of p] by simp
  then show ?thesis using assms unfolding e by (simp only: sint_sbintrunc') (simp add: signed_take_bit_int_eq_self)
qed

text \<open>
  C19. A call whose operations all ask for undo is undone when the process exits: if it had no undo
  structures before and nothing else happened in between, every semaphore of every array has its old
  value again, and the process exits without sleeping.
\<close>

theorem semop_undone_at_exit:
  assumes "sys_semop mem semid tsops sops me t now s = (Semop_ret v wn wz, s1)"
    "sma_at semid s = Ipc sma" "length (ss_ary s) = 128" "distinct (map sb_num sops)" "ss_semun s me = []"
    "\<forall>sop\<in>set sops. sop_flag sop SEM_UNDO" "\<forall>c\<in>set (sa_base sma). uint (se_val c) \<le> SEMVMX"
  shows "\<exists>s2. sem_exit me t' now' s1 = (None, s2) \<and> map slot_vals (ss_ary s2) = map slot_vals (ss_ary s) \<and> ss_semun s2 me = []"
proof -
  from semop_cases[OF assms(1,2)] obtain ncnt sa where 1: "semop_undos mem semid me sops sma s = (True, sa)"
    "semop_slept semid sops ncnt me t now sa = (Semop_ret v wn wz, s1)" by auto
  let ?L = "ss_semun sa me"
  have "undo_list (ss_undo s) semid (ss_next s) (ss_semun s me)" "set (ss_semun s me) \<subseteq> set (sa_undo sma)"
    by (simp_all add: undo_list_def assms(5))
  note U = semop_undos_list[OF 1(1) assms(3) this]
  obtain un where u: "sma_at semid sa = Ipc (sma\<lparr>sa_undo := un\<rparr>)" "set ?L \<subseteq> set un" using U by auto
  have d: "distinct (map (un_num \<circ> ss_undo sa) ?L)" "\<forall>a\<in>set ?L. un_semid (ss_undo sa a) = semid \<and> un_semadj (ss_undo sa a) = 0"
    using U by (auto simp: undo_list_def)
  obtain base st z where b: "semop_check t (sa_base sma) sops = None"
    "semop_apply semid (word_of_int (t_pid t)) ?L sops (sa_base sma, ss_undo sa, 0) = (base, st, z)"
    "s1 = (put_sma semid (Ipc (sma\<lparr>sa_undo := un, sa_base := base, sa_otime := now\<rparr>)) sa)\<lparr>ss_undo := st\<rparr>"
    "sem_seq_ok (sa_perm sma) semid"
    by (rule semop_slept_ret[OF 1(2) u(1)]) simp
  let ?sma1 = "sma\<lparr>sa_undo := un, sa_base := base, sa_otime := now\<rparr>"
  note frame = semop_apply_frame[OF b(2)]
  have len: "length (ss_ary sa) = 128" using semop_undos_vals(2)[OF 1(1) assms(2,3)] .
  have st: "un_semid (st a) = semid \<and> un_num (st a) = un_num (ss_undo sa a) \<and> (\<exists>sop\<in>set sops. un_num (st a) = sb_num sop \<and> un_semadj (st a) = - sb_op sop)"
    if a: "a \<in> set ?L" for a
  proof -
    obtain sop where s: "sop \<in> set sops" "un_num (ss_undo sa a) = sb_num sop" using U a assms(5) by auto
    show ?thesis using semop_apply_undo[OF b(2) d(1) _ a] d(2) a s sum_one[OF assms(4) s(1) assms(6)] by auto
  qed
  have vals: "unat (sb_num sop) < length (sa_base sma)"
    "se_val (base ! unat (sb_num sop)) = se_val (sa_base sma ! unat (sb_num sop)) + sb_op sop"
    "0 \<le> uint (se_val (base ! unat (sb_num sop))) + sint (- sb_op sop)" if s: "sop \<in> set sops" for sop
  proof -
    let ?v = "se_val (sa_base sma ! unat (sb_num sop))"
    have c: "unat (sb_num sop) < length (sa_base sma)" "0 \<le> sint (sb_op sop) + uint ?v" "sint (sb_op sop) + uint ?v \<le> SEMVMX"
      using b(1) s by (auto simp: semop_check_None)
    have "uint ?v \<le> 32767" using assms(7) nth_mem[OF c(1)] by (auto simp: kconst)
    then have m: "sint (- sb_op sop) = - sint (sb_op sop)" using c(2) by (intro sint_minus16) linarith
    show "unat (sb_num sop) < length (sa_base sma)" by (rule c)
    show v: "se_val (base ! unat (sb_num sop)) = ?v + sb_op sop" by (rule semop_apply_vals[OF b(2) assms(4) s c(1)])
    show "0 \<le> uint (se_val (base ! unat (sb_num sop))) + sint (- sb_op sop)" unfolding v m sint_op_nonneg[OF c(2,3)] by simp
  qed
  have "\<exists>s' sma'. exit_loop ?L t' now' s1 = (None, s') \<and> ss_ary s' = (ss_ary s1)[sem_slot semid := Ipc sma'] \<and>
    ss_semun s' = ss_semun s1 \<and> length (sa_base sma') = length (sa_base ?sma1) \<and>
    (\<forall>n. n \<notin> (unat \<circ> un_num \<circ> ss_undo s1) ` set ?L \<longrightarrow> sa_base sma' ! n = sa_base ?sma1 ! n) \<and>
    (\<forall>a\<in>set ?L. se_val (sa_base sma' ! unat (un_num (ss_undo s1 a))) =
       se_val (sa_base ?sma1 ! unat (un_num (ss_undo s1 a))) + un_semadj (ss_undo s1 a))"
  proof (rule exit_loop_ok)
    show "sma_at semid s1 = Ipc ?sma1" "length (ss_ary s1) = 128" using len by (simp_all add: b(3) sma_at_def)
    show "sem_seq_ok (sa_perm ?sma1) semid" "set ?L \<subseteq> set (sa_undo ?sma1)" using b(4) u(2) by simp_all
    have "map (un_num \<circ> st) ?L = map (un_num \<circ> ss_undo sa) ?L" using st by simp
    with d(1) have "distinct (map (un_num \<circ> st) ?L)" by (simp only:)
    then show "distinct (map (un_num \<circ> ss_undo s1) ?L)" by (simp add: b(3))
    show "\<forall>a\<in>set ?L. un_semid (ss_undo s1 a) = semid \<and> unat (un_num (ss_undo s1 a)) < length (sa_base ?sma1) \<and>
       0 \<le> uint (se_val (sa_base ?sma1 ! unat (un_num (ss_undo s1 a)))) + sint (un_semadj (ss_undo s1 a))"
      using st vals frame(1) by (fastforce simp: b(3))
  qed
  then obtain s' sma' where x: "exit_loop ?L t' now' s1 = (None, s')" "ss_ary s' = (ss_ary s1)[sem_slot semid := Ipc sma']"
    "length (sa_base sma') = length base"
    "\<forall>n. n \<notin> (unat \<circ> un_num \<circ> st) ` set ?L \<longrightarrow> sa_base sma' ! n = base ! n"
    "\<forall>a\<in>set ?L. se_val (sa_base sma' ! unat (un_num (st a))) = se_val (base ! unat (un_num (st a))) + un_semadj (st a)"
    by (auto simp: b(3))
  have "se_val (sa_base sma' ! n) = se_val (sa_base sma ! n)" for n
  proof (cases "\<exists>a\<in>set ?L. n = unat (un_num (st a))")
    case True
    then obtain a sop where a: "a \<in> set ?L" "n = unat (un_num (st a))" "sop \<in> set sops" "un_num (st a) = sb_num sop" "un_semadj (st a) = - sb_op sop"
      using st by blast
    have "se_val (sa_base sma' ! unat (un_num (st a))) = se_val (base ! unat (un_num (st a))) + un_semadj (st a)" using x(5) a(1) by blast
    then show ?thesis using vals(2)[OF a(3)] by (simp add: a(2,4,5))
  next
    case False
    have "n \<notin> (unat \<circ> sb_num) ` set sops"
    proof
      assume "n \<in> (unat \<circ> sb_num) ` set sops"
      then obtain sop where s: "sop \<in> set sops" "n = unat (sb_num sop)" by auto
      then obtain a where "a \<in> set ?L" "un_num (ss_undo sa a) = sb_num sop" using U assms(6) by blast
      then show False using False s st by metis
    qed
    moreover have "sa_base sma' ! n = base ! n" using x(4) False by auto
    ultimately show ?thesis using frame(2) by simp
  qed
  then have "slot_vals (Ipc sma') = slot_vals (sma_at semid s)"
    unfolding assms(2) using x(3) frame(1) by (auto simp: slot_vals_def intro!: nth_equalityI)
  note v = put_sma_vals[OF this]
  have "ss_ary s' = ss_ary (put_sma semid (Ipc sma') s)"
    using semop_undos_vals(3)[OF 1(1) assms(2,3)] x(2) by (auto simp: b(3))
  then show ?thesis using x(1) v by (simp add: sem_exit_def exit_semun_def b(3))
qed

section \<open>Limits\<close>

definition ary_ok :: "semid_ds ipc_slot \<Rightarrow> bool" where
  "ary_ok x \<longleftrightarrow> (case x of Ipc sma \<Rightarrow> int (length (sa_base sma)) = uint (sa_nsems sma) \<and> 0 < uint (sa_nsems sma) \<and> uint (sa_nsems sma) \<le> SEMMSL | _ \<Rightarrow> True)"

definition slot_sems :: "semid_ds ipc_slot \<Rightarrow> int" where
  "slot_sems x = (case x of Ipc sma \<Rightarrow> uint (sa_nsems sma) | _ \<Rightarrow> 0)"

definition slot_used :: "semid_ds ipc_slot \<Rightarrow> int" where
  "slot_used x = (case x of Ipc _ \<Rightarrow> 1 | _ \<Rightarrow> 0)"

text \<open>
  The table, with \<open>k\<close> semaphores reserved for arrays that are being set up in the slots of the set \<open>N\<close>.
\<close>

definition sems_ok :: "int \<Rightarrow> nat set \<Rightarrow> semary_state \<Rightarrow> bool" where
  "sems_ok k N s \<longleftrightarrow> length (ss_ary s) = 128 \<and> (\<forall>x\<in>set (ss_ary s). ary_ok x) \<and>
     ss_sems s = (\<Sum>x\<leftarrow>ss_ary s. slot_sems x) + k \<and> ss_ids s = (\<Sum>x\<leftarrow>ss_ary s. slot_used x) \<and> ss_sems s \<le> SEMMNS \<and>
     (\<forall>i. i \<in> N \<longleftrightarrow> i < 128 \<and> ss_ary s ! i = IPC_NOID)"

lemma sems_ok_put:
  assumes "sems_ok k N s" "i < 128" "ary_ok x" "ss_ary s' = (ss_ary s)[i := x]"
    "ss_sems s' = ss_sems s + (slot_sems x + k') - (slot_sems (ss_ary s ! i) + k)"
    "ss_ids s' = ss_ids s + slot_used x - slot_used (ss_ary s ! i)" "ss_sems s' \<le> SEMMNS"
    "N' = (if x = IPC_NOID then insert i N else N - {i})"
  shows "sems_ok k' N' s'"
proof -
  have l: "length (ss_ary s) = 128" using assms(1) by (simp add: sems_ok_def)
  have "\<forall>y\<in>set (ss_ary s'). ary_ok y"
    using assms(1,3) set_update_subset_insert[of "ss_ary s" i x] unfolding assms(4) sems_ok_def by blast
  moreover have "\<forall>j. j \<in> N' \<longleftrightarrow> j < 128 \<and> ss_ary s' ! j = IPC_NOID"
    using assms(1,2) l unfolding assms(4,8) by (auto simp: sems_ok_def nth_list_update)
  ultimately show ?thesis using assms(1-7) l by (simp add: sems_ok_def sum_list_update_int)
qed

lemma sems_ok_same:
  assumes "sems_ok k N s" "sma_at semid s = Ipc sma" "length (sa_base sma1) = length (sa_base sma)" "sa_nsems sma1 = sa_nsems sma"
    "ss_ary s' = (ss_ary s)[sem_slot semid := Ipc sma1]" "ss_sems s' = ss_sems s" "ss_ids s' = ss_ids s"
  shows "sems_ok k N s'"
proof (rule sems_ok_put[OF assms(1) sem_slot_lt _ assms(5)])
  have x: "ss_ary s ! sem_slot semid = Ipc sma" using assms(2) by (simp add: sma_at_def)
  have "sem_slot semid < length (ss_ary s)" using assms(1) by (simp add: sems_ok_def)
  then have "ary_ok (Ipc sma)" using assms(1) x nth_mem[of "sem_slot semid" "ss_ary s"] by (simp add: sems_ok_def)
  then show "ary_ok (Ipc sma1)" by (simp add: ary_ok_def assms(3,4))
  show "ss_sems s' = ss_sems s + (slot_sems (Ipc sma1) + k) - (slot_sems (ss_ary s ! sem_slot semid) + k)"
    "ss_ids s' = ss_ids s + slot_used (Ipc sma1) - slot_used (ss_ary s ! sem_slot semid)"
    by (simp_all add: x slot_sems_def slot_used_def assms(4,6,7))
  show "ss_sems s' \<le> SEMMNS" using assms(1,6) by (simp add: sems_ok_def)
  show "N = (if Ipc sma1 = IPC_NOID then insert (sem_slot semid) N else N - {sem_slot semid})"
    using assms(1) x by (auto simp: sems_ok_def)
qed

lemma newary_reserve_ok:
  assumes "sems_ok k N s" "newary_reserve nsems s = (Inr i, s')"
  shows "sems_ok (k + nsems) (insert i N) s'" "i < 128" "i \<notin> N" "nsems \<noteq> 0"
proof -
  have i: "unused_slot (ss_ary s) = Some i" "nsems \<noteq> 0" "ss_sems s + nsems \<le> SEMMNS"
    and s': "s' = s\<lparr>ss_ary := (ss_ary s)[i := IPC_NOID], ss_sems := ss_sems s + nsems\<rparr>"
    using assms(2) by (auto simp: newary_reserve_def split: if_splits option.splits)
  have l: "i < 128" "ss_ary s ! i = IPC_UNUSED" using unused_slot_Some[OF i(1)] assms(1) by (simp_all add: sems_ok_def)
  show "sems_ok (k + nsems) (insert i N) s'"
    by (rule sems_ok_put[OF assms(1) l(1), of IPC_NOID]) (use i l in \<open>simp_all add: s' ary_ok_def slot_sems_def slot_used_def\<close>)
  show "i < 128" "i \<notin> N" "nsems \<noteq> 0" using l i assms(1) by (simp_all add: sems_ok_def)
qed

lemma newary_fill_ok:
  assumes "sems_ok k N s" "i \<in> N" "0 < nsems" "nsems \<le> SEMMSL" "newary_fill mem i key nsems semflg t now s = (r, s')"
  shows "sems_ok (k - nsems) (N - {i}) s'"
proof -
  have l: "i < 128" "i < length (ss_ary s)" "ss_ary s ! i = IPC_NOID" "ss_sems s \<le> SEMMNS" using assms(1,2) by (simp_all add: sems_ok_def)
  have n: "uint (word_of_int nsems :: u16) = nsems" unfolding uint_word_of_int using assms(3,4) by (simp add: kconst)
  have x: "ary_ok (ss_ary s' ! i)" "ss_ary s' = (ss_ary s)[i := ss_ary s' ! i]" "ss_ary s' ! i \<noteq> IPC_NOID" "ss_sems s' \<le> SEMMNS"
      "ss_sems s' = ss_sems s + (slot_sems (ss_ary s' ! i) + (k - nsems)) - (slot_sems (ss_ary s ! i) + k)"
      "ss_ids s' = ss_ids s + slot_used (ss_ary s' ! i) - slot_used (ss_ary s ! i)"
    using assms(3-5) l n by (auto simp: newary_fill_def Let_def ary_ok_def slot_sems_def slot_used_def split: if_splits)
  show ?thesis by (rule sems_ok_put[OF assms(1) l(1) x(1,2,5,6,4)]) (use x(3) in simp)
qed

lemma length_set_vals [simp]: "length (set_vals bs vs) = length bs"
  by (induction bs vs rule: set_vals.induct) simp_all

lemma semctl_do_ok:
  assumes "sems_ok k N s" "sma_at semid s = Ipc sma"
  shows "sems_ok k N (snd (semctl_do semid n sma cmd argv vals tperm t now s))"
proof -
  have "sems_ok k N ((put_sma semid (Ipc sma1) s)\<lparr>ss_undo := st\<rparr>) \<and> sems_ok k N (put_sma semid (Ipc sma1) s)"
    if "length (sa_base sma1) = length (sa_base sma)" "sa_nsems sma1 = sa_nsems sma" for sma1 st
    using sems_ok_same[OF assms that] by simp
  then show ?thesis using assms(1) by (simp add: semctl_do_def)
qed

lemma freeary_ok:
  assumes "sems_ok k N s" "sma_at semid s = Ipc sma"
  shows "sems_ok k N (freeary (sem_slot semid) sma s)"
proof (rule sems_ok_put[OF assms(1), where i = "sem_slot semid" and x = IPC_UNUSED])
  have x: "ss_ary s ! sem_slot semid = Ipc sma" using assms(2) by (simp add: sma_at_def)
  show "ss_sems (freeary (sem_slot semid) sma s) = ss_sems s + (slot_sems IPC_UNUSED + k) - (slot_sems (ss_ary s ! sem_slot semid) + k)"
    "ss_ids (freeary (sem_slot semid) sma s) = ss_ids s + slot_used IPC_UNUSED - slot_used (ss_ary s ! sem_slot semid)"
    by (simp_all add: x slot_sems_def slot_used_def freeary_def)
  show "N = (if IPC_UNUSED = IPC_NOID then insert (sem_slot semid) N else N - {sem_slot semid})"
    using assms(1) x by (auto simp: sems_ok_def)
  have "ss_sems s \<le> SEMMNS" using assms(1) by (simp add: sems_ok_def)
  then show "ss_sems (freeary (sem_slot semid) sma s) \<le> SEMMNS"
    using order_trans[OF diff_mono[OF order_refl uint_ge_0[of "sa_nsems sma"]], of "ss_sems s"] by (simp add: freeary_def)
qed (simp_all add: ary_ok_def freeary_def)

lemma semctl_ok:
  assumes "sems_ok k N s"
  shows "semctl_enter va semid semnum cmd arg argv vals t s = Some (r, s') \<Longrightarrow> sems_ok k N s'"
    "sems_ok k N (snd (semctl_finish semid semnum cmd argv vals tperm t now s))"
proof -
  show "sems_ok k N s'" if e: "semctl_enter va semid semnum cmd arg argv vals t s = Some (r, s')"
  proof (cases "sma_at semid s")
    case (Ipc sma)
    have "s' \<in> {s, freeary (sem_slot semid) sma s}"
      using Ipc e by (cases "semctl_first va semid cmd arg argv t s"; cases "semctl_check va sma (sa_base sma ! nat semnum) cmd arg argv vals t")
        (simp_all add: semctl_enter_def split: if_splits)
    then show ?thesis using assms freeary_ok[OF assms Ipc] by auto
  qed (use assms e in \<open>simp_all add: semctl_enter_def split: option.splits if_splits\<close>)
  show "sems_ok k N (snd (semctl_finish semid semnum cmd argv vals tperm t now s))"
    using assms semctl_do_ok[OF assms] by (simp add: semctl_finish_def split: ipc_slot.split)
qed

lemma recount_ok:
  assumes "sems_ok k N s" "sma_at semid s = Ipc sma"
  shows "sems_ok k N (semop_recount semid zero n d sma s)"
  by (rule sems_ok_same[OF assms, of "sma\<lparr>sa_base := (sa_base sma)[n := sem_count zero d (sa_base sma ! n)]\<rparr>"]) (simp_all add: semop_recount_def)

lemma semop_slept_ok:
  assumes "sems_ok k N s"
  shows "sems_ok k N (snd (semop_slept semid sops ncnt me t now s))"
proof (cases "sma_at semid s")
  case (Ipc sma)
  show ?thesis
  proof (cases "semop_check t (sa_base sma) sops")
    case None
    obtain base st z where b: "semop_apply semid (word_of_int (t_pid t)) (ss_semun s me) sops (sa_base sma, ss_undo s, 0) = (base, st, z)"
      by (rule prod_cases3)
    show ?thesis
    proof (cases "sem_seq_ok (sa_perm sma) semid")
      case True
      show ?thesis
        by (rule sems_ok_same[OF assms Ipc, of "sma\<lparr>sa_base := base, sa_otime := now\<rparr>"])
          (use Ipc None b True semop_apply_frame(1)[OF b] in \<open>simp_all add: semop_slept_def\<close>)
    qed (use assms Ipc in \<open>simp add: semop_slept_def\<close>)
  next
    case (Some r)
    then show ?thesis using assms Ipc recount_ok[OF assms Ipc] by (simp add: semop_slept_def split: semop_out.split)
  qed
qed (use assms in \<open>simp_all add: semop_slept_def\<close>)

lemma semop_undos_ok:
  assumes "sems_ok k N s" "sma_at semid s = Ipc sma"
  shows "sems_ok k N (snd (semop_undos mem semid me sops sma s))"
proof -
  obtain r s1 where e: "semop_undos mem semid me sops sma s = (r, s1)" by fastforce
  have l: "length (ss_ary s) = 128" using assms(1) by (simp add: sems_ok_def)
  obtain un where u: "s1 = (put_sma semid (Ipc (sma\<lparr>sa_undo := un\<rparr>)) s)\<lparr>ss_undo := ss_undo s1, ss_semun := ss_semun s1, ss_next := ss_next s1\<rparr>"
    using semop_undos_frame[OF e l] by blast
  have "sems_ok k N ((put_sma semid (Ipc (sma\<lparr>sa_undo := un\<rparr>)) s)\<lparr>ss_undo := ss_undo s1, ss_semun := ss_semun s1, ss_next := ss_next s1\<rparr>)"
    by (rule sems_ok_same[OF assms, of "sma\<lparr>sa_undo := un\<rparr>"]) simp_all
  then show ?thesis using u by (simp add: e)
qed

lemma semop_ok:
  assumes "sems_ok k N s"
  shows "sems_ok k N (snd (sys_semop mem semid tsops sops me t now s))"
proof (cases "sma_at semid s")
  case (Ipc sma)
  obtain r s' where e: "sys_semop mem semid tsops sops me t now s = (r, s')" by fastforce
  show ?thesis using semop_cases[OF e Ipc] semop_undos_ok[OF assms Ipc, of mem me sops] semop_slept_ok[of k N _ semid sops _ me t now] assms
    by (auto simp: e) (metis snd_conv)+
qed (use assms in \<open>simp_all add: sys_semop_def\<close>)

lemma semop_awake_ok: "sems_ok k N s \<Longrightarrow> sems_ok k N (snd (semop_awake semid zero n sops ncnt me t now s))"
  by (cases "sma_at semid s") (simp_all add: semop_awake_def semop_slept_ok recount_ok)

lemma exit_adjust_ok:
  assumes "sems_ok k N s"
  shows "sems_ok k N (snd (exit_adjust a t now s))"
proof (cases "sma_at (un_semid (ss_undo s a)) s")
  case (Ipc sma)
  have "sems_ok k N (put_sma (un_semid (ss_undo s a)) (Ipc (sma\<lparr>sa_base := (sa_base sma)[n := c], sa_otime := now\<rparr>)) s)" for n c
    by (rule sems_ok_same[OF assms Ipc, of "sma\<lparr>sa_base := (sa_base sma)[n := c], sa_otime := now\<rparr>"]) simp_all
  then show ?thesis using assms Ipc recount_ok[OF assms Ipc] by (simp add: exit_adjust_def Let_def)
qed (use assms in \<open>simp_all add: exit_adjust_def\<close>)

lemma exit_one_inv:
  assumes "sems_ok k N s"
  shows "sems_ok k N (snd (exit_one a t now s))"
proof (cases "sma_at (un_semid (ss_undo s a)) s")
  case (Ipc sma)
  have "sems_ok k N (put_sma (un_semid (ss_undo s a)) (Ipc (sma\<lparr>sa_undo := un\<rparr>)) s)" for un
    by (rule sems_ok_same[OF assms Ipc, of "sma\<lparr>sa_undo := un\<rparr>"]) simp_all
  then show ?thesis using assms Ipc by (simp add: exit_one_def Let_def exit_adjust_ok)
qed (use assms in \<open>simp_all add: exit_one_def\<close>)

lemma exit_loop_inv: "sems_ok k N s \<Longrightarrow> sems_ok k N (snd (exit_loop as t now s))"
proof (induction as arbitrary: s)
  case (Cons a as)
  obtain r s1 where e: "exit_one a t now s = (r, s1)" by fastforce
  have "sems_ok k N s1" using exit_one_inv[OF Cons.prems, of a t now] by (simp add: e)
  then show ?case using Cons.IH by (cases r) (simp_all add: e)
qed simp

lemma exit_semun_ok: "sems_ok k N (snd x) \<Longrightarrow> sems_ok k N (snd (exit_semun me x))"
  by (cases x; cases "fst x") (auto simp: exit_semun_def sems_ok_def split: prod.split)

lemma sem_exit_ok: "sems_ok k N s \<Longrightarrow> sems_ok k N (snd (sem_exit me t now s))"
  by (simp add: sem_exit_def exit_semun_ok exit_loop_inv)

lemma exit_resume_ok:
  assumes "sems_ok k N s"
  shows "sems_ok k N (snd (exit_resume me a as n t now s))"
proof -
  let ?id = "un_semid (ss_undo s a)"
  define s1 where "s1 = (case sma_at ?id s of
    Ipc sma \<Rightarrow> if sem_seq_ok (sa_perm sma) ?id then semop_recount ?id False n (- 1) sma s else s | _ \<Rightarrow> s)"
  have 1: "sems_ok k N s1" using assms recount_ok[OF assms] by (simp add: s1_def split: ipc_slot.split)
  obtain r s2 where e: "exit_adjust a t now s1 = (r, s2)" by fastforce
  have "sems_ok k N s2" using exit_adjust_ok[OF 1, of a t now] by (simp add: e)
  then show ?thesis using exit_loop_inv[of k N s2 as t now]
    unfolding exit_resume_def s1_def[symmetric] Let_def e by (intro exit_semun_ok) (cases r; simp)
qed

text \<open>
  The calls in progress whose state matters to the counters: one that allocates a new array, and a \<^verbatim>\<open>semctl\<close>
  that copies its arguments. Other calls run meanwhile. A task that sleeps in \<^verbatim>\<open>semop\<close> or at exit has its
  changes made, and goes on at any time.
\<close>

datatype sem_call = New_alloc nat int int u32 task_struct | Ctl_copy int int int u32 "u16 list" ipc_perm task_struct

inductive semv_step :: "semary_state \<times> sem_call list \<Rightarrow> semary_state \<times> sem_call list \<Rightarrow> bool" where
  get_start: "0 \<le> nsems \<Longrightarrow> nsems \<le> SEMMSL \<Longrightarrow> newary_reserve nsems s = (Inr i, s') \<Longrightarrow>
    semv_step (s, P) (s', New_alloc i nsems key semflg t # P)"
| get_end: "c = New_alloc i nsems key semflg t \<Longrightarrow> c \<in> set P \<Longrightarrow> newary_fill mem i key nsems semflg t now s = (r, s') \<Longrightarrow>
    semv_step (s, P) (s', remove1 c P)"
| ctl_done: "semctl_enter va semid semnum cmd arg argv vals t s = Some (r, s') \<Longrightarrow> semv_step (s, P) (s', P)"
| ctl_start: "semctl_enter va semid semnum cmd arg argv vals t s = None \<Longrightarrow>
    semv_step (s, P) (s, Ctl_copy semid semnum cmd argv vals tperm t # P)"
| ctl_end: "c = Ctl_copy semid semnum cmd argv vals tperm t \<Longrightarrow> c \<in> set P \<Longrightarrow>
    semv_step (s, P) (snd (semctl_finish semid semnum cmd argv vals tperm t now s), remove1 c P)"
| op: "semv_step (s, P) (snd (sys_semop mem semid tsops sops me t now s), P)"
| awake: "semv_step (s, P) (snd (semop_awake semid zero n sops ncnt me t now s), P)"
| exit: "semv_step (s, P) (snd (sem_exit me t now s), P)"
| resume: "semv_step (s, P) (snd (exit_resume me a as n t now s), P)"

definition call_sems :: "sem_call \<Rightarrow> int" where
  "call_sems c = (case c of New_alloc _ nsems _ _ _ \<Rightarrow> nsems | _ \<Rightarrow> 0)"

definition is_new :: "nat \<Rightarrow> sem_call \<Rightarrow> bool" where
  "is_new i c \<longleftrightarrow> (case c of New_alloc j _ _ _ _ \<Rightarrow> i = j | _ \<Rightarrow> False)"

definition new_ok :: "sem_call \<Rightarrow> bool" where
  "new_ok c \<longleftrightarrow> (case c of New_alloc i nsems _ _ _ \<Rightarrow> 0 < nsems \<and> nsems \<le> SEMMSL | _ \<Rightarrow> True)"

definition semv_inv :: "semary_state \<times> sem_call list \<Rightarrow> bool" where
  "semv_inv x \<longleftrightarrow> (case x of (s, P) \<Rightarrow>
     (\<exists>N. sems_ok (sum_list (map call_sems P)) N s \<and> (\<forall>i. cnt (is_new i) P = (if i \<in> N then 1 else 0))) \<and> (\<forall>c\<in>set P. new_ok c))"

lemma semv_invI:
  assumes "sems_ok k N s" "k = sum_list (map call_sems P)" "\<And>i. cnt (is_new i) P = (if i \<in> N then 1 else 0)" "\<forall>c\<in>set P. new_ok c"
  shows "semv_inv (s, P)"
  using assms by (auto simp: semv_inv_def)

lemma semv_step_ok: "semv_step x y \<Longrightarrow> semv_inv x \<Longrightarrow> semv_inv y"
proof (induction rule: semv_step.induct)
  case (get_start nsems s i s' P key semflg t)
  then obtain N where N: "sems_ok (sum_list (map call_sems P)) N s" "\<And>i. cnt (is_new i) P = (if i \<in> N then 1 else 0)" "\<forall>c\<in>set P. new_ok c"
    by (auto simp: semv_inv_def)
  note R = newary_reserve_ok[OF N(1) get_start.hyps(3)]
  show ?case
    by (rule semv_invI[OF R(1)]) (use N(2,3) R(3,4) get_start.hyps in \<open>auto simp: call_sems_def is_new_def new_ok_def\<close>)
next
  case (get_end c i nsems key semflg t P mem now s r s')
  then obtain N where N: "sems_ok (sum_list (map call_sems P)) N s" "\<And>i. cnt (is_new i) P = (if i \<in> N then 1 else 0)" "\<forall>c\<in>set P. new_ok c"
    by (auto simp: semv_inv_def)
  have c: "cnt (is_new j) P = cnt (is_new j) (remove1 c P) + (if j = i then 1 else 0)" for j
    using cnt_remove1[OF get_end.hyps(2), of "is_new j"] by (auto simp: get_end.hyps(1) is_new_def)
  have n: "0 < nsems" "nsems \<le> SEMMSL" using N(3) get_end.hyps(1,2) by (auto simp: new_ok_def)
  have i: "i \<in> N" using c[of i] N(2)[of i] by (auto split: if_splits)
  have k: "sum_list (map call_sems P) - nsems = sum_list (map call_sems (remove1 c P))"
    using sum_list_map_remove1[OF get_end.hyps(2), of call_sems] get_end.hyps(1) by (simp add: call_sems_def)
  show ?case
  proof (rule semv_invI[OF newary_fill_ok[OF N(1) i n get_end.hyps(3)] k])
    show "cnt (is_new j) (remove1 c P) = (if j \<in> N - {i} then 1 else 0)" for j
      using c[of j] N(2)[of j] i by (auto split: if_splits)
    show "\<forall>d\<in>set (remove1 c P). new_ok d" using N(3) set_remove1_subset[of c P] by blast
  qed
next
  case (ctl_start va semid semnum cmd arg argv vals t s P tperm)
  then show ?case by (simp add: semv_inv_def call_sems_def is_new_def new_ok_def)
next
  case (ctl_end c semid semnum cmd argv vals tperm t P s now)
  then obtain N where N: "sems_ok (sum_list (map call_sems P)) N s" "\<And>i. cnt (is_new i) P = (if i \<in> N then 1 else 0)" "\<forall>c\<in>set P. new_ok c"
    by (auto simp: semv_inv_def)
  show ?case
  proof (rule semv_invI[OF semctl_ok(2)[OF N(1)]])
    show "sum_list (map call_sems P) = sum_list (map call_sems (remove1 c P))"
      using sum_list_map_remove1[OF ctl_end.hyps(2), of call_sems] ctl_end.hyps(1) by (simp add: call_sems_def)
    show "cnt (is_new i) (remove1 c P) = (if i \<in> N then 1 else 0)" for i
      using cnt_remove1[OF ctl_end.hyps(2), of "is_new i"] N(2)[of i] ctl_end.hyps(1) by (simp add: is_new_def)
    show "\<forall>d\<in>set (remove1 c P). new_ok d" using N(3) set_remove1_subset[of c P] by blast
  qed
qed (auto simp: semv_inv_def intro: semctl_ok(1) semop_ok semop_awake_ok sem_exit_ok exit_resume_ok)

definition semv_boot :: "semary_state \<times> sem_call list \<Rightarrow> bool" where
  "semv_boot x \<longleftrightarrow> (\<exists>s. x = (sem_init s, []))"

lemma semv_init_ok: "semv_inv (sem_init s, [])"
  by (rule semv_invI[of 0 "{}"]) (simp_all add: sem_init_def sems_ok_def ary_ok_def slot_sems_def slot_used_def kconst sum_list_replicate cnt_def)

interpretation semvs: invariant_system semv_boot semv_step semv_inv
  by unfold_locales (auto simp: semv_boot_def semv_init_ok semv_step_ok)

text \<open>
  C28. The limits of the header hold at every moment, over any interleaving of calls, sleeps and exits, where
  other calls run while one allocates a new array or copies its arguments: each array has the number of
  semaphores it was created with, from 1 to \<^verbatim>\<open>SEMMSL\<close>. \<^verbatim>\<open>used_sems\<close> is the number of semaphores of all
  arrays together with those of the arrays that are being allocated, so that callers who allocate at the
  same time cannot exceed \<^verbatim>\<open>SEMMNS\<close> together. \<^verbatim>\<open>used_semids\<close> is the number of arrays, and a slot is marked as
  reserved exactly while one caller sets up an array in it.
\<close>

theorem sem_limits:
  assumes "reach semv_boot semv_step (s, P)"
  shows "length (ss_ary s) = nat SEMMNI \<and>
    (\<forall>sma. Ipc sma \<in> set (ss_ary s) \<longrightarrow> int (length (sa_base sma)) = uint (sa_nsems sma) \<and> uint (sa_nsems sma) \<in> {1..SEMMSL}) \<and>
    ss_sems s = (\<Sum>x\<leftarrow>ss_ary s. slot_sems x) + (\<Sum>c\<leftarrow>P. call_sems c) \<and> ss_sems s \<le> SEMMNS \<and>
    ss_ids s = (\<Sum>x\<leftarrow>ss_ary s. slot_used x) \<and>
    (\<forall>i. cnt (is_new i) P = (if i < 128 \<and> ss_ary s ! i = IPC_NOID then 1 else 0))"
proof -
  obtain N where N: "sems_ok (sum_list (map call_sems P)) N s" "\<And>i. cnt (is_new i) P = (if i \<in> N then 1 else 0)"
    using semvs.reach_inv[OF assms] by (auto simp: semv_inv_def)
  show ?thesis using N(1) unfolding N(2) by (fastforce simp: sems_ok_def ary_ok_def kconst)
qed

definition example_boot :: semary_state where
  "example_boot = sem_init \<lparr>ss_ary = [], ss_sems = 0, ss_ids = 0, ss_max = 0, ss_seq = 0,
     ss_undo = (\<lambda>_. \<lparr>un_semid = 0, un_semadj = 0, un_num = 0\<rparr>), ss_semun = (\<lambda>_. []), ss_next = 0\<rparr>"

definition example_sems :: semary_state where
  "example_sems = snd (sys_semget True (\<lambda>s. s) IPC_PRIVATE 2 0 INIT_TASK 5 example_boot)"

definition example_ary :: semid_ds where
  "example_ary = \<lparr>sa_perm = \<lparr>ip_key = 0, ip_uid = t_euid INIT_TASK, ip_gid = t_egid INIT_TASK, ip_cuid = t_euid INIT_TASK,
     ip_cgid = t_egid INIT_TASK, ip_mode = 0, ip_seq = 0\<rparr>, sa_otime = 0, sa_ctime = 5,
     sa_base = [\<lparr>se_pid = 0, se_val = 0, se_ncnt = 0, se_zcnt = 0\<rparr>, \<lparr>se_pid = 0, se_val = 0, se_ncnt = 0, se_zcnt = 0\<rparr>],
     sa_undo = [], sa_nsems = 2\<rparr>"

definition example_reserved :: semary_state where
  "example_reserved = snd (newary_reserve 2 example_boot)"

lemma example_unused: "unused_slot (ss_ary example_boot) = Some 0"
  using unused_slot_0[of 127] by (simp add: example_boot_def sem_init_def kconst del: replicate.simps)

lemma example_fill:
  "newary_reserve 2 example_boot = (Inr 0, example_reserved)"
  "newary_fill True 0 IPC_PRIVATE 2 0 INIT_TASK 5 example_reserved = (Inr 0, example_sems)"
proof -
  show r: "newary_reserve 2 example_boot = (Inr 0, example_reserved)"
    using example_unused by (simp add: example_reserved_def newary_reserve_def kconst example_boot_def sem_init_def)
  have "ss_seq example_reserved = 0"
    unfolding example_reserved_def newary_reserve_def example_unused by (simp add: example_boot_def sem_init_def)
  then show "newary_fill True 0 IPC_PRIVATE 2 0 INIT_TASK 5 example_reserved = (Inr 0, example_sems)"
    by (simp add: example_sems_def sys_semget_def newary_def r newary_fill_def Let_def kconst)
qed

lemma example_sems_reach:
  "reach semv_boot semv_step (example_reserved, [New_alloc 0 2 IPC_PRIVATE 0 INIT_TASK])" "reach semv_boot semv_step (example_sems, [])"
proof -
  let ?c = "New_alloc 0 2 IPC_PRIVATE 0 INIT_TASK"
  have "reach semv_boot semv_step (example_boot, [])" by (rule reach_init) (auto simp: semv_boot_def example_boot_def)
  then show r: "reach semv_boot semv_step (example_reserved, [?c])"
    by (rule reach_step) (auto intro!: semv_step.get_start example_fill(1) simp: kconst)
  have "semv_step (example_reserved, [?c]) (example_sems, remove1 ?c [?c])"
    by (rule semv_step.get_end[OF refl _ example_fill(2)]) simp
  then show "reach semv_boot semv_step (example_sems, [])" using r by (auto intro: reach_step)
qed

theorem sem_limits_witness:
  "ss_sems example_reserved = (\<Sum>x\<leftarrow>ss_ary example_reserved. slot_sems x) + 2 \<and> ss_sems example_sems \<le> SEMMNS \<and>
   length (ss_ary example_sems) = nat SEMMNI"
  using sem_limits[OF example_sems_reach(1)] sem_limits[OF example_sems_reach(2)] by (simp add: call_sems_def)

lemma example_sems_at: "sma_at 0 example_sems = Ipc example_ary" "ss_semun example_sems = (\<lambda>_. [])" "ss_next example_sems = 0"
proof -
  have e: "example_sems = snd (newary_fill True 0 IPC_PRIVATE 2 0 INIT_TASK 5 (example_boot\<lparr>ss_ary := (ss_ary example_boot)[0 := IPC_NOID], ss_sems := 2\<rparr>))"
    using example_unused
    by (simp add: example_sems_def sys_semget_def newary_def newary_reserve_def newary_fill_def Let_def kconst example_boot_def sem_init_def)
  show "sma_at 0 example_sems = Ipc example_ary" "ss_semun example_sems = (\<lambda>_. [])" "ss_next example_sems = 0"
    unfolding e by (simp_all add: newary_fill_def Let_def sma_at_def sem_slot_def kconst example_boot_def sem_init_def example_ary_def numeral_2_eq_2)
qed

lemma example_sems_length: "length (ss_ary example_sems) = 128"
  using semvs.reach_inv[OF example_sems_reach(2)] by (auto simp: semv_inv_def sems_ok_def)

definition example_sops :: "sembuf list" where
  "example_sops = [\<lparr>sb_num = 0, sb_op = 3, sb_flg = 0x1000\<rparr>, \<lparr>sb_num = 1, sb_op = 1, sb_flg = 0x1000\<rparr>]"

lemma ipcperms_root: "ipcperms p flag INIT_TASK = False"
  by (simp add: ipcperms_def suser_def INIT_TASK_def)

lemma example_semop:
  "sys_semop (\<lambda>_. True) 0 1000 example_sops 1 INIT_TASK 6 example_sems =
     (Semop_ret 1 True False, snd (sys_semop (\<lambda>_. True) 0 1000 example_sops 1 INIT_TASK 6 example_sems))"
  by (simp add: sys_semop_def example_sems_at example_sems_length example_ary_def example_sops_def kconst sop_flag_def flag_set_def
    ipcperms_root semop_slept_def sem_seq_ok_def Let_def)

theorem semop_atomic_witness:
  "\<exists>sma'. ss_ary (snd (sys_semop (\<lambda>_. True) 0 1000 example_sops 1 INIT_TASK 6 example_sems)) = (ss_ary example_sems)[0 := Ipc sma'] \<and>
     uint (se_val (sa_base sma' ! 0)) = 3 \<and> uint (se_val (sa_base sma' ! 1)) = 1"
  using semop_atomic[OF example_semop example_sems_at(1) example_sems_length]
  by (auto simp: example_sops_def example_ary_def sem_slot_def kconst)

theorem semop_undone_at_exit_witness:
  "\<exists>s2. sem_exit 1 INIT_TASK 9 (snd (sys_semop (\<lambda>_. True) 0 1000 example_sops 1 INIT_TASK 6 example_sems)) = (None, s2) \<and>
     map slot_vals (ss_ary s2) = map slot_vals (ss_ary example_sems)"
  using semop_undone_at_exit[OF example_semop example_sems_at(1) example_sems_length, of INIT_TASK 9]
  by (auto simp: example_sops_def example_ary_def example_sems_at sop_flag_def flag_set_def kconst)

section \<open>Two operations on one semaphore\<close>

text \<open>
  C37. Each operation is checked against the value before the call, so the checks say nothing about two
  operations on the same semaphore: two decrements of a semaphore of value 1 both pass, and
  the call returns with the value 65535, beyond \<^verbatim>\<open>SEMVMX\<close>.
\<close>

theorem semop_same_semaphore_underflow:
  assumes "0 \<le> semid" "tsops \<noteq> 0" "sma_at semid s = Ipc sma" "sem_seq_ok (sa_perm sma) semid"
    "\<not> ipcperms (sa_perm sma) S_IWUGO t" "sa_base sma \<noteq> []" "se_val (sa_base sma ! 0) = 1"
  shows "fst (sys_semop mem semid tsops [\<lparr>sb_num = 0, sb_op = - 1, sb_flg = 0\<rparr>, \<lparr>sb_num = 0, sb_op = - 1, sb_flg = 0\<rparr>] me t now s) =
    Semop_ret 65535 False True"
  using assms
  by (simp add: sys_semop_def semop_slept_def Let_def kconst sop_flag_def flag_set_def unsigned_minus_1_eq_mask mask_eq_exp_minus_1)

theorem semop_same_semaphore_underflow_witness:
  "fst (sys_semop (\<lambda>_. True) 0 1000 [\<lparr>sb_num = 0, sb_op = - 1, sb_flg = 0\<rparr>, \<lparr>sb_num = 0, sb_op = - 1, sb_flg = 0\<rparr>] 1 INIT_TASK 7
     (put_sma 0 (Ipc (example_ary\<lparr>sa_base := [\<lparr>se_pid = 0, se_val = 1, se_ncnt = 0, se_zcnt = 0\<rparr>]\<rparr>)) example_sems)) = Semop_ret 65535 False True"
  by (rule semop_same_semaphore_underflow)
    (simp_all add: example_sems_length example_ary_def sem_seq_ok_def ipcperms_root, simp_all)

text \<open>The scan lets the number of semaphores itself pass as an index, one beyond the last semaphore.\<close>

lemma semop_beyond:
  assumes "sems_ok k N s" "0 \<le> semid" "tsops \<noteq> 0" "sma_at semid s = Ipc sma" "sem_seq_ok (sa_perm sma) semid"
    "\<not> ipcperms (sa_perm sma) S_IRUGO t"
  shows "fst (sys_semop mem semid tsops [\<lparr>sb_num = sa_nsems sma, sb_op = 0, sb_flg = 0\<rparr>] me t now s) = Semop_beyond (length (sa_base sma))"
proof -
  have "sem_slot semid < length (ss_ary s)" using assms(1) by (simp add: sems_ok_def)
  then have "Ipc sma \<in> set (ss_ary s)" using assms(4) nth_mem[of "sem_slot semid" "ss_ary s"] by (simp add: sma_at_def)
  then have "ary_ok (Ipc sma)" using assms(1) by (auto simp: sems_ok_def)
  then have "int (length (sa_base sma)) = uint (sa_nsems sma)" by (simp add: ary_ok_def)
  then have "unat (sa_nsems sma) = length (sa_base sma)" by (metis nat_int unat_eq_nat_uint)
  then show ?thesis using assms(2-6) by (simp add: sys_semop_def semop_slept_def Let_def kconst sop_flag_def flag_set_def)
qed

end
