(* ===== verification/Pipe.thy ===== *)
theory Pipe
  imports Signal
begin

text \<open>
  Pipes and named pipes (\<^verbatim>\<open>fs/pipe.c\<close>, \<^verbatim>\<open>fs/fifo.c\<close>): one page used as a ring,
  read and written under a lock. A call that sleeps is split where it sleeps.
\<close>

section \<open>The ring\<close>

text \<open>The page is a list of bytes; the empty list is a null \<^verbatim>\<open>base\<close>.\<close>

record pipe_inode =
  pi_base :: "u8 list"
  pi_start :: u32
  pi_len :: u32
  pi_lock :: u32
  pi_rd_openers :: u32
  pi_wr_openers :: u32
  pi_readers :: u32
  pi_writers :: u32

definition PIPE_BUF :: u32 where [kconst]: "PIPE_BUF = 4096"
definition PIPE_EMPTY :: "pipe_inode \<Rightarrow> bool" where "PIPE_EMPTY p \<longleftrightarrow> pi_len p = 0"
definition PIPE_FULL :: "pipe_inode \<Rightarrow> bool" where "PIPE_FULL p \<longleftrightarrow> pi_len p = PIPE_BUF"
definition PIPE_FREE :: "pipe_inode \<Rightarrow> u32" where "PIPE_FREE p = PIPE_BUF - pi_len p"
definition PIPE_END :: "pipe_inode \<Rightarrow> u32" where "PIPE_END p = (pi_start p + pi_len p) AND (PIPE_BUF - 1)"
definition PIPE_MAX_RCHUNK :: "pipe_inode \<Rightarrow> u32" where "PIPE_MAX_RCHUNK p = PIPE_BUF - pi_start p"
definition PIPE_MAX_WCHUNK :: "pipe_inode \<Rightarrow> u32" where "PIPE_MAX_WCHUNK p = PIPE_BUF - PIPE_END p"

definition O_NONBLOCK :: u32 where [kconst]: "O_NONBLOCK = 0x800"
definition SIGPIPE :: u32 where [kconst]: "SIGPIPE = 13"

definition nonblock :: "u32 \<Rightarrow> bool" where
  "nonblock f_flags \<longleftrightarrow> f_flags AND O_NONBLOCK \<noteq> 0"

section \<open>Reading\<close>

text \<open>The least of three counts, as the two tests of the loops compute it.\<close>

definition chunk :: "int \<Rightarrow> int \<Rightarrow> int \<Rightarrow> int" where
  "chunk chars count avail =
     (let chars = (if chars > count then count else chars) in if chars > avail then avail else chars)"

text \<open>
  A round of the loop under the lock: the bytes it takes off the ring, as a position and a count, and the
  copy of them to the caller, during which the reader may sleep. The loop; \<open>out\<close> is what has been copied.
\<close>

definition read_claim :: "int \<Rightarrow> pipe_inode \<Rightarrow> nat \<times> int \<times> pipe_inode" where
  "read_claim count p =
     (let chars = chunk (sint (PIPE_MAX_RCHUNK p)) count (sint (pi_len p)) in
      (unat (pi_start p), chars,
       p\<lparr>pi_start := (pi_start p + word_of_int chars) AND (PIPE_BUF - 1), pi_len := pi_len p - word_of_int chars\<rparr>))"

definition fetch :: "nat \<Rightarrow> int \<Rightarrow> pipe_inode \<Rightarrow> u8 list" where
  "fetch pipebuf chars p = take (nat chars) (drop pipebuf (pi_base p))"

partial_function (option) read_loop :: "int \<Rightarrow> pipe_inode \<Rightarrow> u8 list \<Rightarrow> (u8 list \<times> pipe_inode) option" where
  "read_loop count p out =
     (if count > 0 \<and> pi_len p \<noteq> 0
      then (case read_claim count p of
              (pipebuf, chars, p1) \<Rightarrow> read_loop (count - chars) p1 (out @ fetch pipebuf chars p1))
      else Some (out, p))"

text \<open>The tests before the lock is taken.\<close>

datatype pipe_gate = Gate_err errno | Gate_eof | Gate_sleep | Gate_go

definition pipe_read_enter :: "u32 \<Rightarrow> task_struct \<Rightarrow> pipe_inode \<Rightarrow> pipe_gate" where
  "pipe_read_enter f_flags t p =
     (if nonblock f_flags
      then if pi_lock p \<noteq> 0 then Gate_err EAGAIN
           else if PIPE_EMPTY p then if pi_writers p \<noteq> 0 then Gate_err EAGAIN else Gate_eof
           else Gate_go
      else if PIPE_EMPTY p \<or> pi_lock p \<noteq> 0
      then if PIPE_EMPTY p \<and> pi_writers p = 0 then Gate_eof
           else if signal_pending t then Gate_err ERESTARTSYS
           else Gate_sleep
      else Gate_go)"

text \<open>\<^const>\<open>None\<close> in the first component: the caller sleeps. The whole is \<^const>\<open>None\<close> when the loop does not end.\<close>

definition pipe_read :: "u32 \<Rightarrow> int \<Rightarrow> task_struct \<Rightarrow> pipe_inode \<Rightarrow> (u8 list res option \<times> pipe_inode) option" where
  "pipe_read f_flags count t p =
     (case pipe_read_enter f_flags t p of
        Gate_err e \<Rightarrow> Some (Some (Inl e), p)
      | Gate_eof \<Rightarrow> Some (Some (Inr []), p)
      | Gate_sleep \<Rightarrow> Some (None, p)
      | Gate_go \<Rightarrow>
          (case read_loop count (p\<lparr>pi_lock := pi_lock p + 1\<rparr>) [] of
             None \<Rightarrow> None
           | Some (out, p1) \<Rightarrow>
               let p2 = p1\<lparr>pi_lock := pi_lock p1 - 1\<rparr> in
               Some (Some (if out \<noteq> [] then Inr out else if pi_writers p2 \<noteq> 0 then Inl EAGAIN else Inr []), p2)))"

section \<open>Writing\<close>

text \<open>
  A round of the loop under the lock: the room it takes, as a position and a count, and the copy from the
  caller, during which the writer may sleep. The result of the loop holds what is left of the buffer.
\<close>

definition copy_in :: "nat \<Rightarrow> u8 list \<Rightarrow> u8 list \<Rightarrow> u8 list" where
  "copy_in i xs base = take i base @ xs @ drop (i + length xs) base"

definition write_claim :: "int \<Rightarrow> pipe_inode \<Rightarrow> nat \<times> int \<times> pipe_inode" where
  "write_claim count p =
     (let chars = chunk (sint (PIPE_MAX_WCHUNK p)) count (sint (PIPE_FREE p)) in
      (unat (PIPE_END p), chars, p\<lparr>pi_len := pi_len p + word_of_int chars\<rparr>))"

definition store :: "nat \<Rightarrow> u8 list \<Rightarrow> pipe_inode \<Rightarrow> pipe_inode" where
  "store pipebuf xs p = p\<lparr>pi_base := copy_in pipebuf xs (pi_base p)\<rparr>"

partial_function (option) write_loop :: "u8 list \<Rightarrow> pipe_inode \<Rightarrow> (u8 list \<times> pipe_inode) option" where
  "write_loop buf p =
     (if buf \<noteq> [] \<and> PIPE_FREE p \<noteq> 0
      then (case write_claim (int (length buf)) p of
              (pipebuf, chars, p1) \<Rightarrow> write_loop (drop (nat chars) buf) (store pipebuf (take (nat chars) buf) p1))
      else Some (buf, p))"

text \<open>\<^verbatim>\<open>written? : -e\<close>\<close>

definition written_or :: "int \<Rightarrow> errno \<Rightarrow> int res" where
  "written_or written e = (if written \<noteq> 0 then Inr written else Inl e)"

datatype write_out = Wr_ret "int res" | Wr_sleep u32 "u8 list" int

definition sigpipe :: "kstate \<Rightarrow> kstate" where
  "sigpipe k = snd (send_sig SIGPIPE (Some (k_current k)) False k)"

text \<open>
  The outer loop, from its condition: \<open>free\<close>, the rest of the buffer and \<open>written\<close>. A writer that sleeps
  goes on with what \<^const>\<open>Wr_sleep\<close> holds.
\<close>

partial_function (option) pipe_write_loop ::
  "u32 \<Rightarrow> u32 \<Rightarrow> u8 list \<Rightarrow> int \<Rightarrow> kstate \<Rightarrow> pipe_inode \<Rightarrow> (write_out \<times> kstate \<times> pipe_inode) option" where
  "pipe_write_loop f_flags free buf written k p =
     (if buf = [] then Some (Wr_ret (Inr written), k, p)
      else if PIPE_FREE p < free \<or> pi_lock p \<noteq> 0
      then if pi_readers p = 0 then Some (Wr_ret (written_or written EPIPE), sigpipe k, p)
           else if signal_pending (current k) then Some (Wr_ret (written_or written ERESTARTSYS), k, p)
           else if nonblock f_flags then Some (Wr_ret (written_or written EAGAIN), k, p)
           else Some (Wr_sleep free buf written, k, p)
      else (case write_loop buf (p\<lparr>pi_lock := pi_lock p + 1\<rparr>) of
              None \<Rightarrow> None
            | Some (buf1, p1) \<Rightarrow>
                pipe_write_loop f_flags 1 buf1 (written + (int (length buf) - int (length buf1))) k (p1\<lparr>pi_lock := pi_lock p1 - 1\<rparr>)))"

definition pipe_write :: "u32 \<Rightarrow> u8 list \<Rightarrow> kstate \<Rightarrow> pipe_inode \<Rightarrow> (write_out \<times> kstate \<times> pipe_inode) option" where
  "pipe_write f_flags buf k p =
     (if pi_readers p = 0 then Some (Wr_ret (Inl EPIPE), sigpipe k, p)
      else pipe_write_loop f_flags
             (if int (length buf) \<le> uint PIPE_BUF then word_of_int (int (length buf)) else 1) buf 0 k p)"

section \<open>The other operations\<close>

definition pipe_lseek :: "int res" where "pipe_lseek = Inl ESPIPE"
definition pipe_readdir :: "int res" where "pipe_readdir = Inl ENOTDIR"
definition bad_pipe_rw :: "int res" where "bad_pipe_rw = Inl EBADF"

definition FIONREAD :: u32 where [kconst]: "FIONREAD = 0x541B"

definition pipe_ioctl :: "va_fun \<Rightarrow> u32 \<Rightarrow> u32 \<Rightarrow> pipe_inode \<Rightarrow> u32 res" where
  "pipe_ioctl va cmd arg p =
     (if cmd = FIONREAD then (case va VERIFY_WRITE arg 4 of Some e \<Rightarrow> Inl e | None \<Rightarrow> Inr (pi_len p))
      else Inl EINVAL)"

definition SEL_IN :: int where [kconst]: "SEL_IN = 1"
definition SEL_OUT :: int where [kconst]: "SEL_OUT = 2"
definition SEL_EX :: int where [kconst]: "SEL_EX = 4"

text \<open>\<^const>\<open>False\<close>: not ready, and the caller is put on the wait queue.\<close>

definition select_ex :: "pipe_inode \<Rightarrow> bool" where
  "select_ex p \<longleftrightarrow> pi_readers p = 0 \<or> pi_writers p = 0"

definition pipe_select :: "int \<Rightarrow> pipe_inode \<Rightarrow> bool" where
  "pipe_select sel_type p =
     (if sel_type = SEL_IN then \<not> PIPE_EMPTY p \<or> pi_writers p = 0
      else if sel_type = SEL_OUT then \<not> PIPE_FULL p \<or> pi_readers p = 0
      else if sel_type = SEL_EX then select_ex p
      else False)"

definition fifo_select :: "int \<Rightarrow> pipe_inode \<Rightarrow> bool" where
  "fifo_select sel_type p =
     (if sel_type = SEL_IN then \<not> PIPE_EMPTY p
      else if sel_type = SEL_OUT then \<not> PIPE_FULL p \<or> pi_readers p = 0
      else if sel_type = SEL_EX then select_ex p
      else False)"

text \<open>The operation tables, and which routine each has for reading, writing, selecting and closing.\<close>

datatype pipe_fops = connecting_fifo_fops | read_fifo_fops | write_fifo_fops | rdwr_fifo_fops
  | read_pipe_fops | write_pipe_fops | rdwr_pipe_fops

datatype read_op = Op_pipe_read | Op_connect_read | Op_bad_read
datatype select_op = Op_pipe_select | Op_fifo_select | Op_connect_select
datatype release_op = Op_read_release | Op_write_release | Op_rdwr_release

fun fops_read :: "pipe_fops \<Rightarrow> read_op" where
  "fops_read connecting_fifo_fops = Op_connect_read"
| "fops_read read_fifo_fops = Op_pipe_read"
| "fops_read write_fifo_fops = Op_bad_read"
| "fops_read rdwr_fifo_fops = Op_pipe_read"
| "fops_read read_pipe_fops = Op_pipe_read"
| "fops_read write_pipe_fops = Op_bad_read"
| "fops_read rdwr_pipe_fops = Op_pipe_read"

text \<open>\<^const>\<open>False\<close>: \<^const>\<open>bad_pipe_rw\<close>.\<close>

fun fops_write :: "pipe_fops \<Rightarrow> bool" where
  "fops_write connecting_fifo_fops = False"
| "fops_write read_fifo_fops = False"
| "fops_write write_fifo_fops = True"
| "fops_write rdwr_fifo_fops = True"
| "fops_write read_pipe_fops = False"
| "fops_write write_pipe_fops = True"
| "fops_write rdwr_pipe_fops = True"

fun fops_select :: "pipe_fops \<Rightarrow> select_op" where
  "fops_select connecting_fifo_fops = Op_connect_select"
| "fops_select read_fifo_fops = Op_fifo_select"
| "fops_select write_fifo_fops = Op_fifo_select"
| "fops_select rdwr_fifo_fops = Op_fifo_select"
| "fops_select read_pipe_fops = Op_pipe_select"
| "fops_select write_pipe_fops = Op_pipe_select"
| "fops_select rdwr_pipe_fops = Op_pipe_select"

fun fops_release :: "pipe_fops \<Rightarrow> release_op" where
  "fops_release connecting_fifo_fops = Op_read_release"
| "fops_release read_fifo_fops = Op_read_release"
| "fops_release write_fifo_fops = Op_write_release"
| "fops_release rdwr_fifo_fops = Op_rdwr_release"
| "fops_release read_pipe_fops = Op_read_release"
| "fops_release write_pipe_fops = Op_write_release"
| "fops_release rdwr_pipe_fops = Op_rdwr_release"

text \<open>
  A reader of a named pipe that has had no writer yet. The second component is the table of the
  file afterwards.
\<close>

definition connect_read ::
  "u32 \<Rightarrow> int \<Rightarrow> task_struct \<Rightarrow> pipe_inode \<Rightarrow> (u8 list res option \<times> pipe_fops \<times> pipe_inode) option" where
  "connect_read f_flags count t p =
     (if pi_len p = 0 \<and> pi_writers p = 0
      then if nonblock f_flags then Some (Some (Inl EAGAIN), connecting_fifo_fops, p)
           else if signal_pending t then Some (Some (Inl ERESTARTSYS), connecting_fifo_fops, p)
           else Some (None, connecting_fifo_fops, p)
      else map_option (\<lambda>(r, p1). (r, read_fifo_fops, p1)) (pipe_read f_flags count t p))"

definition connect_select :: "int \<Rightarrow> pipe_inode \<Rightarrow> bool \<times> pipe_fops" where
  "connect_select sel_type p =
     (if sel_type = SEL_IN
      then if \<not> PIPE_EMPTY p then (True, read_fifo_fops) else (False, connecting_fifo_fops)
      else if sel_type = SEL_OUT then (\<not> PIPE_FULL p, connecting_fifo_fops)
      else if sel_type = SEL_EX then (select_ex p, connecting_fifo_fops)
      else (False, connecting_fifo_fops))"

definition pipe_read_release :: "pipe_inode \<Rightarrow> pipe_inode" where
  "pipe_read_release p = p\<lparr>pi_readers := pi_readers p - 1\<rparr>"

definition pipe_write_release :: "pipe_inode \<Rightarrow> pipe_inode" where
  "pipe_write_release p = p\<lparr>pi_writers := pi_writers p - 1\<rparr>"

definition pipe_rdwr_release :: "pipe_inode \<Rightarrow> pipe_inode" where
  "pipe_rdwr_release p = p\<lparr>pi_readers := pi_readers p - 1, pi_writers := pi_writers p - 1\<rparr>"

fun do_release :: "release_op \<Rightarrow> pipe_inode \<Rightarrow> pipe_inode" where
  "do_release Op_read_release p = pipe_read_release p"
| "do_release Op_write_release p = pipe_write_release p"
| "do_release Op_rdwr_release p = pipe_rdwr_release p"

section \<open>A bounded queue of bytes\<close>

definition pipe_ok :: "pipe_inode \<Rightarrow> bool" where
  "pipe_ok p \<longleftrightarrow> length (pi_base p) = 4096 \<and> unat (pi_start p) < 4096 \<and> unat (pi_len p) \<le> 4096"

definition contents :: "pipe_inode \<Rightarrow> u8 list" where
  "contents p = map (\<lambda>i. pi_base p ! ((unat (pi_start p) + i) mod 4096)) [0..<unat (pi_len p)]"

text \<open>Everything but the bytes.\<close>

definition same_ends :: "pipe_inode \<Rightarrow> pipe_inode \<Rightarrow> bool" where
  "same_ends p p' \<longleftrightarrow> pi_lock p' = pi_lock p \<and> pi_readers p' = pi_readers p \<and> pi_writers p' = pi_writers p \<and>
     pi_rd_openers p' = pi_rd_openers p \<and> pi_wr_openers p' = pi_wr_openers p"

lemma length_contents [simp]: "length (contents p) = unat (pi_len p)"
  by (simp add: contents_def)

lemma nth_contents: "i < unat (pi_len p) \<Longrightarrow> contents p ! i = pi_base p ! ((unat (pi_start p) + i) mod 4096)"
  by (simp add: contents_def)

lemma unat_and_4095: "unat (w AND (4095 :: u32)) = unat w mod 4096"
proof -
  have m: "(4095 :: u32) = mask 12" by (simp add: mask_eq_exp_minus_1)
  show ?thesis unfolding m by (simp only: take_bit_eq_mask[symmetric] unsigned_take_bit_eq take_bit_eq_mod) (simp add: unat_mod_distrib)
qed

lemma sint_small:
  assumes "unat (w :: u32) < 2147483648"
  shows "sint w = int (unat w)"
proof -
  have w: "wrap32 (int n) = int n" if "n < 2147483648" for n using that by (intro wrap32_id) simp_all
  have "sint w = wrap32 (int (unat w))" by (simp add: wrap32_def)
  then show ?thesis using w[OF assms] by simp
qed

lemma chunk_min: "chunk a b c = min (min a b) c"
  by (simp add: chunk_def)

lemma unat_word_of_nat: "n < 4294967296 \<Longrightarrow> unat (word_of_nat n :: u32) = n"
  by (simp add: unat_of_nat)

lemma free_word_0: "n \<le> 4096 \<Longrightarrow> (word_of_int (int n) :: u32) = 0 \<longleftrightarrow> n = 0"
  using unat_word_of_nat[of n] by (auto simp flip: unat_eq_0)

lemma pipe_free: "pipe_ok p \<Longrightarrow> unat (PIPE_FREE p) = 4096 - unat (pi_len p)"
  unfolding PIPE_FREE_def kconst by (subst unat_sub) (simp_all add: pipe_ok_def word_le_nat_alt)

lemma pipe_rchunk: "pipe_ok p \<Longrightarrow> unat (PIPE_MAX_RCHUNK p) = 4096 - unat (pi_start p)"
  unfolding PIPE_MAX_RCHUNK_def kconst by (subst unat_sub) (simp_all add: pipe_ok_def word_le_nat_alt)

lemma pipe_end: "pipe_ok p \<Longrightarrow> unat (PIPE_END p) = (unat (pi_start p) + unat (pi_len p)) mod 4096"
  unfolding PIPE_END_def kconst by (simp add: unat_and_4095 unat_word_ariths(1) mod_mod_cancel)

lemma pipe_wchunk: "pipe_ok p \<Longrightarrow> unat (PIPE_MAX_WCHUNK p) = 4096 - unat (PIPE_END p)"
  unfolding PIPE_MAX_WCHUNK_def kconst by (subst unat_sub) (simp_all add: pipe_end word_le_nat_alt)

text \<open>One round of the reading loop takes a prefix off the queue.\<close>

lemma read_round:
  assumes "pipe_ok p" "c \<le> 4096 - unat (pi_start p)" "c \<le> unat (pi_len p)"
  defines "p' \<equiv> p\<lparr>pi_start := (pi_start p + word_of_nat c) AND (PIPE_BUF - 1), pi_len := pi_len p - word_of_nat c\<rparr>"
  shows "pipe_ok p'" "take c (drop (unat (pi_start p)) (pi_base p)) = take c (contents p)" "contents p' = drop c (contents p)"
proof -
  have c: "unat (word_of_nat c :: u32) = c" using assms(1,3) by (intro unat_word_of_nat) (simp add: pipe_ok_def)
  have l: "unat (pi_len p') = unat (pi_len p) - c"
    unfolding p'_def using assms(3) c by (simp, subst unat_sub) (simp_all add: word_le_nat_alt)
  have s: "unat (pi_start p') = (unat (pi_start p) + c) mod 4096"
    unfolding p'_def kconst by (simp add: unat_and_4095 unat_word_ariths(1) mod_mod_cancel c)
  have b: "pi_base p' = pi_base p" by (simp add: p'_def)
  show "pipe_ok p'" using assms(1) unfolding pipe_ok_def l s b by auto
  show "take c (drop (unat (pi_start p)) (pi_base p)) = take c (contents p)"
    using assms(1-3) by (intro nth_equalityI) (auto simp: nth_contents pipe_ok_def)
  show "contents p' = drop c (contents p)"
    using assms(3) by (intro nth_equalityI) (auto simp: nth_contents l s b mod_simps ac_simps)
qed

lemma read_claim_spec:
  assumes "pipe_ok p" "count > 0" "pi_len p \<noteq> 0" "read_claim count p = (pipebuf, chars, p1)"
  shows "0 < chars" "chars \<le> count" "pipe_ok p1" "fetch pipebuf chars p1 = take (nat chars) (contents p)"
    "contents p1 = drop (nat chars) (contents p)" "same_ends p p1"
proof -
  define c where "c = min (min (4096 - unat (pi_start p)) (nat count)) (unat (pi_len p))"
  have ok: "unat (pi_start p) < 4096" "unat (pi_len p) \<le> 4096" using assms(1) by (simp_all add: pipe_ok_def)
  have "0 < unat (pi_len p)" using assms(3) by (simp add: unat_gt_0)
  then have c: "0 < c" "c \<le> 4096 - unat (pi_start p)" "c \<le> unat (pi_len p)" "c \<le> nat count"
    unfolding c_def using assms(2) ok by auto
  have k: "chunk (sint (PIPE_MAX_RCHUNK p)) count (sint (pi_len p)) = int c"
    unfolding c_def using assms(2) ok pipe_rchunk[OF assms(1)] by (simp add: chunk_min sint_small of_nat_min)
  have e: "pipebuf = unat (pi_start p)" "chars = int c"
    "p1 = p\<lparr>pi_start := (pi_start p + word_of_nat c) AND (PIPE_BUF - 1), pi_len := pi_len p - word_of_nat c\<rparr>"
    using assms(4) by (auto simp: read_claim_def k Let_def)
  note R = read_round[OF assms(1) c(2,3), folded e(3)]
  show "0 < chars" "chars \<le> count" using c(1,4) assms(2) by (auto simp: e(2))
  show "pipe_ok p1" "contents p1 = drop (nat chars) (contents p)" using R by (simp_all add: e(2))
  show "fetch pipebuf chars p1 = take (nat chars) (contents p)" using R(2) by (simp add: fetch_def e)
  show "same_ends p p1" by (simp add: same_ends_def e(3))
qed

lemma read_loop_spec:
  "pipe_ok p \<Longrightarrow> \<exists>p'. read_loop count p out = Some (out @ take (nat count) (contents p), p') \<and> pipe_ok p' \<and>
     contents p' = drop (nat count) (contents p) \<and> same_ends p p'"
proof (induction "nat count" arbitrary: count p out rule: less_induct)
  case less
  show ?case
  proof (cases "count > 0 \<and> pi_len p \<noteq> 0")
    case False
    then have "nat count = 0 \<or> contents p = []" by (auto simp: contents_def)
    then have "take (nat count) (contents p) = []" "drop (nat count) (contents p) = contents p" by auto
    then show ?thesis using False less.prems by (subst read_loop.simps) (auto simp: same_ends_def)
  next
    case True
    obtain pb c p1 where cl: "read_claim count p = (pb, c, p1)" by (cases "read_claim count p")
    note R = read_claim_spec[OF less.prems conjunct1[OF True] conjunct2[OF True] cl]
    have d: "nat (count - c) < nat count" using True R(1) by auto
    obtain p' where I: "read_loop (count - c) p1 (out @ take (nat c) (contents p)) =
        Some ((out @ take (nat c) (contents p)) @ take (nat (count - c)) (contents p1), p')"
      "pipe_ok p'" "contents p' = drop (nat (count - c)) (contents p1)" "same_ends p1 p'"
      using less.hyps[OF d R(3)] by blast
    have n: "nat (count - c) = nat count - nat c" "nat c \<le> nat count" using R(1,2) by (simp_all add: nat_diff_distrib')
    have t: "take (nat count) (contents p) = take (nat c) (contents p) @ take (nat count - nat c) (drop (nat c) (contents p))"
      using take_add[of "nat c" "nat count - nat c" "contents p"] n(2) by simp
    have "read_loop count p out = read_loop (count - c) p1 (out @ take (nat c) (contents p))"
      by (subst read_loop.simps) (use True R(4) in \<open>simp add: cl\<close>)
    moreover have "same_ends p p'" using I(4) R(6) by (simp add: same_ends_def)
    moreover have "contents p' = drop (nat count) (contents p)" using n by (simp add: I(3) R(5))
    ultimately show ?thesis using I(1,2) t by (simp add: n(1) R(5))
  qed
qed

text \<open>One round of the writing loop appends a prefix of the buffer.\<close>

lemma length_copy_in [simp]: "i + length xs \<le> length base \<Longrightarrow> length (copy_in i xs base) = length base"
  by (simp add: copy_in_def)

lemma nth_copy_in:
  "i + length xs \<le> length base \<Longrightarrow> j < length base \<Longrightarrow>
     copy_in i xs base ! j = (if i \<le> j \<and> j < i + length xs then xs ! (j - i) else base ! j)"
  by (auto simp: copy_in_def nth_append)

text \<open>The positions of what is there and of what is added are apart.\<close>

lemma ring_apart:
  assumes "i < l" "l + c \<le> 4096" "j < c" "(s + l) mod 4096 + c \<le> (4096 :: nat)"
  shows "(s + i) mod 4096 \<noteq> (s + l) mod 4096 + j"
proof
  assume "(s + i) mod 4096 = (s + l) mod 4096 + j"
  then have "(s + i) mod 4096 = (s + l + j) mod 4096"
    by (metis assms(3,4) add_less_cancel_left less_le_trans mod_add_left_eq mod_less)
  then have "4096 dvd (s + l + j) - (s + i)" by (metis mod_eq_dvd_iff_nat assms(1) add_le_mono less_imp_le_nat le_add1 trans_le_add1 nat_add_left_cancel_le)
  then have "4096 dvd l + j - i" by simp
  moreover have "0 < l + j - i" "l + j - i < 4096" using assms by auto
  ultimately show False using nat_dvd_not_less by blast
qed

lemma write_round:
  assumes "pipe_ok p" "length xs \<le> 4096 - unat (PIPE_END p)" "length xs \<le> 4096 - unat (pi_len p)"
  defines "p' \<equiv> p\<lparr>pi_base := copy_in (unat (PIPE_END p)) xs (pi_base p), pi_len := pi_len p + word_of_nat (length xs)\<rparr>"
  shows "pipe_ok p'" "contents p' = contents p @ xs"
proof -
  let ?s = "unat (pi_start p)" and ?l = "unat (pi_len p)" and ?c = "length xs" and ?e = "unat (PIPE_END p)"
  have ok: "length (pi_base p) = 4096" "?s < 4096" "?l \<le> 4096" using assms(1) by (simp_all add: pipe_ok_def)
  have e: "?e = (?s + ?l) mod 4096" "?e < 4096" using pipe_end[OF assms(1)] by simp_all
  have ec: "?e + ?c \<le> 4096" "?l + ?c \<le> 4096" using assms(2,3) e(2) ok by linarith+
  have l: "unat (pi_len p') = ?l + ?c"
    using ec(2) unat_word_of_nat[of ?c] by (simp add: p'_def unat_word_ariths(1))
  have s: "unat (pi_start p') = ?s" and b: "pi_base p' = copy_in ?e xs (pi_base p)" by (simp_all add: p'_def)
  show "pipe_ok p'" using ok ec unfolding pipe_ok_def l s b by simp
  show "contents p' = contents p @ xs"
  proof (rule nth_equalityI)
    fix i assume "i < length (contents p')"
    then have i: "i < ?l + ?c" by (simp add: l)
    have m: "(?s + i) mod 4096 < length (pi_base p)" using ok by simp
    have v: "contents p' ! i = (if ?e \<le> (?s + i) mod 4096 \<and> (?s + i) mod 4096 < ?e + ?c
        then xs ! ((?s + i) mod 4096 - ?e) else pi_base p ! ((?s + i) mod 4096))"
      using i m ec(1) ok(1) by (simp add: nth_contents l s b nth_copy_in)
    show "contents p' ! i = (contents p @ xs) ! i"
    proof (cases "i < ?l")
      case True
      have "(?s + i) mod 4096 \<noteq> ?e + j" if "j < ?c" for j
        using ring_apart[OF True ec(2) that, of ?s] ec(1) by (simp add: e(1))
      then have "\<not> (?e \<le> (?s + i) mod 4096 \<and> (?s + i) mod 4096 < ?e + ?c)"
        by (metis le_Suc_ex nat_add_left_cancel_less)
      then show ?thesis using True v by (auto simp: nth_append nth_contents)
    next
      case False
      then obtain j where j: "i = ?l + j" using le_Suc_ex[of ?l i] by auto
      then have "j < ?c" using i by simp
      have "(?s + i) mod 4096 = (?e + j) mod 4096" unfolding e(1) mod_add_left_eq j by (simp add: add.assoc)
      also have "\<dots> = ?e + j" using \<open>j < ?c\<close> ec(1) by (intro mod_less) linarith
      finally have q: "(?s + i) mod 4096 = ?e + j" .
      show ?thesis using v \<open>j < ?c\<close> unfolding q by (simp add: nth_append j)
    qed
  qed (simp add: l)
qed

lemma write_claim_spec:
  assumes "pipe_ok p" "buf \<noteq> []" "PIPE_FREE p \<noteq> 0" "write_claim (int (length buf)) p = (pipebuf, chars, p1)"
  shows "0 < chars" "nat chars \<le> length buf" "nat chars \<le> 4096 - unat (pi_len p)"
    "pipe_ok p1" "pipe_ok (store pipebuf (take (nat chars) buf) p1)"
    "contents (store pipebuf (take (nat chars) buf) p1) = contents p @ take (nat chars) buf" "same_ends p p1"
proof -
  define c where "c = min (min (4096 - unat (PIPE_END p)) (length buf)) (4096 - unat (pi_len p))"
  have e: "unat (PIPE_END p) < 4096" using pipe_end[OF assms(1)] by simp
  have fr: "0 < 4096 - unat (pi_len p)" using assms(3) pipe_free[OF assms(1)] by (metis neq0_conv unat_eq_0)
  have c: "0 < c" "c \<le> 4096 - unat (PIPE_END p)" "c \<le> length buf" "c \<le> 4096 - unat (pi_len p)"
    unfolding c_def using assms(2) e fr by auto
  have k: "chunk (sint (PIPE_MAX_WCHUNK p)) (int (length buf)) (sint (PIPE_FREE p)) = int c"
    unfolding c_def using e pipe_wchunk[OF assms(1)] pipe_free[OF assms(1)] by (simp add: chunk_min sint_small of_nat_min)
  have v: "pipebuf = unat (PIPE_END p)" "chars = int c" "p1 = p\<lparr>pi_len := pi_len p + word_of_nat c\<rparr>"
    using assms(4) by (auto simp: write_claim_def k Let_def)
  show "0 < chars" "nat chars \<le> length buf" "nat chars \<le> 4096 - unat (pi_len p)" using c by (simp_all add: v(2))
  have "store pipebuf (take (nat chars) buf) p1 =
      p\<lparr>pi_base := copy_in (unat (PIPE_END p)) (take c buf) (pi_base p), pi_len := pi_len p + word_of_nat (length (take c buf))\<rparr>"
    using c(3) by (simp add: store_def v min_absorb2)
  then show st: "pipe_ok (store pipebuf (take (nat chars) buf) p1)"
    "contents (store pipebuf (take (nat chars) buf) p1) = contents p @ take (nat chars) buf"
    using write_round[OF assms(1), of "take c buf"] c(2-4) by (simp_all add: v(2) min_absorb2)
  show "pipe_ok p1" using st(1) assms(1) by (simp add: pipe_ok_def store_def v(3))
  show "same_ends p p1" by (simp add: same_ends_def v(3))
qed

lemma write_loop_spec:
  "pipe_ok p \<Longrightarrow> \<exists>p'. write_loop buf p = Some (drop (4096 - unat (pi_len p)) buf, p') \<and> pipe_ok p' \<and>
     contents p' = contents p @ take (4096 - unat (pi_len p)) buf \<and> same_ends p p'"
proof (induction "length buf" arbitrary: buf p rule: less_induct)
  case less
  have ok: "unat (pi_len p) \<le> 4096" using less.prems by (simp_all add: pipe_ok_def)
  show ?case
  proof (cases "buf \<noteq> [] \<and> PIPE_FREE p \<noteq> 0")
    case False
    then have "buf = [] \<or> unat (PIPE_FREE p) = 0" by (auto simp: unat_eq_0)
    then have "take (4096 - unat (pi_len p)) buf = []" "drop (4096 - unat (pi_len p)) buf = buf"
      using pipe_free[OF less.prems] by auto
    then show ?thesis using False less.prems by (subst write_loop.simps) (auto simp: same_ends_def)
  next
    case True
    obtain pb ch p0 where cl: "write_claim (int (length buf)) p = (pb, ch, p0)" by (cases "write_claim (int (length buf)) p")
    note W = write_claim_spec[OF less.prems conjunct1[OF True] conjunct2[OF True] cl]
    define c where "c = nat ch"
    define p1 where "p1 = store pb (take c buf) p0"
    have c: "0 < c" "c \<le> length buf" "c \<le> 4096 - unat (pi_len p)" using W(1-3) by (simp_all add: c_def)
    have R: "pipe_ok p1" "contents p1 = contents p @ take c buf" using W(5,6) by (simp_all add: p1_def c_def)
    have l: "unat (pi_len p1) = unat (pi_len p) + c" using arg_cong[OF R(2), of length] c(2) by simp
    have d: "length (drop c buf) < length buf" using c by simp
    obtain p' where I: "write_loop (drop c buf) p1 = Some (drop (4096 - unat (pi_len p1)) (drop c buf), p')" "pipe_ok p'"
      "contents p' = contents p1 @ take (4096 - unat (pi_len p1)) (drop c buf)" "same_ends p1 p'"
      using less.hyps[OF d R(1)] by blast
    have n: "4096 - unat (pi_len p) = c + (4096 - unat (pi_len p1))" using c(3) l ok by linarith
    have "write_loop buf p = write_loop (drop c buf) p1"
      by (subst write_loop.simps) (use True in \<open>simp add: cl c_def p1_def\<close>)
    moreover have "same_ends p p'" using I(4) W(7) by (simp add: same_ends_def p1_def store_def)
    ultimately show ?thesis using I(1-3) by (simp add: R(2) n take_add add.commute)
  qed
qed

section \<open>What the calls do\<close>

lemma lock_ends:
  assumes "same_ends (p\<lparr>pi_lock := pi_lock p + 1\<rparr>) p1"
  shows "same_ends p (p1\<lparr>pi_lock := pi_lock p1 - 1\<rparr>)"
  using assms by (simp add: same_ends_def)

lemma pipe_ok_lock [simp]: "pipe_ok (p\<lparr>pi_lock := x\<rparr>) = pipe_ok p" "contents (p\<lparr>pi_lock := x\<rparr>) = contents p"
  by (simp_all add: pipe_ok_def contents_def)

lemma same_ends_refl [simp]: "same_ends p p"
  by (simp add: same_ends_def)

lemma pipe_read_go:
  assumes "pipe_ok p" "pipe_read_enter f_flags t p = Gate_go"
  obtains p' where "pipe_ok p'" "same_ends p p'" "contents p' = drop (nat count) (contents p)"
    "pipe_read f_flags count t p =
       Some (Some (if take (nat count) (contents p) \<noteq> [] then Inr (take (nat count) (contents p))
                   else if pi_writers p \<noteq> 0 then Inl EAGAIN else Inr []), p')"
proof -
  obtain p1 where 1: "read_loop count (p\<lparr>pi_lock := pi_lock p + 1\<rparr>) [] = Some (take (nat count) (contents p), p1)" "pipe_ok p1"
    "contents p1 = drop (nat count) (contents p)" "same_ends (p\<lparr>pi_lock := pi_lock p + 1\<rparr>) p1"
    using read_loop_spec[of "p\<lparr>pi_lock := pi_lock p + 1\<rparr>" count "[]"] assms(1) by auto
  show ?thesis
    by (rule that[of "p1\<lparr>pi_lock := pi_lock p1 - 1\<rparr>"])
      (use 1 assms(2) lock_ends[OF 1(4)] in \<open>simp_all add: pipe_read_def Let_def same_ends_def\<close>)
qed

text \<open>The answer of a writer that finds no room.\<close>

definition write_blocked :: "u32 \<Rightarrow> u32 \<Rightarrow> u8 list \<Rightarrow> int \<Rightarrow> kstate \<Rightarrow> pipe_inode \<Rightarrow> write_out \<times> kstate" where
  "write_blocked f_flags free buf written k p =
     (if pi_readers p = 0 then (Wr_ret (written_or written EPIPE), sigpipe k)
      else if signal_pending (current k) then (Wr_ret (written_or written ERESTARTSYS), k)
      else if nonblock f_flags then (Wr_ret (written_or written EAGAIN), k)
      else (Wr_sleep free buf written, k))"

lemma write_loop_blocked:
  assumes "buf \<noteq> []" "PIPE_FREE p < free \<or> pi_lock p \<noteq> 0"
  shows "pipe_write_loop f_flags free buf written k p =
    (case write_blocked f_flags free buf written k p of (r, k') \<Rightarrow> Some (r, k', p))"
  using assms by (subst pipe_write_loop.simps) (simp add: write_blocked_def)

lemma write_blocked_cases:
  assumes "0 \<le> written" "write_blocked f_flags free buf written k p = (r, k')"
  shows "case r of Wr_ret (Inr m) \<Rightarrow> m = written | Wr_ret (Inl e) \<Rightarrow> written = 0 | Wr_sleep f b w \<Rightarrow> b = buf \<and> w = written"
  using assms by (auto simp: write_blocked_def written_or_def split: if_splits)

text \<open>A write goes through the ring at most once before it returns or sleeps.\<close>

lemma pipe_write_loop_spec:
  assumes "pipe_ok p" "0 \<le> written" "free \<noteq> 0 \<or> buf = []"
  shows "\<exists>r k' p' n. pipe_write_loop f_flags free buf written k p = Some (r, k', p') \<and> pipe_ok p' \<and> same_ends p p' \<and>
    n \<le> length buf \<and> contents p' = contents p @ take n buf \<and>
    (PIPE_FREE p < free \<or> pi_lock p \<noteq> 0 \<longrightarrow> n = 0) \<and>
    (\<not> (PIPE_FREE p < free \<or> pi_lock p \<noteq> 0) \<longrightarrow> n = min (length buf) (4096 - unat (pi_len p)) \<and>
       (n = length buf \<longrightarrow> r = Wr_ret (Inr (written + int n)))) \<and>
    (case r of Wr_ret (Inr m) \<Rightarrow> m = written + int n | Wr_ret (Inl e) \<Rightarrow> n = 0
     | Wr_sleep f b w \<Rightarrow> b = drop n buf \<and> w = written + int n \<and> f \<noteq> 0)"
proof (cases "buf = []")
  case True
  then show ?thesis using assms by (subst pipe_write_loop.simps) auto
next
  case buf: False
  show ?thesis
  proof (cases "PIPE_FREE p < free \<or> pi_lock p \<noteq> 0")
    case True
    obtain r k' where b: "write_blocked f_flags free buf written k p = (r, k')" by fastforce
    have "f \<noteq> 0" if "r = Wr_sleep f x w" for f x w using b that assms(3) buf by (auto simp: write_blocked_def split: if_splits)
    then show ?thesis using write_loop_blocked[OF buf True] write_blocked_cases[OF assms(2) b] b assms(1) True
      by (intro exI[of _ r] exI[of _ k'] exI[of _ p] exI[of _ 0]) (auto split: write_out.splits sum.splits)
  next
    case False
    let ?f = "4096 - unat (pi_len p)"
    obtain p1 where 1: "write_loop buf (p\<lparr>pi_lock := pi_lock p + 1\<rparr>) = Some (drop ?f buf, p1)" "pipe_ok p1"
      "contents p1 = contents p @ take ?f buf" "same_ends (p\<lparr>pi_lock := pi_lock p + 1\<rparr>) p1"
      using write_loop_spec[of "p\<lparr>pi_lock := pi_lock p + 1\<rparr>" buf] assms(1) by auto
    define p2 where "p2 = p1\<lparr>pi_lock := pi_lock p1 - 1\<rparr>"
    have 2: "pipe_ok p2" "contents p2 = contents p @ take ?f buf" "same_ends p p2"
      using 1(2,3) lock_ends[OF 1(4)] by (simp_all add: p2_def)
    let ?n = "min (length buf) ?f" and ?w = "written + (int (length buf) - int (length (drop ?f buf)))"
    have w: "?w = written + int ?n" by auto
    have e: "pipe_write_loop f_flags free buf written k p = pipe_write_loop f_flags 1 (drop ?f buf) ?w k p2"
      using buf False 1(1) by (subst pipe_write_loop.simps) (simp add: p2_def)
    show ?thesis
    proof (cases "drop ?f buf = []")
      case True
      then have "pipe_write_loop f_flags 1 (drop ?f buf) ?w k p2 = Some (Wr_ret (Inr ?w), k, p2)"
        by (subst pipe_write_loop.simps) simp
      then show ?thesis using e w 2 False
        by (intro exI[of _ "Wr_ret (Inr ?w)"] exI[of _ k] exI[of _ p2] exI[of _ ?n]) (simp add: min_def)
    next
      case rest: False
      have "unat (pi_len p2) = 4096"
        using arg_cong[OF 2(2), of length] rest assms(1) by (auto simp: pipe_ok_def)
      then have full: "PIPE_FREE p2 < 1 \<or> pi_lock p2 \<noteq> 0" using pipe_free[OF 2(1)] by (simp add: word_less_nat_alt)
      obtain r k' where b: "write_blocked f_flags 1 (drop ?f buf) ?w k p2 = (r, k')" by fastforce
      have pos: "0 < ?f" using False assms(3) buf pipe_free[OF assms(1)]
        by (metis not_gr_zero unat_eq_0 word_gt_0)
      have "0 < ?n" using pos buf by simp
      then obtain m where m: "?n = Suc m" using gr0_implies_Suc by blast
      have w0: "0 \<le> ?w" "?w \<noteq> 0" using assms(2) unfolding w m by linarith+
      have "f \<noteq> 0" if "r = Wr_sleep f x y" for f x y using b that by (auto simp: write_blocked_def split: if_splits)
      moreover have "drop ?f buf = drop ?n buf" "?n \<noteq> length buf" using rest by (simp_all add: min_def)
      moreover have "take ?f buf = take ?n buf" by (simp add: min_def)
      ultimately show ?thesis using e w 2 False write_loop_blocked[OF rest full] write_blocked_cases[OF w0(1) b] b w0(2)
        by (intro exI[of _ r] exI[of _ k'] exI[of _ p2] exI[of _ ?n]) (auto split: write_out.splits sum.splits)
    qed
  qed
qed

text \<open>
  C21. A pipe is a queue of bytes. A read always ends; the bytes it returns are the oldest
  ones in order, as many as asked for or as there are, and it returns none with success only at end of file or
  when none were asked for. In every other outcome (an error, or sleeping) the pipe is unchanged.
\<close>

theorem pipe_read_exact:
  assumes "pipe_ok p" "0 < count"
  shows "\<exists>r p'. pipe_read f_flags count t p = Some (r, p') \<and> pipe_ok p' \<and> same_ends p p' \<and>
    (case r of
       Some (Inr out) \<Rightarrow> out @ contents p' = contents p \<and> int (length out) = min count (uint (pi_len p)) \<and>
         (out = [] \<longrightarrow> pi_len p = 0 \<and> pi_writers p = 0)
     | _ \<Rightarrow> p' = p)"
proof (cases "pipe_read_enter f_flags t p")
  case Gate_go
  then have ne: "pi_len p \<noteq> 0" by (auto simp: pipe_read_enter_def PIPE_EMPTY_def split: if_splits)
  then have "contents p \<noteq> []" using length_contents[of p] by (metis list.size(3) unat_eq_0)
  then have out: "take (nat count) (contents p) \<noteq> []" using assms(2) by simp
  have l: "int (length (take (nat count) (contents p))) = min count (uint (pi_len p))"
    using assms(2) by (simp add: of_nat_min min.commute)
  show ?thesis by (rule pipe_read_go[OF assms(1) Gate_go, of count]) (use out l ne in auto)
qed (use assms in \<open>auto simp: pipe_read_def pipe_read_enter_def PIPE_EMPTY_def contents_def split: if_splits\<close>)

text \<open>What one pass of a write of at most \<^verbatim>\<open>PIPE_BUF\<close> bytes may do: all, or nothing, and then try again.\<close>

definition all_or_nothing :: "u8 list \<Rightarrow> pipe_inode \<Rightarrow> (write_out \<times> kstate \<times> pipe_inode) option \<Rightarrow> bool" where
  "all_or_nothing buf p x \<longleftrightarrow> (\<exists>r k' p'. x = Some (r, k', p') \<and> pipe_ok p' \<and> same_ends p p' \<and>
     (case r of
        Wr_ret (Inr n) \<Rightarrow> n = int (length buf) \<and> contents p' = contents p @ buf
      | Wr_ret (Inl e) \<Rightarrow> contents p' = contents p
      | Wr_sleep free b written \<Rightarrow>
          contents p' = contents p \<and> free = word_of_int (int (length buf)) \<and> b = buf \<and> written = 0))"

lemma write_pass:
  assumes "pipe_ok p" "length buf \<le> 4096"
  shows "all_or_nothing buf p (pipe_write_loop f_flags (word_of_int (int (length buf))) buf 0 k p)"
proof -
  let ?free = "word_of_int (int (length buf)) :: u32"
  have u: "unat ?free = length buf" using assms(2) unat_word_of_nat[of "length buf"] by simp
  have f: "?free \<noteq> 0 \<or> buf = []" using u by (metis length_0_conv unat_0)
  consider (none) "buf = []" | (blocked) "buf \<noteq> []" "PIPE_FREE p < ?free \<or> pi_lock p \<noteq> 0"
    | (room) "buf \<noteq> []" "\<not> (PIPE_FREE p < ?free \<or> pi_lock p \<noteq> 0)" by blast
  then show ?thesis
  proof cases
    case none
    then show ?thesis using assms(1) by (subst pipe_write_loop.simps) (simp add: all_or_nothing_def)
  next
    case blocked
    then show ?thesis using write_loop_blocked[OF blocked, of f_flags 0 k] assms(1)
      by (auto simp: all_or_nothing_def write_blocked_def written_or_def)
  next
    case room
    then have "length buf \<le> 4096 - unat (pi_len p)" using u pipe_free[OF assms(1)] by (simp add: word_less_nat_alt)
    then show ?thesis using room pipe_write_loop_spec[OF assms(1) order_refl f, of f_flags k] by (auto simp: all_or_nothing_def)
  qed
qed

text \<open>
  C15. A write of at most \<^verbatim>\<open>PIPE_BUF\<close> bytes is atomic. It returns with all of its bytes appended in order,
  or with an error and none of them written, or it sleeps with none of them written; and when it
  wakes up, whatever the pipe holds then, what it goes on with is the whole buffer, with the same outcomes.
\<close>

theorem pipe_write_atomic:
  assumes "pipe_ok p" "length buf \<le> 4096"
  shows "all_or_nothing buf p (pipe_write f_flags buf k p) \<and>
    all_or_nothing buf p (pipe_write_loop f_flags (word_of_int (int (length buf))) buf 0 k p)"
proof
  show "all_or_nothing buf p (pipe_write f_flags buf k p)"
  proof (cases "pi_readers p = 0")
    case True
    then show ?thesis using assms by (simp add: pipe_write_def all_or_nothing_def)
  next
    case False
    then have "pipe_write f_flags buf k p = pipe_write_loop f_flags (word_of_int (int (length buf))) buf 0 k p"
      using assms(2) by (simp add: pipe_write_def kconst)
    then show ?thesis using write_pass[OF assms, of f_flags k] by simp
  qed
qed (rule write_pass[OF assms])

section \<open>The stream of bytes\<close>

text \<open>
  A process inside one of the two loops: between rounds, with the bytes it still wants or has to write,
  or asleep while bytes are copied, with the part of the ring that it has claimed.
\<close>

datatype pipe_pc = Rd_loop int | Rd_copy nat int int | Wr_loop "u8 list" | Wr_copy nat "u8 list" "u8 list"

record pipe_sys =
  ps_pipe :: pipe_inode
  ps_inside :: "pipe_pc list"
  ps_sent :: "u8 list"
  ps_got :: "u8 list"

text \<open>What a pass of the writing loop has taken of the buffer, as its outcome tells the writer.\<close>

definition wr_taken :: "u8 list \<Rightarrow> int \<Rightarrow> write_out \<Rightarrow> u8 list" where
  "wr_taken buf written r =
     (case r of
        Wr_ret (Inr m) \<Rightarrow> take (nat (m - written)) buf
      | Wr_ret (Inl _) \<Rightarrow> []
      | Wr_sleep _ b _ \<Rightarrow> take (length buf - length b) buf)"

definition rd_taken :: "u8 list res option \<Rightarrow> u8 list" where
  "rd_taken r = (case r of Some (Inr out) \<Rightarrow> out | _ \<Rightarrow> [])"

definition leave :: "nat \<Rightarrow> pipe_sys \<Rightarrow> pipe_sys" where
  "leave i s = s\<lparr>ps_pipe := (ps_pipe s)\<lparr>pi_lock := pi_lock (ps_pipe s) - 1\<rparr>,
     ps_inside := take i (ps_inside s) @ drop (Suc i) (ps_inside s)\<rparr>"

text \<open>
  The calls of any number of processes: passes during which nobody sleeps, and passes that are
  interleaved, because the copies from and to the callers may sleep with the lock held.
\<close>

inductive pipe_step :: "pipe_sys \<Rightarrow> pipe_sys \<Rightarrow> bool" where
  rd: "pipe_read f_flags count t (ps_pipe s) = Some (r, p') \<Longrightarrow>
    pipe_step s (s\<lparr>ps_pipe := p', ps_got := ps_got s @ rd_taken r\<rparr>)"
| wr: "pipe_write f_flags buf k (ps_pipe s) = Some (r, k', p') \<Longrightarrow>
    pipe_step s (s\<lparr>ps_pipe := p', ps_sent := ps_sent s @ wr_taken buf 0 r\<rparr>)"
| wake: "0 \<le> written \<Longrightarrow> free \<noteq> 0 \<Longrightarrow> pipe_write_loop f_flags free buf written k (ps_pipe s) = Some (r, k', p') \<Longrightarrow>
    pipe_step s (s\<lparr>ps_pipe := p', ps_sent := ps_sent s @ wr_taken buf written r\<rparr>)"
| rel: "pipe_step s (s\<lparr>ps_pipe := do_release op (ps_pipe s)\<rparr>)"
| rd_enter: "pipe_read_enter f_flags t (ps_pipe s) = Gate_go \<Longrightarrow>
    pipe_step s (s\<lparr>ps_pipe := (ps_pipe s)\<lparr>pi_lock := pi_lock (ps_pipe s) + 1\<rparr>, ps_inside := ps_inside s @ [Rd_loop count]\<rparr>)"
| rd_round: "i < length (ps_inside s) \<Longrightarrow> ps_inside s ! i = Rd_loop count \<Longrightarrow> count > 0 \<and> pi_len (ps_pipe s) \<noteq> 0 \<Longrightarrow>
    read_claim count (ps_pipe s) = (pipebuf, chars, p') \<Longrightarrow>
    pipe_step s (s\<lparr>ps_pipe := p', ps_inside := (ps_inside s)[i := Rd_copy pipebuf chars (count - chars)]\<rparr>)"
| rd_copied: "i < length (ps_inside s) \<Longrightarrow> ps_inside s ! i = Rd_copy pipebuf chars count \<Longrightarrow>
    pipe_step s (s\<lparr>ps_inside := (ps_inside s)[i := Rd_loop count], ps_got := ps_got s @ fetch pipebuf chars (ps_pipe s)\<rparr>)"
| rd_leave: "i < length (ps_inside s) \<Longrightarrow> ps_inside s ! i = Rd_loop count \<Longrightarrow> \<not> (count > 0 \<and> pi_len (ps_pipe s) \<noteq> 0) \<Longrightarrow>
    pipe_step s (leave i s)"
| wr_enter: "buf \<noteq> [] \<Longrightarrow> \<not> (PIPE_FREE (ps_pipe s) < free \<or> pi_lock (ps_pipe s) \<noteq> 0) \<Longrightarrow>
    pipe_step s (s\<lparr>ps_pipe := (ps_pipe s)\<lparr>pi_lock := pi_lock (ps_pipe s) + 1\<rparr>, ps_inside := ps_inside s @ [Wr_loop buf]\<rparr>)"
| wr_round: "i < length (ps_inside s) \<Longrightarrow> ps_inside s ! i = Wr_loop buf \<Longrightarrow> buf \<noteq> [] \<and> PIPE_FREE (ps_pipe s) \<noteq> 0 \<Longrightarrow>
    write_claim (int (length buf)) (ps_pipe s) = (pipebuf, chars, p') \<Longrightarrow>
    pipe_step s (s\<lparr>ps_pipe := p', ps_inside := (ps_inside s)[i := Wr_copy pipebuf (take (nat chars) buf) (drop (nat chars) buf)],
      ps_sent := ps_sent s @ take (nat chars) buf\<rparr>)"
| wr_copied: "i < length (ps_inside s) \<Longrightarrow> ps_inside s ! i = Wr_copy pipebuf xs buf \<Longrightarrow>
    pipe_step s (s\<lparr>ps_pipe := store pipebuf xs (ps_pipe s), ps_inside := (ps_inside s)[i := Wr_loop buf]\<rparr>)"
| wr_leave: "i < length (ps_inside s) \<Longrightarrow> ps_inside s ! i = Wr_loop buf \<Longrightarrow> \<not> (buf \<noteq> [] \<and> PIPE_FREE (ps_pipe s) \<noteq> 0) \<Longrightarrow>
    pipe_step s (leave i s)"

definition pipe_empty :: "pipe_sys \<Rightarrow> bool" where
  "pipe_empty s \<longleftrightarrow> pipe_ok (ps_pipe s) \<and> pi_len (ps_pipe s) = 0 \<and> ps_inside s = [] \<and> ps_sent s = [] \<and> ps_got s = []"

text \<open>The bytes claimed by a reader that has not got them yet, and the pipe when a writer's copy is done.\<close>

definition in_flight :: "pipe_sys \<Rightarrow> u8 list" where
  "in_flight s = (case ps_inside s of [Rd_copy pipebuf chars _] \<Rightarrow> fetch pipebuf chars (ps_pipe s) | _ \<Rightarrow> [])"

definition settled_pipe :: "pipe_sys \<Rightarrow> pipe_inode" where
  "settled_pipe s = (case ps_inside s of [Wr_copy pipebuf xs _] \<Rightarrow> store pipebuf xs (ps_pipe s) | _ \<Rightarrow> ps_pipe s)"

definition pipe_inv :: "pipe_sys \<Rightarrow> bool" where
  "pipe_inv s \<longleftrightarrow> pipe_ok (ps_pipe s) \<and> pipe_ok (settled_pipe s) \<and>
     ps_got s @ in_flight s @ contents (settled_pipe s) = ps_sent s \<and>
     (ps_inside s = [] \<or> length (ps_inside s) = 1 \<and> pi_lock (ps_pipe s) = 1)"

lemma inside_cases:
  assumes "pipe_inv s" "i < length (ps_inside s)" "ps_inside s ! i = pc"
  shows "i = 0" "ps_inside s = [pc]" "pi_lock (ps_pipe s) = 1"
  using assms by (auto simp: pipe_inv_def length_Suc_conv)

lemma wr_taken_eq:
  assumes "n \<le> length buf" "case r of Wr_ret (Inr m) \<Rightarrow> m = written + int n | Wr_ret (Inl e) \<Rightarrow> n = 0
     | Wr_sleep f b w \<Rightarrow> b = drop n buf \<and> w = written + int n \<and> f \<noteq> 0"
  shows "wr_taken buf written r = take n buf"
  using assms by (auto simp: wr_taken_def split: write_out.splits sum.splits)

text \<open>A pass that finds the lock taken changes nothing; otherwise nobody is inside.\<close>

lemma write_loop_inv:
  assumes inv: "pipe_inv s" and w: "0 \<le> written" "free \<noteq> 0 \<or> buf = []"
    and e: "pipe_write_loop f_flags free buf written k (ps_pipe s) = Some (r, k', p')"
  shows "pipe_inv (s\<lparr>ps_pipe := p', ps_sent := ps_sent s @ wr_taken buf written r\<rparr>)"
proof -
  have k: "pipe_ok (ps_pipe s)" using inv by (simp add: pipe_inv_def)
  obtain n where n: "pipe_ok p'" "same_ends (ps_pipe s) p'" "contents p' = contents (ps_pipe s) @ take n buf" "wr_taken buf written r = take n buf"
    using pipe_write_loop_spec[OF k w, of f_flags k] e wr_taken_eq[where buf = buf and r = r and written = written] by force
  show ?thesis
  proof (cases "ps_inside s = []")
    case True
    then have "ps_got s @ contents (ps_pipe s) = ps_sent s" using inv by (simp add: pipe_inv_def in_flight_def settled_pipe_def)
    then show ?thesis using n(1) True by (auto simp: pipe_inv_def in_flight_def settled_pipe_def n(3,4))
  next
    case False
    then have lk: "pi_lock (ps_pipe s) \<noteq> 0" using inv by (auto simp: pipe_inv_def)
    have "p' = ps_pipe s \<and> wr_taken buf written r = []"
    proof (cases "buf = []")
      case True
      then show ?thesis using e n(4) by (subst (asm) pipe_write_loop.simps) auto
    next
      case False
      then have "p' = ps_pipe s" using write_loop_blocked[of buf "ps_pipe s" free f_flags written k] lk e by (auto split: prod.splits)
      then show ?thesis using n(3,4) by simp
    qed
    then show ?thesis using inv by simp
  qed
qed

lemma read_inv:
  assumes inv: "pipe_inv s" and e: "pipe_read f_flags count t (ps_pipe s) = Some (r, p')"
  shows "pipe_inv (s\<lparr>ps_pipe := p', ps_got := ps_got s @ rd_taken r\<rparr>)"
proof (cases "pipe_read_enter f_flags t (ps_pipe s)")
  case Gate_go
  then have "pi_lock (ps_pipe s) = 0" by (auto simp: pipe_read_enter_def split: if_splits)
  then have out: "ps_inside s = []" using inv by (auto simp: pipe_inv_def)
  have k: "pipe_ok (ps_pipe s)" "ps_got s @ contents (ps_pipe s) = ps_sent s"
    using inv out by (simp_all add: pipe_inv_def in_flight_def settled_pipe_def)
  obtain p1 where p1: "pipe_ok p1" "contents p1 = drop (nat count) (contents (ps_pipe s))"
    "pipe_read f_flags count t (ps_pipe s) =
       Some (Some (if take (nat count) (contents (ps_pipe s)) \<noteq> [] then Inr (take (nat count) (contents (ps_pipe s)))
                   else if pi_writers (ps_pipe s) \<noteq> 0 then Inl EAGAIN else Inr []), p1)"
    by (rule pipe_read_go[OF k(1) Gate_go])
  have "p' = p1" "rd_taken r = take (nat count) (contents (ps_pipe s))"
    using e unfolding p1(3) by (auto simp: rd_taken_def)
  then show ?thesis using k(2) p1(1) out by (simp add: pipe_inv_def in_flight_def settled_pipe_def p1(2))
qed (use assms in \<open>auto simp: pipe_read_def rd_taken_def\<close>)

lemma release_same [simp]:
  "pi_base (do_release op p) = pi_base p" "pi_start (do_release op p) = pi_start p" "pi_len (do_release op p) = pi_len p"
  "pi_lock (do_release op p) = pi_lock p"
  by (cases op; simp add: pipe_read_release_def pipe_write_release_def pipe_rdwr_release_def)+

lemma release_inv: "pipe_inv s \<Longrightarrow> pipe_inv (s\<lparr>ps_pipe := do_release op (ps_pipe s)\<rparr>)"
  by (auto simp: pipe_inv_def pipe_ok_def contents_def in_flight_def settled_pipe_def store_def fetch_def split: list.splits pipe_pc.splits)

lemma enter_inv:
  assumes "pipe_inv s" "pi_lock (ps_pipe s) = 0" "pc = Rd_loop count \<or> pc = Wr_loop buf"
  shows "pipe_inv (s\<lparr>ps_pipe := (ps_pipe s)\<lparr>pi_lock := pi_lock (ps_pipe s) + 1\<rparr>, ps_inside := ps_inside s @ [pc]\<rparr>)"
  using assms by (auto simp: pipe_inv_def in_flight_def settled_pipe_def)

lemma leave_inv:
  assumes "pipe_inv s" "i < length (ps_inside s)" "ps_inside s ! i = pc" "pc = Rd_loop count \<or> pc = Wr_loop buf"
  shows "pipe_inv (leave i s)"
  using assms(1,4) inside_cases[OF assms(1-3)] by (auto simp: pipe_inv_def leave_def in_flight_def settled_pipe_def)

lemma pipe_step_inv: "pipe_step s s' \<Longrightarrow> pipe_inv s \<Longrightarrow> pipe_inv s'"
proof (induction rule: pipe_step.induct)
  case (rd f_flags count t s r p')
  then show ?case by (simp add: read_inv)
next
  case (wr f_flags buf k s r k' p')
  show ?case
  proof (cases "pi_readers (ps_pipe s) = 0")
    case True
    then show ?thesis using wr by (auto simp: pipe_write_def wr_taken_def)
  next
    case False
    define free :: u32 where "free = (if int (length buf) \<le> uint PIPE_BUF then word_of_int (int (length buf)) else 1)"
    have "free \<noteq> 0 \<or> buf = []" using free_word_0[of "length buf"] by (auto simp: free_def kconst)
    moreover have "pipe_write_loop f_flags free buf 0 k (ps_pipe s) = Some (r, k', p')"
      using wr.hyps False by (simp add: pipe_write_def free_def)
    ultimately show ?thesis using write_loop_inv[OF wr.prems order_refl] by blast
  qed
next
  case (wake written free f_flags buf k s r k' p')
  then show ?case by (intro write_loop_inv) auto
next
  case (rel s op)
  then show ?case by (rule release_inv)
next
  case (rd_enter f_flags t s count)
  then have "pi_lock (ps_pipe s) = 0" by (auto simp: pipe_read_enter_def split: if_splits)
  then show ?case using rd_enter.prems by (intro enter_inv) auto
next
  case (rd_round i s count pipebuf chars p')
  note I = inside_cases[OF rd_round.prems rd_round.hyps(1,2)]
  have k: "pipe_ok (ps_pipe s)" "ps_got s @ contents (ps_pipe s) = ps_sent s"
    using rd_round.prems I(2) by (simp_all add: pipe_inv_def in_flight_def settled_pipe_def)
  note R = read_claim_spec[OF k(1) conjunct1[OF rd_round.hyps(3)] conjunct2[OF rd_round.hyps(3)] rd_round.hyps(4)]
  show ?case using k(2) R(3-6) I by (simp add: pipe_inv_def in_flight_def settled_pipe_def same_ends_def)
next
  case (rd_copied i s pipebuf chars count)
  then show ?case using inside_cases[OF rd_copied.prems rd_copied.hyps(1,2)] by (simp add: pipe_inv_def in_flight_def settled_pipe_def)
next
  case (rd_leave i s count)
  show ?case using leave_inv[OF rd_leave.prems rd_leave.hyps(1,2)] by blast
next
  case (wr_enter buf s free)
  then show ?case by (intro enter_inv) auto
next
  case (wr_round i s buf pipebuf chars p')
  note I = inside_cases[OF wr_round.prems wr_round.hyps(1,2)]
  have k: "pipe_ok (ps_pipe s)" "ps_got s @ contents (ps_pipe s) = ps_sent s"
    using wr_round.prems I(2) by (simp_all add: pipe_inv_def in_flight_def settled_pipe_def)
  note W = write_claim_spec[OF k(1) conjunct1[OF wr_round.hyps(3)] conjunct2[OF wr_round.hyps(3)] wr_round.hyps(4)]
  have "ps_got s @ contents (store pipebuf (take (nat chars) buf) p') = ps_sent s @ take (nat chars) buf" using k(2) W(6) by auto
  then show ?case using W(4,5,7) I by (simp add: pipe_inv_def in_flight_def settled_pipe_def same_ends_def)
next
  case (wr_copied i s pipebuf xs buf)
  then show ?case using inside_cases[OF wr_copied.prems wr_copied.hyps(1,2)]
    by (simp add: pipe_inv_def in_flight_def settled_pipe_def store_def)
next
  case (wr_leave i s buf)
  show ?case using leave_inv[OF wr_leave.prems wr_leave.hyps(1,2)] by blast
qed

interpretation pipes: invariant_system pipe_empty pipe_step pipe_inv
proof unfold_locales
  fix s assume "pipe_empty s"
  then show "pipe_inv s" by (simp add: pipe_empty_def pipe_inv_def contents_def in_flight_def settled_pipe_def)
qed (rule pipe_step_inv)

text \<open>
  C8. Over any sequence of reads, writes and returns from sleep by any number of processes, with short
  and long buffers, blocking or not, interleaved also while bytes are copied with the lock held: what the
  readers have received, followed by what a reader is copying and by what is in the pipe when the copy of a
  writer is done, is what the writers have written. No byte is lost, duplicated or reordered, the pipe
  holds at most a page, and at most one process is inside the loops.
\<close>

theorem pipe_stream:
  assumes "reach pipe_empty pipe_step s"
  shows "ps_got s @ in_flight s @ contents (settled_pipe s) = ps_sent s \<and>
    (ps_inside s = [] \<longrightarrow> ps_got s @ contents (ps_pipe s) = ps_sent s) \<and>
    length (contents (ps_pipe s)) \<le> 4096 \<and> length (ps_inside s) \<le> 1"
  using pipes.reach_inv[OF assms] by (auto simp: pipe_inv_def pipe_ok_def in_flight_def settled_pipe_def)

text \<open>
  C35. What \<^verbatim>\<open>select\<close> says about a pipe is what calls that may not block find, up to the lock and the
  atomicity of short writes: a read is refused with \<^verbatim>\<open>EAGAIN\<close> exactly when the pipe is locked or not
  reported readable; a write is refused with \<^verbatim>\<open>EAGAIN\<close> exactly when there are readers, no signal is pending and
  the pipe is locked, not reported writable, or has less room than a write of at most \<^verbatim>\<open>PIPE_BUF\<close> bytes needs.
\<close>

theorem pipe_select_truthful:
  assumes "pipe_ok p" "nonblock f_flags" "0 < count" "buf \<noteq> []"
  shows "((\<exists>p'. pipe_read f_flags count t p = Some (Some (Inl EAGAIN), p')) \<longleftrightarrow> pi_lock p \<noteq> 0 \<or> \<not> pipe_select SEL_IN p) \<and>
    ((\<exists>k' p'. pipe_write f_flags buf k p = Some (Wr_ret (Inl EAGAIN), k', p')) \<longleftrightarrow>
       pi_readers p \<noteq> 0 \<and> \<not> signal_pending (current k) \<and>
       (pi_lock p \<noteq> 0 \<or> \<not> pipe_select SEL_OUT p \<or> length buf \<le> 4096 \<and> 4096 - unat (pi_len p) < length buf))"
proof
  show "(\<exists>p'. pipe_read f_flags count t p = Some (Some (Inl EAGAIN), p')) \<longleftrightarrow> pi_lock p \<noteq> 0 \<or> \<not> pipe_select SEL_IN p"
  proof (cases "PIPE_EMPTY p \<or> pi_lock p \<noteq> 0")
    case True
    then show ?thesis using assms(2) by (auto simp: pipe_select_def pipe_read_def pipe_read_enter_def)
  next
    case False
    then have g: "pipe_read_enter f_flags t p = Gate_go" using assms(2) by (simp add: pipe_read_enter_def)
    have "contents p \<noteq> []" using False length_contents[of p] by (metis PIPE_EMPTY_def list.size(3) unat_eq_0)
    then have out: "take (nat count) (contents p) \<noteq> []" using assms(3) by simp
    show ?thesis by (rule pipe_read_go[OF assms(1) g, of count]) (use out False in \<open>simp add: pipe_select_def\<close>)
  qed
  have l: "unat (pi_len p) \<le> 4096" using assms(1) by (simp add: pipe_ok_def)
  have full: "PIPE_FULL p \<longleftrightarrow> 4096 - unat (pi_len p) = 0"
    using l by (simp add: PIPE_FULL_def kconst word_unat_eq_iff)
  define free :: u32 where "free = (if int (length buf) \<le> uint PIPE_BUF then word_of_int (int (length buf)) else 1)"
  have lb: "1 \<le> length buf" using assms(4) by (simp add: Suc_le_eq)
  have uf: "unat free = (if length buf \<le> 4096 then length buf else 1)"
    using unat_word_of_nat[of "length buf"] by (simp add: free_def kconst)
  have f0: "free \<noteq> 0 \<or> buf = []" using uf lb by (auto simp flip: unat_eq_0)
  have room: "PIPE_FREE p < free \<longleftrightarrow> PIPE_FULL p \<or> length buf \<le> 4096 \<and> 4096 - unat (pi_len p) < length buf"
    unfolding full using pipe_free[OF assms(1)] uf lb by (auto simp: word_less_nat_alt)
  have w: "pipe_write f_flags buf k p =
      (if pi_readers p = 0 then Some (Wr_ret (Inl EPIPE), sigpipe k, p) else pipe_write_loop f_flags free buf 0 k p)"
    by (simp add: pipe_write_def free_def)
  show "(\<exists>k' p'. pipe_write f_flags buf k p = Some (Wr_ret (Inl EAGAIN), k', p')) \<longleftrightarrow>
       pi_readers p \<noteq> 0 \<and> \<not> signal_pending (current k) \<and>
       (pi_lock p \<noteq> 0 \<or> \<not> pipe_select SEL_OUT p \<or> length buf \<le> 4096 \<and> 4096 - unat (pi_len p) < length buf)"
  proof (cases "pi_readers p = 0 \<or> (PIPE_FREE p < free \<or> pi_lock p \<noteq> 0)")
    case True
    then show ?thesis using assms(2) write_loop_blocked[OF assms(4), of p free f_flags 0 k] unfolding w
      by (auto simp: pipe_select_def kconst write_blocked_def written_or_def room)
  next
    case False
    then have nb: "\<not> (PIPE_FREE p < free \<or> pi_lock p \<noteq> 0)" by blast
    obtain r k' p' n where r: "pipe_write_loop f_flags free buf 0 k p = Some (r, k', p')"
      "\<not> (PIPE_FREE p < free \<or> pi_lock p \<noteq> 0) \<longrightarrow> n = min (length buf) (4096 - unat (pi_len p)) \<and>
         (n = length buf \<longrightarrow> r = Wr_ret (Inr (0 + int n)))"
      "case r of Wr_ret (Inr m) \<Rightarrow> m = 0 + int n | Wr_ret (Inl e) \<Rightarrow> n = 0
       | Wr_sleep f b w \<Rightarrow> b = drop n buf \<and> w = 0 + int n \<and> f \<noteq> 0"
      using pipe_write_loop_spec[OF assms(1) order_refl f0, of f_flags k] by blast
    have "n \<noteq> 0" using r(2) nb room full lb by auto
    then have "r \<noteq> Wr_ret (Inl EAGAIN)" using r(3) by auto
    then show ?thesis using r(1) False room unfolding w by (auto simp: pipe_select_def kconst)
  qed
qed

definition example_pipe :: pipe_inode where
  "example_pipe = \<lparr>pi_base = replicate 4096 0, pi_start = 4094, pi_len = 0, pi_lock = 0, pi_rd_openers = 0, pi_wr_openers = 0,
     pi_readers = 1, pi_writers = 1\<rparr>"

definition example_kernel :: kstate where
  "example_kernel = \<lparr>k_task = (\<lambda>_. Some INIT_TASK), k_ring = [1], k_current = 1, k_woken = []\<rparr>"

lemma example_pipe_ok: "pipe_ok example_pipe" "contents example_pipe = []"
  by (simp_all add: example_pipe_def pipe_ok_def contents_def)

lemma example_no_signal: "\<not> signal_pending (current example_kernel)"
  by (simp add: example_kernel_def current_def the_task_def signal_pending_def INIT_TASK_def)

theorem pipe_read_exact_witness:
  "\<exists>r p'. pipe_read 0 2 INIT_TASK example_pipe = Some (r, p') \<and> pipe_ok p' \<and> same_ends example_pipe p'"
  using pipe_read_exact[OF example_pipe_ok(1), of 2 0 INIT_TASK] by auto

theorem pipe_write_atomic_witness:
  "all_or_nothing [1, 2, 3] example_pipe (pipe_write 0 [1, 2, 3] example_kernel example_pipe)"
  using pipe_write_atomic[OF example_pipe_ok(1), of "[1, 2, 3]"] by simp

text \<open>Three bytes are written across the end of the page and two are read.\<close>

lemma example_stream_reach:
  "\<exists>s. reach pipe_empty pipe_step s \<and> ps_sent s = [1, 2, 3] \<and> ps_got s = [1, 2] \<and> ps_inside s = []"
proof -
  let ?s = "\<lparr>ps_pipe = example_pipe, ps_inside = [], ps_sent = [], ps_got = []\<rparr>"
  have r0: "reach pipe_empty pipe_step ?s"
    by (rule reach_init) (simp add: pipe_empty_def example_pipe_ok, simp add: example_pipe_def)
  have room: "\<not> (PIPE_FREE example_pipe < 3 \<or> pi_lock example_pipe \<noteq> 0)" "unat (pi_len example_pipe) = 0" "pi_readers example_pipe \<noteq> 0"
    by (simp_all add: example_pipe_def PIPE_FREE_def kconst)
  have w: "pipe_write O_NONBLOCK [1, 2, 3] example_kernel example_pipe = pipe_write_loop O_NONBLOCK 3 [1, 2, 3] 0 example_kernel example_pipe"
    using room(3) by (simp add: pipe_write_def kconst)
  obtain k' p' where p': "pipe_write O_NONBLOCK [1, 2, 3] example_kernel example_pipe = Some (Wr_ret (Inr 3), k', p')"
    "pipe_ok p'" "same_ends example_pipe p'" "contents p' = [1, 2, 3]"
    using pipe_write_loop_spec[OF example_pipe_ok(1) order_refl, of 3 "[1, 2, 3]" O_NONBLOCK example_kernel] room
    unfolding w by (auto simp: example_pipe_ok(2))
  define s1 where "s1 = ?s\<lparr>ps_pipe := p', ps_sent := [1, 2, 3]\<rparr>"
  have r1: "reach pipe_empty pipe_step s1"
    by (rule reach_step[OF r0]) (use wr[of O_NONBLOCK "[1, 2, 3]" example_kernel ?s] p'(1) in \<open>simp add: s1_def wr_taken_def\<close>)
  have "pi_len p' \<noteq> 0" "pi_lock p' = 0"
    using length_contents[of p'] p'(3,4) by (auto simp: same_ends_def example_pipe_def simp flip: unat_eq_0)
  then have g: "pipe_read_enter O_NONBLOCK INIT_TASK p' = Gate_go" by (simp add: pipe_read_enter_def PIPE_EMPTY_def nonblock_def kconst)
  obtain p2 where p2: "pipe_read O_NONBLOCK 2 INIT_TASK p' = Some (Some (Inr [1, 2]), p2)"
    by (rule pipe_read_go[OF p'(2) g, of 2]) (use p'(4) in simp)
  have "reach pipe_empty pipe_step (s1\<lparr>ps_pipe := p2, ps_got := [1, 2]\<rparr>)"
    by (rule reach_step[OF r1]) (use rd[of O_NONBLOCK 2 INIT_TASK s1] p2 in \<open>simp add: s1_def rd_taken_def\<close>)
  then show ?thesis by (intro exI[of _ "s1\<lparr>ps_pipe := p2, ps_got := [1, 2]\<rparr>"]) (simp add: s1_def)
qed

theorem pipe_stream_witness: "\<exists>s. reach pipe_empty pipe_step s \<and> ps_got s = [1, 2] \<and> contents (ps_pipe s) = [3]"
proof -
  obtain s where s: "reach pipe_empty pipe_step s" "ps_sent s = [1, 2, 3]" "ps_got s = [1, 2]" "ps_inside s = []"
    using example_stream_reach by blast
  then show ?thesis using pipe_stream[OF s(1)] by auto
qed

theorem pipe_select_truthful_witness:
  "\<not> pipe_select SEL_IN example_pipe \<and> (\<exists>p'. pipe_read O_NONBLOCK 2 INIT_TASK example_pipe = Some (Some (Inl EAGAIN), p'))"
  using pipe_select_truthful[OF example_pipe_ok(1), of O_NONBLOCK 2 "[0]" INIT_TASK]
  by (auto simp: nonblock_def kconst example_pipe_def pipe_select_def PIPE_EMPTY_def)

end
