(* ===== verification/Fifo.thy ===== *)
theory Fifo
  imports Pipe
begin

text \<open>
  Opening named pipes (\<^verbatim>\<open>fs/fifo.c\<close>). An open that meets no partner sleeps; it is a state machine
  whose states are the places where the code sleeps.
\<close>

section \<open>Opening\<close>

definition init_fifo :: "pipe_inode \<Rightarrow> pipe_inode" where
  "init_fifo p = p\<lparr>pi_lock := 0, pi_base := [], pi_start := 0, pi_len := 0, pi_rd_openers := 0, pi_wr_openers := 0,
     pi_readers := 0, pi_writers := 0\<rparr>"

text \<open>
  \<open>Rd_wait\<close>: for a writer; \<open>Rd_settle\<close>: while writers are opening, with the value to return;
  likewise for writers; \<open>Rw_settle1\<close> and \<open>Rw_settle2\<close>: the two loops of an open for both.
  \<open>Fo_page\<close>: done but for the page.
\<close>

datatype fifo_pc = Fo_closed | Rd_wait | Rd_settle "errno option" | Wr_wait | Wr_settle "errno option"
  | Rw_settle1 | Rw_settle2 | Fo_page pipe_fops | Fo_open pipe_fops

definition fifo_start :: "int \<Rightarrow> u32 \<Rightarrow> pipe_inode \<Rightarrow> (errno + fifo_pc) \<times> pipe_inode" where
  "fifo_start f_mode f_flags p =
     (if f_mode = 1
      then let p1 = p\<lparr>pi_readers := pi_readers p + 1\<rparr> in
           if \<not> nonblock f_flags \<and> pi_writers p1 = 0
           then (Inr Rd_wait, p1\<lparr>pi_rd_openers := pi_rd_openers p1 + 1\<rparr>)
           else (Inr (Rd_settle None), p1)
      else if f_mode = 2
      then if nonblock f_flags \<and> pi_readers p = 0 then (Inl ENXIO, p)
           else let p1 = p\<lparr>pi_writers := pi_writers p + 1\<rparr> in
                if pi_readers p1 = 0
                then (Inr Wr_wait, p1\<lparr>pi_wr_openers := pi_wr_openers p1 + 1\<rparr>)
                else (Inr (Wr_settle None), p1)
      else if f_mode = 3 then (Inr Rw_settle1, p\<lparr>pi_readers := pi_readers p + 1\<rparr>)
      else (Inl EINVAL, p))"

text \<open>One test of the loop the caller is in; the state is unchanged when it sleeps again.\<close>

definition fifo_advance :: "task_struct \<Rightarrow> fifo_pc \<Rightarrow> pipe_inode \<Rightarrow> (errno + fifo_pc) \<times> pipe_inode" where
  "fifo_advance t pc p =
     (case pc of
        Rd_wait \<Rightarrow>
          if pi_writers p \<noteq> 0 then (Inr (Rd_settle None), p\<lparr>pi_rd_openers := pi_rd_openers p - 1\<rparr>)
          else if signal_pending t then (Inr (Rd_settle (Some ERESTARTSYS)), p\<lparr>pi_rd_openers := pi_rd_openers p - 1\<rparr>)
          else (Inr Rd_wait, p)
      | Rd_settle retval \<Rightarrow>
          if pi_wr_openers p \<noteq> 0 then (Inr (Rd_settle retval), p)
          else (case retval of
                  Some e \<Rightarrow> (Inl e, p\<lparr>pi_readers := pi_readers p - 1\<rparr>)
                | None \<Rightarrow> (Inr (Fo_page (if pi_writers p \<noteq> 0 then read_fifo_fops else connecting_fifo_fops)), p))
      | Wr_wait \<Rightarrow>
          if pi_readers p \<noteq> 0 then (Inr (Wr_settle None), p\<lparr>pi_wr_openers := pi_wr_openers p - 1\<rparr>)
          else if signal_pending t then (Inr (Wr_settle (Some ERESTARTSYS)), p\<lparr>pi_wr_openers := pi_wr_openers p - 1\<rparr>)
          else (Inr Wr_wait, p)
      | Wr_settle retval \<Rightarrow>
          if pi_rd_openers p \<noteq> 0 then (Inr (Wr_settle retval), p)
          else (case retval of
                  Some e \<Rightarrow> (Inl e, p\<lparr>pi_writers := pi_writers p - 1\<rparr>)
                | None \<Rightarrow> (Inr (Fo_page write_fifo_fops), p))
      | Rw_settle1 \<Rightarrow>
          if pi_wr_openers p \<noteq> 0 then (Inr Rw_settle1, p) else (Inr Rw_settle2, p\<lparr>pi_writers := pi_writers p + 1\<rparr>)
      | Rw_settle2 \<Rightarrow>
          if pi_rd_openers p \<noteq> 0 then (Inr Rw_settle2, p) else (Inr (Fo_page rdwr_fifo_fops), p)
      | _ \<Rightarrow> (Inr pc, p))"

text \<open>The end of the call: \<open>page\<close> is what the allocator returned, \<open>p\<close> the pipe after it.\<close>

definition fifo_page :: "u8 list option \<Rightarrow> pipe_fops \<Rightarrow> pipe_inode \<Rightarrow> (errno + fifo_pc) \<times> pipe_inode" where
  "fifo_page page fops p =
     (if pi_base p \<noteq> [] then (Inr (Fo_open fops), p)
      else (case page of
              None \<Rightarrow> (Inl ENOMEM, p)
            | Some b \<Rightarrow> (Inr (Fo_open fops), p\<lparr>pi_lock := 0, pi_start := 0, pi_len := 0, pi_base := b\<rparr>)))"

section \<open>The counts\<close>

text \<open>Several opens of one named pipe.\<close>

record fifo_sys =
  fs_pipe :: pipe_inode
  fs_pc :: "fifo_pc list"

definition fs_put :: "nat \<Rightarrow> (errno + fifo_pc) \<times> pipe_inode \<Rightarrow> fifo_sys \<Rightarrow> fifo_sys" where
  "fs_put i x s = s\<lparr>fs_pipe := snd x, fs_pc := (fs_pc s)[i := (case fst x of Inl _ \<Rightarrow> Fo_closed | Inr pc \<Rightarrow> pc)]\<rparr>"

inductive fifo_step :: "fifo_sys \<Rightarrow> fifo_sys \<Rightarrow> bool" where
  start: "i < length (fs_pc s) \<Longrightarrow> fs_pc s ! i = Fo_closed \<Longrightarrow> fifo_step s (fs_put i (fifo_start f_mode f_flags (fs_pipe s)) s)"
| advance: "i < length (fs_pc s) \<Longrightarrow> fs_pc s ! i = pc \<Longrightarrow> fifo_step s (fs_put i (fifo_advance t pc (fs_pipe s)) s)"
| page: "i < length (fs_pc s) \<Longrightarrow> fs_pc s ! i = Fo_page fops \<Longrightarrow> length b = 4096 \<Longrightarrow>
    fifo_step s (fs_put i (fifo_page (Some b) fops (fs_pipe s)) s)"
| close: "i < length (fs_pc s) \<Longrightarrow> fs_pc s ! i = Fo_open fops \<Longrightarrow>
    fifo_step s (s\<lparr>fs_pipe := do_release (fops_release fops) (fs_pipe s), fs_pc := (fs_pc s)[i := Fo_closed]\<rparr>)"
| connect: "i < length (fs_pc s) \<Longrightarrow> fs_pc s ! i = Fo_open connecting_fifo_fops \<Longrightarrow>
    fifo_step s (s\<lparr>fs_pc := (fs_pc s)[i := Fo_open read_fifo_fops]\<rparr>)"

definition fops_rd :: "pipe_fops \<Rightarrow> bool" where
  "fops_rd f \<longleftrightarrow> f \<in> {connecting_fifo_fops, read_fifo_fops, rdwr_fifo_fops}"

definition fops_wr :: "pipe_fops \<Rightarrow> bool" where
  "fops_wr f \<longleftrightarrow> f \<in> {write_fifo_fops, rdwr_fifo_fops}"

fun holds_rd :: "fifo_pc \<Rightarrow> bool" where
  "holds_rd Rd_wait = True"
| "holds_rd (Rd_settle r) = True"
| "holds_rd Rw_settle1 = True"
| "holds_rd Rw_settle2 = True"
| "holds_rd (Fo_page f) = fops_rd f"
| "holds_rd (Fo_open f) = fops_rd f"
| "holds_rd pc = False"

fun holds_wr :: "fifo_pc \<Rightarrow> bool" where
  "holds_wr Wr_wait = True"
| "holds_wr (Wr_settle r) = True"
| "holds_wr Rw_settle2 = True"
| "holds_wr (Fo_page f) = fops_wr f"
| "holds_wr (Fo_open f) = fops_wr f"
| "holds_wr pc = False"

fun fifo_fops :: "fifo_pc \<Rightarrow> bool" where
  "fifo_fops (Fo_page f) = (fops_rd f \<or> fops_wr f)"
| "fifo_fops (Fo_open f) = (fops_rd f \<or> fops_wr f)"
| "fifo_fops pc = True"

definition fifo_inv :: "fifo_sys \<Rightarrow> bool" where
  "fifo_inv s \<longleftrightarrow> length (fs_pc s) < 4294967296 \<and> (\<forall>pc\<in>set (fs_pc s). fifo_fops pc) \<and>
     unat (pi_readers (fs_pipe s)) = cnt holds_rd (fs_pc s) \<and> unat (pi_writers (fs_pipe s)) = cnt holds_wr (fs_pc s) \<and>
     unat (pi_rd_openers (fs_pipe s)) = cnt (\<lambda>pc. pc = Rd_wait) (fs_pc s) \<and>
     unat (pi_wr_openers (fs_pipe s)) = cnt (\<lambda>pc. pc = Wr_wait) (fs_pc s)"

text \<open>A word that holds a count, when the count changes by one place.\<close>

definition adj :: "bool \<Rightarrow> bool \<Rightarrow> u32 \<Rightarrow> u32" where
  "adj old new w = (if old = new then w else if new then w + 1 else w - 1)"

lemma adj_cnt:
  assumes "i < length xs" "length xs < 4294967296" "unat w = cnt P xs"
  shows "unat (adj (P (xs ! i)) (P y) w) = cnt P (xs[i := y])"
proof -
  have u: "cnt P (xs[i := y]) + (if P (xs ! i) then 1 else 0) = cnt P xs + (if P y then 1 else 0)" by (rule cnt_update[OF assms(1)])
  have b: "cnt P (xs[i := y]) < 4294967296" using cnt_le[of P "xs[i := y]"] assms(2) by simp
  show ?thesis
  proof (cases "P (xs ! i) = P y")
    case True
    then show ?thesis using u assms(3) by (simp add: adj_def split: if_splits)
  next
    case False
    show ?thesis
    proof (cases "P y")
      case True
      then have "cnt P (xs[i := y]) = cnt P xs + 1" using u False by simp
      then show ?thesis using True False b assms(3) by (simp add: adj_def unat_word_ariths(1))
    next
      case nP: False
      then have e: "cnt P (xs[i := y]) + 1 = cnt P xs" using u False by simp
      then have "w \<noteq> 0" using assms(3) by (metis unat_0 add_is_0 one_neq_zero)
      then have "unat (w - 1) = unat w - 1" by (simp add: unat_minus_one)
      then show ?thesis using nP False e assms(3) by (simp add: adj_def)
    qed
  qed
qed

lemma fifo_inv_update:
  assumes "fifo_inv s" "i < length (fs_pc s)" "fifo_fops y"
    "pi_readers p = adj (holds_rd (fs_pc s ! i)) (holds_rd y) (pi_readers (fs_pipe s))"
    "pi_writers p = adj (holds_wr (fs_pc s ! i)) (holds_wr y) (pi_writers (fs_pipe s))"
    "pi_rd_openers p = adj (fs_pc s ! i = Rd_wait) (y = Rd_wait) (pi_rd_openers (fs_pipe s))"
    "pi_wr_openers p = adj (fs_pc s ! i = Wr_wait) (y = Wr_wait) (pi_wr_openers (fs_pipe s))"
  shows "fifo_inv (s\<lparr>fs_pipe := p, fs_pc := (fs_pc s)[i := y]\<rparr>)"
proof -
  have l: "length (fs_pc s) < 4294967296" using assms(1) by (simp add: fifo_inv_def)
  have "\<forall>pc\<in>set ((fs_pc s)[i := y]). fifo_fops pc"
    using assms(1,3) set_update_subset_insert[of "fs_pc s" i y] by (auto simp: fifo_inv_def)
  then show ?thesis using assms(1) l
    adj_cnt[OF assms(2) l, of "pi_readers (fs_pipe s)" holds_rd y] adj_cnt[OF assms(2) l, of "pi_writers (fs_pipe s)" holds_wr y]
    adj_cnt[OF assms(2) l, of "pi_rd_openers (fs_pipe s)" "\<lambda>pc. pc = Rd_wait" y]
    adj_cnt[OF assms(2) l, of "pi_wr_openers (fs_pipe s)" "\<lambda>pc. pc = Wr_wait" y]
    by (simp add: fifo_inv_def assms(4-7))
qed

lemmas fifo_ops = fifo_start_def fifo_advance_def fifo_page_def Let_def adj_def fops_rd_def fops_wr_def
  pipe_read_release_def pipe_write_release_def pipe_rdwr_release_def

lemma fifo_step_inv: "fifo_step s s' \<Longrightarrow> fifo_inv s \<Longrightarrow> fifo_inv s'"
proof (induction rule: fifo_step.induct)
  case (start i s f_mode f_flags)
  show ?case unfolding fs_put_def
    by (rule fifo_inv_update[OF start.prems start.hyps(1)]) (simp_all add: start.hyps(2) fifo_ops split: sum.split)
next
  case (advance i s pc t)
  have k: "fifo_fops pc" using advance by (auto simp: fifo_inv_def)
  show ?case unfolding fs_put_def
    by (rule fifo_inv_update[OF advance.prems advance.hyps(1)];
        cases pc; insert k; simp add: advance.hyps(2) fifo_ops split: option.split)
next
  case (page i s fops b)
  have k: "fifo_fops (Fo_page fops)" using page by (metis fifo_inv_def nth_mem)
  show ?case unfolding fs_put_def
    by (rule fifo_inv_update[OF page.prems page.hyps(1)]) (use k in \<open>simp_all add: page.hyps(2) fifo_ops\<close>)
next
  case (close i s fops)
  have "fifo_fops (Fo_open fops)" using close by (metis fifo_inv_def nth_mem)
  then show ?case
    by (intro fifo_inv_update[OF close.prems close.hyps(1)]; cases fops) (simp_all add: close.hyps(2) fifo_ops)
next
  case (connect i s)
  have "fifo_inv (s\<lparr>fs_pipe := fs_pipe s, fs_pc := (fs_pc s)[i := Fo_open read_fifo_fops]\<rparr>)"
    by (rule fifo_inv_update[OF connect.prems connect.hyps(1)]) (simp_all add: connect.hyps(2) fifo_ops)
  then show ?case by simp
qed

definition fifo_fresh :: "fifo_sys \<Rightarrow> bool" where
  "fifo_fresh s \<longleftrightarrow> (\<exists>p n. s = \<lparr>fs_pipe = init_fifo p, fs_pc = replicate n Fo_closed\<rparr> \<and> n < 4294967296)"

interpretation fifos: invariant_system fifo_fresh fifo_step fifo_inv
proof unfold_locales
  fix s assume "fifo_fresh s"
  then show "fifo_inv s" by (auto simp: fifo_fresh_def fifo_inv_def init_fifo_def cnt_def)
qed (rule fifo_step_inv)

text \<open>
  C23. However opens and closes of a named pipe interleave, \<^verbatim>\<open>readers\<close> and \<^verbatim>\<open>writers\<close> count
  exactly the opens that hold or are acquiring an end, and the two counts of openers exactly those that wait for a
  partner. So an open for reading that leaves its wait with success has met a writer, and vice versa.
\<close>

theorem fifo_rendezvous:
  assumes "reach fifo_fresh fifo_step s" "i < length (fs_pc s)"
  shows "unat (pi_readers (fs_pipe s)) = cnt holds_rd (fs_pc s) \<and> unat (pi_writers (fs_pipe s)) = cnt holds_wr (fs_pc s) \<and>
    unat (pi_rd_openers (fs_pipe s)) = cnt (\<lambda>pc. pc = Rd_wait) (fs_pc s) \<and>
    unat (pi_wr_openers (fs_pipe s)) = cnt (\<lambda>pc. pc = Wr_wait) (fs_pc s) \<and>
    (fs_pc s ! i = Rd_wait \<and> fst (fifo_advance t Rd_wait (fs_pipe s)) = Inr (Rd_settle None) \<longrightarrow>
       (\<exists>j<length (fs_pc s). j \<noteq> i \<and> holds_wr (fs_pc s ! j))) \<and>
    (fs_pc s ! i = Wr_wait \<and> fst (fifo_advance t Wr_wait (fs_pipe s)) = Inr (Wr_settle None) \<longrightarrow>
       (\<exists>j<length (fs_pc s). j \<noteq> i \<and> holds_rd (fs_pc s ! j)))"
proof -
  have v: "fifo_inv s" by (rule fifos.reach_inv[OF assms(1)])
  have w: "\<exists>j<length (fs_pc s). j \<noteq> i \<and> holds_wr (fs_pc s ! j)"
    if a: "fs_pc s ! i = Rd_wait" "fst (fifo_advance t Rd_wait (fs_pipe s)) = Inr (Rd_settle None)"
  proof -
    have "pi_writers (fs_pipe s) \<noteq> 0" using a(2) by (auto simp: fifo_advance_def split: if_splits)
    then have "0 < cnt holds_wr (fs_pc s)" using v by (simp add: fifo_inv_def unat_gt_0 flip: neq0_conv) (metis unat_eq_0)
    then show ?thesis using cnt_pos a(1) by (metis holds_wr.simps(7))
  qed
  have r: "\<exists>j<length (fs_pc s). j \<noteq> i \<and> holds_rd (fs_pc s ! j)"
    if a: "fs_pc s ! i = Wr_wait" "fst (fifo_advance t Wr_wait (fs_pipe s)) = Inr (Wr_settle None)"
  proof -
    have "pi_readers (fs_pipe s) \<noteq> 0" using a(2) by (auto simp: fifo_advance_def split: if_splits)
    then have "0 < cnt holds_rd (fs_pc s)" using v by (simp add: fifo_inv_def unat_gt_0 flip: neq0_conv) (metis unat_eq_0)
    then show ?thesis using cnt_pos a(1) by (metis holds_rd.simps(8))
  qed
  show ?thesis using v w r by (auto simp: fifo_inv_def)
qed

definition example_fifo :: fifo_sys where
  "example_fifo = fs_put 0 (fifo_start 1 0 (init_fifo example_pipe)) \<lparr>fs_pipe = init_fifo example_pipe, fs_pc = [Fo_closed, Fo_closed]\<rparr>"

lemma example_fifo_reach: "reach fifo_fresh fifo_step example_fifo"
proof (rule reach_step)
  let ?s = "\<lparr>fs_pipe = init_fifo example_pipe, fs_pc = [Fo_closed, Fo_closed]\<rparr>"
  have "[Fo_closed, Fo_closed] = replicate 2 Fo_closed" by (simp add: numeral_2_eq_2)
  then have "fifo_fresh ?s" unfolding fifo_fresh_def by (intro exI[of _ example_pipe] exI[of _ 2]) simp
  then show "reach fifo_fresh fifo_step ?s" by (rule reach_init)
  show "fifo_step ?s example_fifo" using fifo_step.start[of 0 ?s 1 0] by (simp add: example_fifo_def)
qed

theorem fifo_rendezvous_witness:
  "unat (pi_readers (fs_pipe example_fifo)) = 1 \<and> unat (pi_rd_openers (fs_pipe example_fifo)) = 1"
  using fifo_rendezvous[OF example_fifo_reach, of 0 INIT_TASK]
  by (simp add: example_fifo_def fs_put_def fifo_start_def nonblock_def init_fifo_def cnt_def Let_def)

text \<open>
  The steps assume that the page is found. When it is not, the open fails but its end stays counted: the
  file is never released, since it was never opened.
\<close>

lemma fifo_enomem_leak:
  assumes "fifo_inv s" "i < length (fs_pc s)" "fs_pc s ! i = Fo_page fops" "pi_base (fs_pipe s) = []"
  shows "fst (fifo_page None fops (fs_pipe s)) = Inl ENOMEM \<and> \<not> fifo_inv (fs_put i (fifo_page None fops (fs_pipe s)) s)"
proof -
  have k: "fops_rd fops \<or> fops_wr fops" using assms(1-3) by (metis fifo_inv_def fifo_fops.simps(1) nth_mem)
  have "cnt holds_rd ((fs_pc s)[i := Fo_closed]) \<noteq> cnt holds_rd (fs_pc s) \<or> cnt holds_wr ((fs_pc s)[i := Fo_closed]) \<noteq> cnt holds_wr (fs_pc s)"
    using cnt_update[OF assms(2), of holds_rd Fo_closed] cnt_update[OF assms(2), of holds_wr Fo_closed] k assms(3) by auto
  then show ?thesis using assms(1,4) by (auto simp: fifo_page_def fs_put_def fifo_inv_def)
qed

end
