(* ===== verification/File_Table.thy ===== *)
theory File_Table
  imports Fifo Lock_System
begin

text \<open>
  Open files: the table of \<^verbatim>\<open>struct file\<close> (\<^verbatim>\<open>fs/file_table.c\<close>), the descriptors of the
  processes (\<^verbatim>\<open>fs/fcntl.c\<close>, the open and close of \<^verbatim>\<open>fs/open.c\<close>, the read and write of
  \<^verbatim>\<open>fs/read_write.c\<close>, \<^verbatim>\<open>sys_pipe\<close>), and what fork, exec and exit do to them. The calls work on
  the pipes of \<^verbatim>\<open>fs/pipe.c\<close> and the record locks of \<^verbatim>\<open>fs/locks.c\<close>.
\<close>

section \<open>Data\<close>

text \<open>
  The operations of a file are those of a pipe or of something else, named by a number. A
  descriptor is an \<^verbatim>\<open>unsigned int\<close> on which nothing wraps, here a natural number.
\<close>

datatype fops = Fops_pipe pipe_fops | Fops_other nat

record file_struct = lk_file +
  f_rdev :: u16
  f_flags :: u16
  f_count :: u16
  f_reada :: u16
  f_op :: "fops option"

text \<open>\<open>pn_count\<close> is the \<^verbatim>\<open>i_count\<close> of an inode with \<^verbatim>\<open>i_pipe\<close> set.\<close>

record pipe_node =
  pn_pipe :: pipe_inode
  pn_count :: u16

record fproc =
  fp_filp :: "nat option list"
  fp_cloexec :: "bool list"

text \<open>
  \<open>vf_ring\<close> is the ring of all files in the order of \<^verbatim>\<open>f_next\<close> from \<^verbatim>\<open>first_file\<close>, by
  address; \<open>vf_allocs\<close> counts the calls of the page allocator, and the files of the page of call \<open>k\<close> have the
  addresses from \<open>128 * k\<close>.
\<close>

record vfs =
  vf_ring :: "nat list"
  vf_file :: "nat \<Rightarrow> file_struct"
  vf_nr :: int
  vf_allocs :: nat
  vf_proc :: "fproc list"
  vf_lk :: lk_state
  vf_pipe :: "nat \<Rightarrow> pipe_node option"

definition null_file :: file_struct where
  "null_file = \<lparr>f_mode = 0, f_pos = 0, f_inode = None, f_rdev = 0, f_flags = 0, f_count = 0, f_reada = 0, f_op = None\<rparr>"

definition NR_FILE :: int where [kconst]: "NR_FILE = 1024"

definition upd_file :: "nat \<Rightarrow> (file_struct \<Rightarrow> file_struct) \<Rightarrow> vfs \<Rightarrow> vfs" where
  "upd_file a g s = s\<lparr>vf_file := (vf_file s)(a := g (vf_file s a))\<rparr>"

definition inc_count :: "nat \<Rightarrow> vfs \<Rightarrow> vfs" where
  "inc_count a = upd_file a (\<lambda>f. f\<lparr>f_count := f_count f + 1\<rparr>)"

definition dec_count :: "nat \<Rightarrow> vfs \<Rightarrow> vfs" where
  "dec_count a = upd_file a (\<lambda>f. f\<lparr>f_count := f_count f - 1\<rparr>)"

definition upd_proc :: "nat \<Rightarrow> (fproc \<Rightarrow> fproc) \<Rightarrow> vfs \<Rightarrow> vfs" where
  "upd_proc i g s = s\<lparr>vf_proc := (vf_proc s)[i := g (vf_proc s ! i)]\<rparr>"

definition set_fd :: "nat \<Rightarrow> nat \<Rightarrow> nat option \<Rightarrow> vfs \<Rightarrow> vfs" where
  "set_fd i fd x = upd_proc i (\<lambda>p. p\<lparr>fp_filp := (fp_filp p)[fd := x]\<rparr>)"

definition set_cloexec :: "nat \<Rightarrow> nat \<Rightarrow> bool \<Rightarrow> vfs \<Rightarrow> vfs" where
  "set_cloexec i fd b = upd_proc i (\<lambda>p. p\<lparr>fp_cloexec := (fp_cloexec p)[fd := b]\<rparr>)"

text \<open>\<^verbatim>\<open>fd < NR_OPEN && current->filp[fd]\<close>\<close>

definition fd_file :: "nat \<Rightarrow> nat \<Rightarrow> vfs \<Rightarrow> nat option" where
  "fd_file i fd s = (if fd \<ge> unat NR_OPEN then None else fp_filp (vf_proc s ! i) ! fd)"

section \<open>The table\<close>

definition file_table_init :: "vfs \<Rightarrow> vfs" where
  "file_table_init s = s\<lparr>vf_ring := []\<rparr>"

definition insert_file_free :: "nat \<Rightarrow> vfs \<Rightarrow> vfs" where
  "insert_file_free a s = s\<lparr>vf_ring := a # vf_ring s\<rparr>"

definition remove_file_free :: "nat \<Rightarrow> vfs \<Rightarrow> vfs" where
  "remove_file_free a s = s\<lparr>vf_ring := remove1 a (vf_ring s)\<rparr>"

definition put_last_free :: "nat \<Rightarrow> vfs \<Rightarrow> vfs" where
  "put_last_free a s = (let s1 = remove_file_free a s in s1\<lparr>vf_ring := vf_ring s1 @ [a]\<rparr>)"

text \<open>
  A page holds 128 files of 32 bytes; \<open>mem k\<close> tells whether allocation \<open>k\<close> succeeds, and then the page is
  cleared.
\<close>

definition grow_files :: "(nat \<Rightarrow> bool) \<Rightarrow> vfs \<Rightarrow> vfs" where
  "grow_files mem s =
     (let k = vf_allocs s; s1 = s\<lparr>vf_allocs := k + 1\<rparr>; page = [128 * k..<128 * k + 128] in
      if \<not> mem k then s1
      else fold insert_file_free page
             (s1\<lparr>vf_nr := vf_nr s + 128, vf_file := (\<lambda>a. if a \<in> set page then null_file else vf_file s a)\<rparr>))"

definition find_filp :: "vfs \<Rightarrow> nat option" where
  "find_filp s = find (\<lambda>a. f_count (vf_file s a) = 0) (take (nat (vf_nr s)) (vf_ring s))"

definition claim_filp :: "nat \<Rightarrow> vfs \<Rightarrow> vfs" where
  "claim_filp a s = upd_file a (\<lambda>f. f\<lparr>f_count := 1\<rparr>) (put_last_free a (upd_file a (\<lambda>_. null_file) (remove_file_free a s)))"

text \<open>From the label \<^verbatim>\<open>repeat\<close>; the value is \<^const>\<open>None\<close> when the loop does not end.\<close>

partial_function (option) filp_loop :: "(nat \<Rightarrow> bool) \<Rightarrow> vfs \<Rightarrow> (nat option \<times> vfs) option" where
  "filp_loop mem s =
     (case find_filp s of
        Some a \<Rightarrow> Some (Some a, claim_filp a s)
      | None \<Rightarrow> if vf_nr s < NR_FILE then filp_loop mem (grow_files mem s) else Some (None, s))"

definition get_empty_filp :: "(nat \<Rightarrow> bool) \<Rightarrow> vfs \<Rightarrow> (nat option \<times> vfs) option" where
  "get_empty_filp mem s = filp_loop mem (if vf_ring s = [] then grow_files mem s else s)"

section \<open>Closing\<close>

text \<open>
  \<^verbatim>\<open>iput\<close> of a pipe: the last one frees its page. The inodes of file systems are outside the
  model, as is the release of other files.
\<close>

definition iput :: "nat option \<Rightarrow> vfs \<Rightarrow> vfs" where
  "iput inode s =
     (case inode of
        None \<Rightarrow> s
      | Some n \<Rightarrow>
          (case vf_pipe s n of
             None \<Rightarrow> s
           | Some nd \<Rightarrow>
               if pn_count nd = 0 then s
               else if pn_count nd > 1 then s\<lparr>vf_pipe := (vf_pipe s)(n \<mapsto> nd\<lparr>pn_count := pn_count nd - 1\<rparr>)\<rparr>
               else s\<lparr>vf_pipe := (vf_pipe s)(n \<mapsto> nd\<lparr>pn_pipe := (pn_pipe nd)\<lparr>pi_base := []\<rparr>, pn_count := pn_count nd - 1\<rparr>)\<rparr>))"

definition upd_pipe :: "nat \<Rightarrow> (pipe_inode \<Rightarrow> pipe_inode) \<Rightarrow> vfs \<Rightarrow> vfs" where
  "upd_pipe n g s = s\<lparr>vf_pipe := (vf_pipe s)(n := map_option (\<lambda>nd. nd\<lparr>pn_pipe := g (pn_pipe nd)\<rparr>) (vf_pipe s n))\<rparr>"

definition release_file :: "file_struct \<Rightarrow> vfs \<Rightarrow> vfs" where
  "release_file f s =
     (case (f_op f, f_inode f) of
        (Some (Fops_pipe ops), Some n) \<Rightarrow> upd_pipe n (do_release (fops_release ops)) s
      | _ \<Rightarrow> s)"

text \<open>\<^const>\<open>None\<close> when the release of the record locks panics.\<close>

definition remove_locks :: "nat \<Rightarrow> nat \<Rightarrow> file_struct \<Rightarrow> vfs \<Rightarrow> vfs option" where
  "remove_locks i fd f s =
     (case f_inode f of
        None \<Rightarrow> Some s
      | Some n \<Rightarrow>
          if S_ISREG (i_mode (lk_inode (vf_lk s) n))
          then map_option (\<lambda>lk. s\<lparr>vf_lk := lk\<rparr>) (fcntl_remove_locks (vf_lk s) i n (word_of_nat fd))
          else Some s)"

definition close_fp :: "nat \<Rightarrow> nat \<Rightarrow> nat \<Rightarrow> vfs \<Rightarrow> vfs option" where
  "close_fp i a fd s =
     (let filp = vf_file s a in
      if f_count filp = 0 then Some s
      else map_option (\<lambda>s1.
             if f_count filp > 1 then dec_count a s1
             else iput (f_inode filp) (upd_file a (\<lambda>f. f\<lparr>f_inode := None\<rparr>) (dec_count a (release_file filp s1))))
           (remove_locks i fd filp s))"

definition sys_close :: "nat \<Rightarrow> nat \<Rightarrow> vfs \<Rightarrow> (errno option \<times> vfs) option" where
  "sys_close i fd s =
     (if fd \<ge> unat NR_OPEN then Some (Some EBADF, s)
      else let s1 = set_cloexec i fd False s in
           case fd_file i fd s1 of
             None \<Rightarrow> Some (Some EBADF, s1)
           | Some filp \<Rightarrow> map_option (Pair None) (close_fp i filp fd (set_fd i fd None s1)))"

section \<open>Duplicating\<close>

text \<open>The first free descriptor from \<open>arg\<close> on.\<close>

function free_fd :: "nat option list \<Rightarrow> nat \<Rightarrow> nat" where
  "free_fd filp arg = (if arg < unat NR_OPEN \<and> filp ! arg \<noteq> None then free_fd filp (arg + 1) else arg)"
  by pat_completeness auto
termination by (relation "measure (\<lambda>(_, arg). unat NR_OPEN - arg)") auto

declare free_fd.simps [simp del]

definition dupfd :: "nat \<Rightarrow> nat \<Rightarrow> nat \<Rightarrow> vfs \<Rightarrow> nat res \<times> vfs" where
  "dupfd i fd arg s =
     (case fd_file i fd s of
        None \<Rightarrow> (Inl EBADF, s)
      | Some a \<Rightarrow>
          if arg \<ge> unat NR_OPEN then (Inl EINVAL, s)
          else let arg = free_fd (fp_filp (vf_proc s ! i)) arg in
               if arg \<ge> unat NR_OPEN then (Inl EMFILE, s)
               else (Inr arg, inc_count a (set_fd i arg (Some a) (set_cloexec i arg False s))))"

definition sys_dup2 :: "nat \<Rightarrow> nat \<Rightarrow> nat \<Rightarrow> vfs \<Rightarrow> (nat res \<times> vfs) option" where
  "sys_dup2 i oldfd newfd s =
     (case fd_file i oldfd s of
        None \<Rightarrow> Some (Inl EBADF, s)
      | Some _ \<Rightarrow>
          if newfd = oldfd then Some (Inr newfd, s)
          else if newfd > unat NR_OPEN then Some (Inl EBADF, s)
          else if newfd = unat NR_OPEN then Some (Inl EBADF, s)
          else map_option (\<lambda>(_, s1). dupfd i oldfd newfd s1) (sys_close i newfd s))"

definition sys_dup :: "nat \<Rightarrow> nat \<Rightarrow> vfs \<Rightarrow> nat res \<times> vfs" where
  "sys_dup i fildes s = dupfd i fildes 0 s"

section \<open>fcntl\<close>

abbreviation (input) "F_DUPFD \<equiv> (0 :: u32)"
abbreviation (input) "F_GETFD \<equiv> (1 :: u32)"
abbreviation (input) "F_SETFD \<equiv> (2 :: u32)"
abbreviation (input) "F_GETFL \<equiv> (3 :: u32)"
abbreviation (input) "F_SETFL \<equiv> (4 :: u32)"
abbreviation (input) "F_GETLK \<equiv> (5 :: u32)"
abbreviation (input) "F_SETLK \<equiv> (6 :: u32)"

definition O_APPEND :: u32 where [kconst]: "O_APPEND = 0x400"

definition S_ISSOCK :: "u16 \<Rightarrow> bool" where
  "S_ISSOCK m \<longleftrightarrow> m AND 0xF000 = 0xC000"

text \<open>The caller as the record locks see it.\<close>

definition lk_view :: "nat \<Rightarrow> task_struct \<Rightarrow> vfs \<Rightarrow> lk_task" where
  "lk_view i t s =
     \<lparr>tk_self = i, tk_filp = (\<lambda>fd. map_option (\<lambda>a. lk_file.truncate (vf_file s a)) (fd_file i (unat fd) s)),
      tk_signal = t_signal t, tk_blocked = t_blocked t\<rparr>"

datatype fcntl_out = Fc_ret "int res" | Fc_flock flock | Fc_sleep

definition fcntl_locks :: "lk_out \<Rightarrow> vfs \<Rightarrow> (fcntl_out \<times> vfs) option" where
  "fcntl_locks out s =
     (case out of
        LkRet e lk \<Rightarrow> Some (Fc_ret (case e of None \<Rightarrow> Inr 0 | Some e \<Rightarrow> Inl e), s\<lparr>vf_lk := lk\<rparr>)
      | LkSleep lk \<Rightarrow> Some (Fc_sleep, s\<lparr>vf_lk := lk\<rparr>)
      | LkPanic \<Rightarrow> None)"

text \<open>
  \<open>flock0\<close> is the structure at the user address \<open>arg\<close>, \<open>sockf\<close> the call of the socket layer;
  \<^const>\<open>None\<close> is a panic.
\<close>

definition sys_fcntl ::
  "va_fun \<Rightarrow> (nat \<Rightarrow> int) \<Rightarrow> (file_struct \<Rightarrow> u32 \<Rightarrow> u32 \<Rightarrow> int res) \<Rightarrow> nat \<Rightarrow> task_struct \<Rightarrow> nat \<Rightarrow> u32 \<Rightarrow> u32 \<Rightarrow> flock \<Rightarrow> vfs \<Rightarrow>
   (fcntl_out \<times> vfs) option" where
  "sys_fcntl va pid sockf i t fd cmd arg flock0 s =
     (case fd_file i fd s of
        None \<Rightarrow> Some (Fc_ret (Inl EBADF), s)
      | Some a \<Rightarrow>
          let filp = vf_file s a in
          if cmd = F_DUPFD then (case dupfd i fd (unat arg) s of (r, s') \<Rightarrow> Some (Fc_ret (map_sum (\<lambda>e. e) int r), s'))
          else if cmd = F_GETFD then Some (Fc_ret (Inr (if fp_cloexec (vf_proc s ! i) ! fd then 1 else 0)), s)
          else if cmd = F_SETFD then Some (Fc_ret (Inr 0), set_cloexec i fd (arg AND 1 \<noteq> 0) s)
          else if cmd = F_GETFL then Some (Fc_ret (Inr (uint (f_flags filp))), s)
          else if cmd = F_SETFL
          then let m = ucast (O_APPEND OR O_NONBLOCK) in
               Some (Fc_ret (Inr 0), upd_file a (\<lambda>f. f\<lparr>f_flags := f_flags f AND NOT m OR (ucast arg AND m)\<rparr>) s)
          else if cmd = F_GETLK
          then (case fcntl_getlk va pid (vf_lk s) (lk_view i t s) (word_of_nat fd) arg flock0 of
                  Inl e \<Rightarrow> Some (Fc_ret (Inl e), s)
                | Inr l \<Rightarrow> Some (Fc_flock l, s))
          else if cmd = F_SETLK \<or> cmd = F_SETLKW
          then fcntl_locks (fcntl_setlk va (vf_lk s) (lk_view i t s) (word_of_nat fd) cmd arg flock0) s
          else (case f_inode filp of
                  None \<Rightarrow> None
                | Some n \<Rightarrow> if S_ISSOCK (i_mode (lk_inode (vf_lk s) n)) then Some (Fc_ret (sockf filp cmd arg), s)
                           else Some (Fc_ret (Inl EINVAL), s)))"

section \<open>Opening\<close>

abbreviation (input) "O_ACCMODE \<equiv> (3 :: u32)"
abbreviation (input) "O_CREAT \<equiv> (0x40 :: u32)"
abbreviation (input) "O_EXCL \<equiv> (0x80 :: u32)"
abbreviation (input) "O_NOCTTY \<equiv> (0x100 :: u32)"
abbreviation (input) "O_TRUNC \<equiv> (0x200 :: u32)"

text \<open>
  \<open>namei\<close> is \<^verbatim>\<open>open_namei\<close>: an inode and its default operations; \<open>opn\<close> is the open routine of these
  operations, if they have one: the operations it leaves in the file, or an error.
\<close>

definition open_flag :: "u32 \<Rightarrow> u32" where
  "open_flag flags =
     (let flag = (if (flags + 1) AND O_ACCMODE \<noteq> 0 then flags + 1 else flags) in
      if flag AND (O_TRUNC OR O_CREAT) \<noteq> 0 then flag OR 2 else flag)"

definition open_done :: "fops option \<Rightarrow> file_struct \<Rightarrow> file_struct" where
  "open_done ops f = f\<lparr>f_op := ops, f_flags := f_flags f AND NOT (ucast (O_CREAT OR O_EXCL OR O_NOCTTY OR O_TRUNC))\<rparr>"

text \<open>From the call of \<^verbatim>\<open>open_namei\<close> on, with the file \<open>a\<close> in the descriptor \<open>fd\<close>.\<close>

definition open_named ::
  "(u32 \<Rightarrow> (nat \<times> fops option) res) \<Rightarrow> (fops \<Rightarrow> fops option res option) \<Rightarrow> u32 \<Rightarrow> nat \<Rightarrow> nat \<Rightarrow> nat \<Rightarrow> vfs \<Rightarrow> nat res \<times> vfs" where
  "open_named namei opn flags i fd a s =
     (case namei (open_flag flags) of
        Inl e \<Rightarrow> (Inl e, dec_count a (set_fd i fd None s))
      | Inr (n, ops) \<Rightarrow>
          let s1 = upd_file a (\<lambda>f. f\<lparr>f_inode := Some n, f_pos := 0, f_reada := 0, f_op := ops\<rparr>) s in
          case Option.bind ops opn of
            None \<Rightarrow> (Inr fd, upd_file a (open_done ops) s1)
          | Some (Inl e) \<Rightarrow> (Inl e, set_fd i fd None (dec_count a (iput (Some n) s1)))
          | Some (Inr ops') \<Rightarrow> (Inr fd, upd_file a (open_done ops') s1))"

definition do_open ::
  "(nat \<Rightarrow> bool) \<Rightarrow> (u32 \<Rightarrow> (nat \<times> fops option) res) \<Rightarrow> (fops \<Rightarrow> fops option res option) \<Rightarrow> u32 \<Rightarrow> nat \<Rightarrow> vfs \<Rightarrow>
   (nat res \<times> vfs) option" where
  "do_open mem namei opn flags i s =
     (let fd = free_fd (fp_filp (vf_proc s ! i)) 0 in
      if fd \<ge> unat NR_OPEN then Some (Inl EMFILE, s)
      else (case get_empty_filp mem (set_cloexec i fd False s) of
              None \<Rightarrow> None
            | Some (None, s1) \<Rightarrow> Some (Inl ENFILE, s1)
            | Some (Some a, s1) \<Rightarrow>
                Some (open_named namei opn flags i fd a
                  (upd_file a (\<lambda>f. f\<lparr>f_flags := ucast flags, f_mode := ucast ((flags + 1) AND O_ACCMODE)\<rparr>) (set_fd i fd (Some a) s1)))))"

text \<open>
  \<open>ino\<close> is the inode that \<^verbatim>\<open>get_empty_inode\<close> found and \<open>page\<close> the page; an inode given back by
  \<^verbatim>\<open>iput\<close> is not yet a pipe.
\<close>

definition get_pipe_inode :: "nat option \<Rightarrow> u8 list option \<Rightarrow> vfs \<Rightarrow> nat option \<times> vfs" where
  "get_pipe_inode ino page s =
     (case (ino, page) of
        (Some n, Some b) \<Rightarrow>
          (Some n, s\<lparr>vf_pipe := (vf_pipe s)(n \<mapsto>
             \<lparr>pn_pipe = \<lparr>pi_base = b, pi_start = 0, pi_len = 0, pi_lock = 0, pi_rd_openers = 0, pi_wr_openers = 0,
                         pi_readers = 1, pi_writers = 1\<rparr>, pn_count = 2\<rparr>),
             vf_lk := (vf_lk s)\<lparr>lk_inode := (lk_inode (vf_lk s))(n := (lk_inode (vf_lk s) n)
               \<lparr>i_mode := i_mode (lk_inode (vf_lk s) n) OR 0x1180\<rparr>)\<rparr>\<rparr>)
      | _ \<Rightarrow> (None, s))"

definition pipe_ends :: "nat \<Rightarrow> nat \<Rightarrow> nat \<Rightarrow> vfs \<Rightarrow> vfs" where
  "pipe_ends n f0 f1 s =
     upd_file f1 (\<lambda>f. f\<lparr>f_inode := Some n, f_pos := 0, f_flags := 1, f_op := Some (Fops_pipe write_pipe_fops), f_mode := 2\<rparr>)
       (upd_file f0 (\<lambda>f. f\<lparr>f_inode := Some n, f_pos := 0, f_flags := 0, f_op := Some (Fops_pipe read_pipe_fops), f_mode := 1\<rparr>) s)"

text \<open>The result is the two descriptors that are stored at \<open>fildes\<close>.\<close>

definition pipe_install :: "nat option \<Rightarrow> u8 list option \<Rightarrow> nat \<Rightarrow> nat \<Rightarrow> nat \<Rightarrow> vfs \<Rightarrow> (nat \<times> nat) res \<times> vfs" where
  "pipe_install ino page i f0 f1 s =
     (let fd0 = free_fd (fp_filp (vf_proc s ! i)) 0 in
      if fd0 \<ge> unat NR_OPEN then (Inl EMFILE, dec_count f1 (dec_count f0 s))
      else let s1 = set_fd i fd0 (Some f0) s; fd1 = free_fd (fp_filp (vf_proc s1 ! i)) (fd0 + 1) in
           if fd1 \<ge> unat NR_OPEN then (Inl EMFILE, dec_count f1 (dec_count f0 (set_fd i fd0 None s1)))
           else let s2 = set_fd i fd1 (Some f1) s1 in
                case get_pipe_inode ino page s2 of
                  (None, s3) \<Rightarrow> (Inl ENFILE, dec_count f1 (dec_count f0 (set_fd i fd1 None (set_fd i fd0 None s3))))
                | (Some n, s3) \<Rightarrow> (Inr (fd0, fd1), pipe_ends n f0 f1 s3))"

definition sys_pipe ::
  "va_fun \<Rightarrow> (nat \<Rightarrow> bool) \<Rightarrow> nat option \<Rightarrow> u8 list option \<Rightarrow> nat \<Rightarrow> u32 \<Rightarrow> vfs \<Rightarrow> ((nat \<times> nat) res \<times> vfs) option" where
  "sys_pipe va mem ino page i fildes s =
     (case va VERIFY_WRITE fildes 8 of
        Some e \<Rightarrow> Some (Inl e, s)
      | None \<Rightarrow>
          (case get_empty_filp mem s of
             None \<Rightarrow> None
           | Some (None, s1) \<Rightarrow> Some (Inl ENFILE, s1)
           | Some (Some f0, s1) \<Rightarrow>
               (case get_empty_filp mem s1 of
                  None \<Rightarrow> None
                | Some (None, s2) \<Rightarrow> Some (Inl ENFILE, dec_count f0 s2)
                | Some (Some f1, s2) \<Rightarrow> Some (pipe_install ino page i f0 f1 s2))))"

section \<open>Reading and writing\<close>

text \<open>
  \<open>dev\<close> gives the read (write) routine of other files, which do not act on this state. The first component of a
  result is \<^const>\<open>None\<close> when the caller sleeps; the whole is \<^const>\<open>None\<close> when the call does not end.
\<close>

definition put_pipe :: "nat \<Rightarrow> pipe_inode \<Rightarrow> vfs \<Rightarrow> vfs" where
  "put_pipe n p = upd_pipe n (\<lambda>_. p)"

definition file_pipe_read :: "nat \<Rightarrow> nat \<Rightarrow> pipe_fops \<Rightarrow> int \<Rightarrow> task_struct \<Rightarrow> vfs \<Rightarrow> (u8 list res option \<times> vfs) option" where
  "file_pipe_read a n ops count t s =
     (let flags = ucast (f_flags (vf_file s a)); p = pn_pipe (the (vf_pipe s n)) in
      case fops_read ops of
        Op_bad_read \<Rightarrow> Some (Some (Inl EBADF), s)
      | Op_pipe_read \<Rightarrow> map_option (\<lambda>(r, p'). (r, put_pipe n p' s)) (pipe_read flags count t p)
      | Op_connect_read \<Rightarrow> map_option (\<lambda>(r, ops', p'). (r, upd_file a (\<lambda>f. f\<lparr>f_op := Some (Fops_pipe ops')\<rparr>) (put_pipe n p' s)))
                            (connect_read flags count t p))"

definition sys_read ::
  "va_fun \<Rightarrow> (nat \<Rightarrow> (file_struct \<Rightarrow> int \<Rightarrow> u8 list res) option) \<Rightarrow> nat \<Rightarrow> task_struct \<Rightarrow> nat \<Rightarrow> u32 \<Rightarrow> u32 \<Rightarrow> vfs \<Rightarrow>
   (u8 list res option \<times> vfs) option" where
  "sys_read va dev i t fd buf count s =
     (case fd_file i fd s of
        None \<Rightarrow> Some (Some (Inl EBADF), s)
      | Some a \<Rightarrow>
          let f = vf_file s a; bad = (\<lambda>e. Some (Some (Inl e), s)) in
          case f_inode f of
            None \<Rightarrow> bad EBADF
          | Some n \<Rightarrow>
              if f_mode f AND 1 = 0 then bad EBADF
              else (case f_op f of
                      None \<Rightarrow> bad EINVAL
                    | Some (Fops_other d) \<Rightarrow>
                        (case dev d of
                           None \<Rightarrow> bad EINVAL
                         | Some rd \<Rightarrow>
                             if count = 0 then Some (Some (Inr []), s)
                             else (case va VERIFY_WRITE buf count of Some e \<Rightarrow> bad e | None \<Rightarrow> Some (Some (rd f (sint count)), s)))
                    | Some (Fops_pipe ops) \<Rightarrow>
                        if count = 0 then Some (Some (Inr []), s)
                        else (case va VERIFY_WRITE buf count of
                                Some e \<Rightarrow> bad e
                              | None \<Rightarrow> file_pipe_read a n ops (sint count) t s)))"

text \<open>\<open>buf0\<close> is what the caller has at \<open>buf\<close>; \<open>k\<close> the tasks, for \<^verbatim>\<open>SIGPIPE\<close>.\<close>

definition sys_write ::
  "va_fun \<Rightarrow> (nat \<Rightarrow> (file_struct \<Rightarrow> u8 list \<Rightarrow> int res) option) \<Rightarrow> nat \<Rightarrow> kstate \<Rightarrow> nat \<Rightarrow> u32 \<Rightarrow> u8 list \<Rightarrow> vfs \<Rightarrow>
   (write_out \<times> kstate \<times> vfs) option" where
  "sys_write va dev i k fd buf buf0 s =
     (case fd_file i fd s of
        None \<Rightarrow> Some (Wr_ret (Inl EBADF), k, s)
      | Some a \<Rightarrow>
          let f = vf_file s a; bad = (\<lambda>e. Some (Wr_ret (Inl e), k, s)) in
          case f_inode f of
            None \<Rightarrow> bad EBADF
          | Some n \<Rightarrow>
              if f_mode f AND 2 = 0 then bad EBADF
              else (case f_op f of
                      None \<Rightarrow> bad EINVAL
                    | Some (Fops_other d) \<Rightarrow>
                        (case dev d of
                           None \<Rightarrow> bad EINVAL
                         | Some wr \<Rightarrow>
                             if buf0 = [] then Some (Wr_ret (Inr 0), k, s)
                             else (case va VERIFY_READ buf (word_of_nat (length buf0)) of
                                     Some e \<Rightarrow> bad e
                                   | None \<Rightarrow> Some (Wr_ret (wr f buf0), k, s)))
                    | Some (Fops_pipe ops) \<Rightarrow>
                        if buf0 = [] then Some (Wr_ret (Inr 0), k, s)
                        else (case va VERIFY_READ buf (word_of_nat (length buf0)) of
                                Some e \<Rightarrow> bad e
                              | None \<Rightarrow>
                                  if \<not> fops_write ops then bad EBADF
                                  else map_option (\<lambda>(r, k', p'). (r, k', put_pipe n p' s))
                                         (pipe_write (ucast (f_flags f)) buf0 k (pn_pipe (the (vf_pipe s n)))))))"

section \<open>Fork, exec and exit\<close>

text \<open>The child is a copy of its parent, so its table is; then every file is counted once more.\<close>

definition fork_files :: "nat \<Rightarrow> nat \<Rightarrow> vfs \<Rightarrow> vfs" where
  "fork_files i j s =
     fold (\<lambda>x. case x of None \<Rightarrow> (\<lambda>s. s) | Some a \<Rightarrow> inc_count a) (fp_filp (vf_proc s ! i))
       (upd_proc j (\<lambda>_. vf_proc s ! i) s)"

fun close_all :: "(nat \<Rightarrow> vfs \<Rightarrow> bool) \<Rightarrow> nat \<Rightarrow> nat list \<Rightarrow> vfs \<Rightarrow> vfs option" where
  "close_all which i [] s = Some s"
| "close_all which i (fd # fds) s =
     (if which fd s then Option.bind (sys_close i fd s) (\<lambda>(_, s1). close_all which i fds s1) else close_all which i fds s)"

definition exec_files :: "nat \<Rightarrow> vfs \<Rightarrow> vfs option" where
  "exec_files i s =
     map_option (upd_proc i (\<lambda>p. p\<lparr>fp_cloexec := replicate (unat NR_OPEN) False\<rparr>))
       (close_all (\<lambda>fd s. fp_cloexec (vf_proc s ! i) ! fd) i [0..<unat NR_OPEN] s)"

definition exit_files :: "nat \<Rightarrow> vfs \<Rightarrow> vfs option" where
  "exit_files i s = close_all (\<lambda>fd s. fp_filp (vf_proc s ! i) ! fd \<noteq> None) i [0..<unat NR_OPEN] s"

end
