(* ===== verification/File_Refs.thy ===== *)
theory File_Refs
  imports File_Table
begin

text \<open>
  The files, descriptors and pipe ends as a system: every file is counted once for each descriptor that
  refers to it, and every pipe once for each of its open ends.
\<close>

section \<open>References\<close>

definition refs :: "nat \<Rightarrow> vfs \<Rightarrow> nat" where
  "refs a s = sum_list (map (\<lambda>p. cnt (\<lambda>x. x = Some a) (fp_filp p)) (vf_proc s))"

definition proc_ok :: "nat list \<Rightarrow> fproc \<Rightarrow> bool" where
  "proc_ok ring p \<longleftrightarrow> length (fp_filp p) = 256 \<and> length (fp_cloexec p) = 256 \<and>
     (\<forall>a. Some a \<in> set (fp_filp p) \<longrightarrow> a \<in> set ring) \<and> (\<forall>fd<256. fp_cloexec p ! fd \<longrightarrow> fp_filp p ! fd \<noteq> None)"

text \<open>\<open>e\<close> is the number of references that a call in progress holds beside the descriptors.\<close>

definition refs_inv :: "(nat \<Rightarrow> int) \<Rightarrow> vfs \<Rightarrow> bool" where
  "refs_inv e s \<longleftrightarrow> distinct (vf_ring s) \<and> vf_nr s = int (length (vf_ring s)) \<and> (\<forall>a\<in>set (vf_ring s). a < 128 * vf_allocs s) \<and>
     length (vf_proc s) \<le> 128 \<and> (\<forall>p\<in>set (vf_proc s). proc_ok (vf_ring s) p) \<and>
     (\<forall>a\<in>set (vf_ring s). int (unat (f_count (vf_file s a))) = int (refs a s) + e a) \<and>
     (\<forall>a. a \<notin> set (vf_ring s) \<longrightarrow> e a = 0)"

lemma NR_OPEN_256 [simp]: "unat NR_OPEN = 256"
  by (simp add: NR_OPEN_def)

lemma sum_list_le: "(\<And>x. x \<in> set xs \<Longrightarrow> f x \<le> (c :: nat)) \<Longrightarrow> sum_list (map f xs) \<le> length xs * c"
  by (induction xs) (auto intro: add_mono)

lemma refs_bound: "refs_inv e s \<Longrightarrow> refs a s \<le> 32768"
proof -
  assume v: "refs_inv e s"
  have "cnt (\<lambda>x. x = Some a) (fp_filp p) \<le> 256" if "p \<in> set (vf_proc s)" for p
    using v that cnt_le[of "\<lambda>x. x = Some a" "fp_filp p"] by (auto simp: refs_inv_def proc_ok_def)
  then have "refs a s \<le> length (vf_proc s) * 256" unfolding refs_def by (rule sum_list_le)
  also have "\<dots> \<le> 128 * 256" using v by (simp add: refs_inv_def)
  finally show ?thesis by simp
qed

lemma refs_frame [simp]:
  "refs a (s\<lparr>vf_ring := r\<rparr>) = refs a s" "refs a (s\<lparr>vf_file := f\<rparr>) = refs a s" "refs a (s\<lparr>vf_nr := n\<rparr>) = refs a s"
  "refs a (s\<lparr>vf_allocs := k\<rparr>) = refs a s" "refs a (s\<lparr>vf_lk := lk\<rparr>) = refs a s" "refs a (s\<lparr>vf_pipe := pp\<rparr>) = refs a s"
  "refs a (upd_file b g s) = refs a s"
  by (simp_all add: refs_def upd_file_def)

lemma refs_inv_frame [simp]:
  "refs_inv e (s\<lparr>vf_lk := lk\<rparr>) = refs_inv e s" "refs_inv e (s\<lparr>vf_pipe := pp\<rparr>) = refs_inv e s"
  by (simp_all add: refs_inv_def)

lemma refs_update:
  assumes "i < length (vf_proc s)"
  shows "refs b (upd_proc i g s) + cnt (\<lambda>x. x = Some b) (fp_filp (vf_proc s ! i)) =
    refs b s + cnt (\<lambda>x. x = Some b) (fp_filp (g (vf_proc s ! i)))"
  using sum_list_update_nat[OF assms, of "\<lambda>p. cnt (\<lambda>x. x = Some b) (fp_filp p)" "g (vf_proc s ! i)"]
  by (simp add: refs_def upd_proc_def)

lemma refs_set_fd:
  assumes "i < length (vf_proc s)" "fd < length (fp_filp (vf_proc s ! i))"
  shows "int (refs b (set_fd i fd x s)) = int (refs b s) + of_bool (x = Some b) - of_bool (fp_filp (vf_proc s ! i) ! fd = Some b)"
  using refs_update[OF assms(1), of b "\<lambda>p. p\<lparr>fp_filp := (fp_filp p)[fd := x]\<rparr>"]
    cnt_update[OF assms(2), of "\<lambda>x. x = Some b" x] by (simp add: set_fd_def split: if_splits)

lemma proc_okD: "refs_inv e s \<Longrightarrow> i < length (vf_proc s) \<Longrightarrow> proc_ok (vf_ring s) (vf_proc s ! i)"
  by (simp add: refs_inv_def)

lemma procs_upd:
  "(\<forall>p\<in>set (vf_proc s). P p) \<Longrightarrow> P (g (vf_proc s ! i)) \<Longrightarrow> \<forall>p\<in>set (vf_proc (upd_proc i g s)). P p"
  using set_update_subset_insert[of "vf_proc s" i "g (vf_proc s ! i)"] by (auto simp: upd_proc_def)

lemma upd_proc_sel [simp]:
  "vf_ring (upd_proc i g s) = vf_ring s" "vf_file (upd_proc i g s) = vf_file s" "vf_nr (upd_proc i g s) = vf_nr s"
  "vf_allocs (upd_proc i g s) = vf_allocs s" "vf_lk (upd_proc i g s) = vf_lk s" "vf_pipe (upd_proc i g s) = vf_pipe s"
  "length (vf_proc (upd_proc i g s)) = length (vf_proc s)"
  "i < length (vf_proc s) \<Longrightarrow> vf_proc (upd_proc i g s) ! i = g (vf_proc s ! i)"
  by (simp_all add: upd_proc_def)

lemma inv_upd_proc:
  assumes "refs_inv e s" "i < length (vf_proc s)" "proc_ok (vf_ring s) (g (vf_proc s ! i))"
    "\<And>b. int (refs b (upd_proc i g s)) + e' b = int (refs b s) + e b" "\<And>b. b \<notin> set (vf_ring s) \<Longrightarrow> e' b = 0"
  shows "refs_inv e' (upd_proc i g s)"
  using assms procs_upd[of s "proc_ok (vf_ring s)" g i] by (simp add: refs_inv_def)

lemma inv_set_fd:
  assumes "refs_inv e s" "i < length (vf_proc s)" "fd < 256" "\<And>b. x = Some b \<Longrightarrow> b \<in> set (vf_ring s)"
    "x = None \<Longrightarrow> \<not> fp_cloexec (vf_proc s ! i) ! fd"
  shows "refs_inv (\<lambda>b. e b + of_bool (fp_filp (vf_proc s ! i) ! fd = Some b) - of_bool (x = Some b)) (set_fd i fd x s)"
  unfolding set_fd_def
proof (rule inv_upd_proc[OF assms(1,2)])
  have k: "proc_ok (vf_ring s) (vf_proc s ! i)" by (rule proc_okD[OF assms(1,2)])
  have "Some a \<in> set ((fp_filp (vf_proc s ! i))[fd := x]) \<Longrightarrow> a \<in> set (vf_ring s)" for a
    using k assms(4) set_update_subset_insert[of "fp_filp (vf_proc s ! i)" fd x] by (auto simp: proc_ok_def)
  then show "proc_ok (vf_ring s) ((vf_proc s ! i)\<lparr>fp_filp := (fp_filp (vf_proc s ! i))[fd := x]\<rparr>)"
    using k assms(3,5) by (cases x) (auto simp: proc_ok_def nth_list_update)
  have l: "fd < length (fp_filp (vf_proc s ! i))" using k assms(3) by (simp add: proc_ok_def)
  show "int (refs b (upd_proc i (\<lambda>p. p\<lparr>fp_filp := (fp_filp p)[fd := x]\<rparr>) s)) +
      (e b + of_bool (fp_filp (vf_proc s ! i) ! fd = Some b) - of_bool (x = Some b)) = int (refs b s) + e b" for b
    using refs_set_fd[OF assms(2) l, of b x] unfolding set_fd_def by simp
  show "e b + of_bool (fp_filp (vf_proc s ! i) ! fd = Some b) - of_bool (x = Some b) = 0" if "b \<notin> set (vf_ring s)" for b
    using that assms(1,4) k l by (auto simp: refs_inv_def proc_ok_def) (metis nth_mem)
qed

lemma inv_set_cloexec:
  assumes "refs_inv e s" "i < length (vf_proc s)" "fd < 256" "v \<Longrightarrow> fp_filp (vf_proc s ! i) ! fd \<noteq> None"
  shows "refs_inv e (set_cloexec i fd v s)"
  unfolding set_cloexec_def
proof (rule inv_upd_proc[OF assms(1,2)])
  have k: "proc_ok (vf_ring s) (vf_proc s ! i)" by (rule proc_okD[OF assms(1,2)])
  then show "proc_ok (vf_ring s) ((vf_proc s ! i)\<lparr>fp_cloexec := (fp_cloexec (vf_proc s ! i))[fd := v]\<rparr>)"
    using assms(3,4) by (auto simp: proc_ok_def nth_list_update split: if_splits)
  show "int (refs b (upd_proc i (\<lambda>p. p\<lparr>fp_cloexec := (fp_cloexec p)[fd := v]\<rparr>) s)) + e b = int (refs b s) + e b" for b
    using refs_update[OF assms(2), of b "\<lambda>p. p\<lparr>fp_cloexec := (fp_cloexec p)[fd := v]\<rparr>"] by simp
qed (use assms(1) in \<open>simp add: refs_inv_def\<close>)

lemma upd_file_sel [simp]:
  "vf_ring (upd_file a g s) = vf_ring s" "vf_proc (upd_file a g s) = vf_proc s" "vf_nr (upd_file a g s) = vf_nr s"
  "vf_allocs (upd_file a g s) = vf_allocs s" "vf_lk (upd_file a g s) = vf_lk s" "vf_pipe (upd_file a g s) = vf_pipe s"
  "vf_file (upd_file a g s) b = (if b = a then g (vf_file s a) else vf_file s b)"
  by (simp_all add: upd_file_def)

lemma inv_upd_file:
  assumes "refs_inv e s" "a \<in> set (vf_ring s)"
    "int (unat (f_count (g (vf_file s a)))) = int (unat (f_count (vf_file s a))) + d"
  shows "refs_inv (e(a := e a + d)) (upd_file a g s)"
  using assms by (auto simp: refs_inv_def)

lemma inv_same_count:
  "refs_inv e s \<Longrightarrow> (\<And>f. f_count (g f) = f_count f) \<Longrightarrow> refs_inv e (upd_file a g s)"
  by (auto simp: refs_inv_def)

lemma inv_inc:
  assumes "refs_inv e s" "a \<in> set (vf_ring s)" "e a \<le> 2"
  shows "refs_inv (e(a := e a + 1)) (inc_count a s)" "f_count (vf_file (inc_count a s) a) \<noteq> 0"
proof -
  have "int (unat (f_count (vf_file s a))) = int (refs a s) + e a" using assms(1,2) by (simp add: refs_inv_def)
  then have b: "unat (f_count (vf_file s a)) < 65535" using refs_bound[OF assms(1), of a] assms(3) by linarith
  then have i: "unat (f_count (vf_file s a) + 1) = unat (f_count (vf_file s a)) + 1" by (simp add: unat_word_ariths(1))
  then show "refs_inv (e(a := e a + 1)) (inc_count a s)" unfolding inc_count_def by (intro inv_upd_file[OF assms(1,2)]) simp
  show "f_count (vf_file (inc_count a s) a) \<noteq> 0" using i by (auto simp: inc_count_def)
qed

lemma inv_dec:
  assumes "refs_inv e s" "a \<in> set (vf_ring s)" "f_count (vf_file s a) \<noteq> 0"
  shows "refs_inv (e(a := e a - 1)) (dec_count a s)"
proof -
  have "unat (f_count (vf_file s a) - 1) = unat (f_count (vf_file s a)) - 1" by (rule unat_minus_one[OF assms(3)])
  moreover have "unat (f_count (vf_file s a)) \<noteq> 0" using assms(3) by (simp add: unat_eq_0)
  ultimately show ?thesis using inv_upd_file[OF assms(1,2), of "\<lambda>f. f\<lparr>f_count := f_count f - 1\<rparr>" "- 1"]
    by (simp add: dec_count_def)
qed

section \<open>Pipe ends\<close>

definition pipeish :: "file_struct \<Rightarrow> bool" where
  "pipeish f \<longleftrightarrow> f_count f \<noteq> 0 \<and> (\<exists>ops. f_op f = Some (Fops_pipe ops))"

definition is_end :: "pipe_fops \<Rightarrow> nat \<Rightarrow> file_struct \<Rightarrow> bool" where
  "is_end ops n f \<longleftrightarrow> f_count f \<noteq> 0 \<and> f_inode f = Some n \<and> f_op f = Some (Fops_pipe ops)"

definition ends :: "pipe_fops \<Rightarrow> nat \<Rightarrow> vfs \<Rightarrow> nat set" where
  "ends ops n s = {a\<in>set (vf_ring s). is_end ops n (vf_file s a)}"

definition node_ok :: "vfs \<Rightarrow> nat \<Rightarrow> pipe_node \<Rightarrow> bool" where
  "node_ok s n nd \<longleftrightarrow> unat (pi_readers (pn_pipe nd)) = card (ends read_pipe_fops n s) \<and>
     unat (pi_writers (pn_pipe nd)) = card (ends write_pipe_fops n s) \<and>
     unat (pn_count nd) = card (ends read_pipe_fops n s) + card (ends write_pipe_fops n s) \<and>
     (pn_count nd \<noteq> 0 \<longrightarrow> pipe_ok (pn_pipe nd))"

text \<open>An inode that is a pipe in use.\<close>

definition pipe_used :: "vfs \<Rightarrow> nat \<Rightarrow> bool" where
  "pipe_used s n \<longleftrightarrow> (\<exists>nd. vf_pipe s n = Some nd \<and> pn_count nd \<noteq> 0)"

definition file_ok :: "vfs \<Rightarrow> file_struct \<Rightarrow> bool" where
  "file_ok s f \<longleftrightarrow>
     (pipeish f \<longrightarrow> (\<exists>n ops. is_end ops n f \<and> ops \<in> {read_pipe_fops, write_pipe_fops} \<and> vf_pipe s n \<noteq> None)) \<and>
     (\<forall>n. f_count f \<noteq> 0 \<and> f_inode f = Some n \<and> pipe_used s n \<longrightarrow> pipeish f)"

definition pipes_inv :: "vfs \<Rightarrow> bool" where
  "pipes_inv s \<longleftrightarrow> (\<forall>n nd. vf_pipe s n = Some nd \<longrightarrow> node_ok s n nd) \<and> (\<forall>a\<in>set (vf_ring s). file_ok s (vf_file s a))"

text \<open>What a change of the files has to keep.\<close>

definition same_end :: "file_struct \<Rightarrow> file_struct \<Rightarrow> bool" where
  "same_end f f' \<longleftrightarrow> (\<not> pipeish f \<and> \<not> pipeish f' \<and> (f_count f' = 0 \<or> f_inode f' = None)) \<or>
     (f_count f \<noteq> 0 \<and> f_count f' \<noteq> 0 \<and> f_inode f' = f_inode f \<and> f_op f' = f_op f)"

lemma same_end_refl [simp]: "same_end f f"
  by (auto simp: same_end_def pipeish_def)

lemma same_end_live: "f_count f \<noteq> 0 \<Longrightarrow> f_count f' \<noteq> 0 \<Longrightarrow> f_inode f' = f_inode f \<Longrightarrow> f_op f' = f_op f \<Longrightarrow> same_end f f'"
  by (simp add: same_end_def)

lemma is_end_pipeish: "is_end ops n f \<Longrightarrow> pipeish f"
  by (simp add: is_end_def pipeish_def)

lemma same_endD: "same_end f f' \<Longrightarrow> is_end ops n f' = is_end ops n f" "same_end f f' \<Longrightarrow> pipeish f' = pipeish f"
  by (auto simp: same_end_def is_end_def pipeish_def) metis+

lemma ends_cong:
  assumes "set (vf_ring s) \<subseteq> set (vf_ring s')" "\<And>a. a \<in> set (vf_ring s) \<Longrightarrow> same_end (vf_file s a) (vf_file s' a)"
    "\<And>a. a \<in> set (vf_ring s') - set (vf_ring s) \<Longrightarrow> \<not> pipeish (vf_file s' a)"
  shows "ends ops n s' = ends ops n s"
  using assms same_endD(1) is_end_pipeish unfolding ends_def by blast

lemma pipes_inv_cong:
  assumes "pipes_inv s" "set (vf_ring s) \<subseteq> set (vf_ring s')" "vf_pipe s' = vf_pipe s"
    "\<And>a. a \<in> set (vf_ring s) \<Longrightarrow> same_end (vf_file s a) (vf_file s' a)"
    "\<And>a. a \<in> set (vf_ring s') - set (vf_ring s) \<Longrightarrow> f_count (vf_file s' a) = 0"
  shows "pipes_inv s'"
proof -
  have e: "ends ops n s' = ends ops n s" for ops n
    by (rule ends_cong[OF assms(2,4)]) (use assms(5) in \<open>auto simp: pipeish_def\<close>)
  have u: "pipe_used s' n = pipe_used s n" for n by (simp add: pipe_used_def assms(3))
  have "file_ok s' (vf_file s' a)" if a: "a \<in> set (vf_ring s')" for a
  proof (cases "a \<in> set (vf_ring s)")
    case True
    have k: "file_ok s (vf_file s a)" using assms(1) True by (simp add: pipes_inv_def)
    have x: "same_end (vf_file s a) (vf_file s' a)" by (rule assms(4)[OF True])
    show ?thesis using k same_endD[OF x] x unfolding file_ok_def u assms(3) by (auto simp: same_end_def)
  qed (use assms(5)[of a] a in \<open>auto simp: file_ok_def pipeish_def\<close>)
  then show ?thesis using assms(1) unfolding pipes_inv_def node_ok_def e assms(3) by blast
qed

lemma pipes_inv_frame [simp]:
  "pipes_inv (upd_proc i g s) = pipes_inv s" "pipes_inv (s\<lparr>vf_lk := lk\<rparr>) = pipes_inv s"
  by (simp_all add: pipes_inv_def node_ok_def ends_def file_ok_def pipe_used_def)

lemma pipes_upd_file:
  "pipes_inv s \<Longrightarrow> (a \<in> set (vf_ring s) \<Longrightarrow> same_end (vf_file s a) (g (vf_file s a))) \<Longrightarrow> pipes_inv (upd_file a g s)"
  by (rule pipes_inv_cong[of s]) auto

section \<open>Finding a free file\<close>

text \<open>A state that agrees with another but for the table of files.\<close>

definition same_rest :: "vfs \<Rightarrow> vfs \<Rightarrow> bool" where
  "same_rest s s' \<longleftrightarrow> vf_proc s' = vf_proc s \<and> vf_lk s' = vf_lk s \<and> vf_pipe s' = vf_pipe s"

lemma fold_insert_file:
  "fold insert_file_free xs s = s\<lparr>vf_ring := rev xs @ vf_ring s\<rparr>"
  by (induction xs arbitrary: s) (simp_all add: insert_file_free_def)

lemma grow_files_fail: "\<not> mem (vf_allocs s) \<Longrightarrow> grow_files mem s = s\<lparr>vf_allocs := vf_allocs s + 1\<rparr>"
  by (simp add: grow_files_def Let_def)

lemma grow_files_ok:
  "mem (vf_allocs s) \<Longrightarrow> grow_files mem s = s\<lparr>vf_allocs := vf_allocs s + 1, vf_nr := vf_nr s + 128,
     vf_file := (\<lambda>a. if a \<in> {128 * vf_allocs s..<128 * vf_allocs s + 128} then null_file else vf_file s a),
     vf_ring := rev [128 * vf_allocs s..<128 * vf_allocs s + 128] @ vf_ring s\<rparr>"
  by (simp add: grow_files_def Let_def fold_insert_file)

lemma refs_outside: "refs_inv e s \<Longrightarrow> a \<notin> set (vf_ring s) \<Longrightarrow> refs a s = 0"
proof -
  assume "refs_inv e s" "a \<notin> set (vf_ring s)"
  then have "cnt (\<lambda>x. x = Some a) (fp_filp p) = 0" if "p \<in> set (vf_proc s)" for p
    using that by (auto simp: refs_inv_def proc_ok_def cnt_def filter_empty_conv)
  then show ?thesis by (simp add: refs_def)
qed

lemma grow_files_inv:
  assumes "refs_inv e s" "pipes_inv s"
  shows "refs_inv e (grow_files mem s)" "pipes_inv (grow_files mem s)" "same_rest s (grow_files mem s)"
    "set (vf_ring s) \<subseteq> set (vf_ring (grow_files mem s))"
    "a \<in> set (vf_ring s) \<Longrightarrow> vf_file (grow_files mem s) a = vf_file s a"
proof -
  have new: "a \<notin> set (vf_ring s)" if "128 * vf_allocs s \<le> a" for a using assms(1) that by (auto simp: refs_inv_def)
  have z: "e a = 0" "refs a s = 0" if "128 * vf_allocs s \<le> a" for a
    using new[OF that] assms(1) refs_outside[OF assms(1)] by (auto simp: refs_inv_def)
  have old: "a < 128 * vf_allocs s" if "a \<in> set (vf_ring s)" for a using assms(1) that by (auto simp: refs_inv_def)
  show "refs_inv e (grow_files mem s)"
  proof (cases "mem (vf_allocs s)")
    case True
    have "proc_ok r p \<Longrightarrow> set r \<subseteq> set r' \<Longrightarrow> proc_ok r' p" for r r' p by (auto simp: proc_ok_def)
    then have "\<forall>p\<in>set (vf_proc s). proc_ok (rev [128 * vf_allocs s..<128 * vf_allocs s + 128] @ vf_ring s) p"
      using assms(1) by (simp add: refs_inv_def) (metis Un_upper2 set_append set_rev)
    then show ?thesis using assms(1) new z old
      by (simp add: grow_files_ok True refs_inv_def null_file_def) (force simp: null_file_def)
  qed (use assms(1) in \<open>auto simp: grow_files_fail refs_inv_def\<close>)
  show "pipes_inv (grow_files mem s)"
    by (rule pipes_inv_cong[OF assms(2)]; cases "mem (vf_allocs s)")
      (auto simp: grow_files_ok grow_files_fail null_file_def pipeish_def dest: old)
  show "same_rest s (grow_files mem s)" "set (vf_ring s) \<subseteq> set (vf_ring (grow_files mem s))"
    by (cases "mem (vf_allocs s)"; auto simp: grow_files_ok grow_files_fail same_rest_def)+
  show "a \<in> set (vf_ring s) \<Longrightarrow> vf_file (grow_files mem s) a = vf_file s a"
    by (cases "mem (vf_allocs s)") (auto simp: grow_files_ok grow_files_fail dest: old)
qed

lemma claim_filp_eq:
  "claim_filp a s = s\<lparr>vf_ring := remove1 a (remove1 a (vf_ring s)) @ [a], vf_file := (vf_file s)(a := null_file\<lparr>f_count := 1\<rparr>)\<rparr>"
  by (simp add: claim_filp_def put_last_free_def remove_file_free_def upd_file_def)

lemma claim_filp_inv:
  assumes "refs_inv e s" "pipes_inv s" "a \<in> set (vf_ring s)" "f_count (vf_file s a) = 0"
  shows "refs_inv (e(a := e a + 1)) (claim_filp a s)" "pipes_inv (claim_filp a s)" "same_rest s (claim_filp a s)"
    "set (vf_ring (claim_filp a s)) = set (vf_ring s)" "vf_file (claim_filp a s) = (vf_file s)(a := null_file\<lparr>f_count := 1\<rparr>)"
proof -
  have d: "distinct (vf_ring s)" using assms(1) by (simp add: refs_inv_def)
  then have r: "remove1 a (remove1 a (vf_ring s)) = remove1 a (vf_ring s)" by (simp add: remove1_idem)
  show S: "set (vf_ring (claim_filp a s)) = set (vf_ring s)" using assms(3) d by (auto simp: claim_filp_eq r)
  have "proc_ok (vf_ring (claim_filp a s)) p = proc_ok (vf_ring s) p" for p by (simp add: proc_ok_def S)
  moreover have "int (length (remove1 a (vf_ring s))) + 1 = int (length (vf_ring s))"
    using assms(3) by (simp add: length_remove1) (metis One_nat_def Suc_pred length_pos_if_in_set of_nat_Suc add.commute)
  ultimately show "refs_inv (e(a := e a + 1)) (claim_filp a s)" using assms d S
    by (auto simp: refs_inv_def claim_filp_eq r null_file_def)
  show "vf_file (claim_filp a s) = (vf_file s)(a := null_file\<lparr>f_count := 1\<rparr>)" by (simp add: claim_filp_eq)
  show "pipes_inv (claim_filp a s)"
    by (rule pipes_inv_cong[OF assms(2)])
      (use S assms(4) in \<open>auto simp: claim_filp_eq same_end_def pipeish_def null_file_def\<close>)
  show "same_rest s (claim_filp a s)" by (simp add: same_rest_def claim_filp_eq)
qed

lemma find_filp_Some: "find_filp s = Some a \<Longrightarrow> a \<in> set (vf_ring s) \<and> f_count (vf_file s a) = 0"
  by (auto simp: find_filp_def find_Some_iff dest!: arg_cong[where f = "\<lambda>x. x \<in> set (vf_ring s)"])

definition filp_spec :: "(nat \<Rightarrow> int) \<Rightarrow> vfs \<Rightarrow> nat option \<Rightarrow> vfs \<Rightarrow> bool" where
  "filp_spec e s r s' \<longleftrightarrow> same_rest s s' \<and> pipes_inv s' \<and> set (vf_ring s) \<subseteq> set (vf_ring s') \<and>
     (case r of
        None \<Rightarrow> refs_inv e s' \<and> (\<forall>b\<in>set (vf_ring s). vf_file s' b = vf_file s b)
      | Some a \<Rightarrow> a \<in> set (vf_ring s') \<and> refs_inv (e(a := e a + 1)) s' \<and> vf_file s' a = null_file\<lparr>f_count := 1\<rparr> \<and>
          (a \<in> set (vf_ring s) \<longrightarrow> f_count (vf_file s a) = 0) \<and> (\<forall>b\<in>set (vf_ring s) - {a}. vf_file s' b = vf_file s b))"

lemma filp_spec_claim:
  "refs_inv e s \<Longrightarrow> pipes_inv s \<Longrightarrow> find_filp s = Some a \<Longrightarrow> filp_spec e s (Some a) (claim_filp a s)"
  using claim_filp_inv[of e s a] find_filp_Some[of s a] by (auto simp: filp_spec_def)

lemma filp_spec_grow:
  assumes "refs_inv e s" "pipes_inv s" "filp_spec e (grow_files mem s) r s'"
  shows "filp_spec e s r s'"
proof -
  let ?g = "grow_files mem s"
  have g: "same_rest s ?g" "set (vf_ring s) \<subseteq> set (vf_ring ?g)" "\<forall>b\<in>set (vf_ring s). vf_file ?g b = vf_file s b"
    using grow_files_inv(3-)[OF assms(1,2), where mem = mem] by simp_all
  have r: "same_rest s s'" "set (vf_ring s) \<subseteq> set (vf_ring s')" using g(1,2) assms(3) by (auto simp: filp_spec_def same_rest_def)
  show ?thesis
  proof (cases r)
    case None
    have "\<forall>b\<in>set (vf_ring s). vf_file s' b = vf_file s b" using g(2,3) assms(3) None by (simp add: filp_spec_def subset_iff)
    then show ?thesis using r assms(3) None by (simp add: filp_spec_def)
  next
    case (Some a)
    have "\<forall>b\<in>set (vf_ring s) - {a}. vf_file s' b = vf_file s b" using g(2,3) assms(3) Some by (simp add: filp_spec_def subset_iff)
    moreover have "a \<in> set (vf_ring s) \<longrightarrow> f_count (vf_file s a) = 0"
      using g(2,3) assms(3) Some by (simp add: filp_spec_def subset_iff) metis
    ultimately show ?thesis using r assms(3) Some by (simp add: filp_spec_def)
  qed
qed

lemma filp_spec_full: "refs_inv e s \<Longrightarrow> pipes_inv s \<Longrightarrow> filp_spec e s None s"
  by (simp add: filp_spec_def same_rest_def)

lemma filp_loop_spec:
  assumes "filp_loop mem s = Some y" "refs_inv e s" "pipes_inv s"
  shows "filp_spec e s (fst y) (snd y)"
proof -
  have "\<forall>e. refs_inv e s \<longrightarrow> pipes_inv s \<longrightarrow> filp_spec e s (fst y) (snd y)"
  proof (rule filp_loop.raw_induct[OF _ assms(1), where P = "\<lambda>mem s y. \<forall>e. refs_inv e s \<longrightarrow> pipes_inv s \<longrightarrow> filp_spec e s (fst y) (snd y)"], intro allI impI)
    fix loop mem s y e
    assume IH: "\<And>mem s y. loop mem s = Some y \<Longrightarrow> \<forall>e. refs_inv e s \<longrightarrow> pipes_inv s \<longrightarrow> filp_spec e s (fst y) (snd y)"
      and body: "(case find_filp s of None \<Rightarrow> if vf_nr s < NR_FILE then loop mem (grow_files mem s) else Some (None, s)
        | Some a \<Rightarrow> Some (Some a, claim_filp a s)) = Some y"
      and v: "refs_inv e s" "pipes_inv s"
    show "filp_spec e s (fst y) (snd y)"
    proof (cases "find_filp s = None \<and> vf_nr s < NR_FILE")
      case True
      then have "filp_spec e (grow_files mem s) (fst y) (snd y)" using body IH grow_files_inv(1,2)[OF v, of mem] by auto
      then show ?thesis by (rule filp_spec_grow[OF v])
    next
      case False
      then show ?thesis using body filp_spec_claim[OF v] filp_spec_full[OF v] by (auto split: option.splits if_splits)
    qed
  qed
  then show ?thesis using assms(2,3) by blast
qed

lemma get_empty_filp_spec:
  assumes "get_empty_filp mem s = Some (r, s')" "refs_inv e s" "pipes_inv s"
  shows "filp_spec e s r s'"
proof (cases "vf_ring s = []")
  case True
  then have "filp_loop mem (grow_files mem s) = Some (r, s')" using assms(1) by (simp add: get_empty_filp_def)
  from filp_loop_spec[OF this grow_files_inv(1,2)[OF assms(2,3)]] show ?thesis by (auto intro: filp_spec_grow[OF assms(2,3)])
next
  case False
  then show ?thesis using filp_loop_spec[OF _ assms(2,3)] assms(1) by (fastforce simp: get_empty_filp_def)
qed

text \<open>With memory at hand the loop ends, and fails only when the table is full and every file in use.\<close>

lemma filp_loop_ends:
  assumes "\<And>k. mem k" "refs_inv e s" "pipes_inv s"
  shows "\<exists>r s'. filp_loop mem s = Some (r, s') \<and>
    (r = None \<longrightarrow> NR_FILE \<le> vf_nr s' \<and> (\<forall>a\<in>set (vf_ring s'). f_count (vf_file s' a) \<noteq> 0))"
  using assms(2,3)
proof (induction "nat (NR_FILE - vf_nr s)" arbitrary: s rule: less_induct)
  case less
  show ?case
  proof (cases "find_filp s")
    case None
    have n: "take (nat (vf_nr s)) (vf_ring s) = vf_ring s" using less.prems(1) by (simp add: refs_inv_def)
    show ?thesis
    proof (cases "vf_nr s < NR_FILE")
      case True
      have "nat (NR_FILE - vf_nr (grow_files mem s)) < nat (NR_FILE - vf_nr s)"
        using True assms(1) by (simp add: grow_files_ok)
      from less.hyps[OF this grow_files_inv(1,2)[OF less.prems]]
      show ?thesis using None True by (simp add: filp_loop.simps[of mem s])
    next
      case False
      then have "filp_loop mem s = Some (None, s)" using None by (simp add: filp_loop.simps[of mem s])
      then show ?thesis using None n False by (auto simp: find_filp_def find_None_iff)
    qed
  qed (simp add: filp_loop.simps[of mem s])
qed

text \<open>Without it, and with no free file and a table that may still grow, the loop never ends.\<close>

lemma filp_loop_stuck:
  assumes "\<And>k. \<not> mem k" "find_filp s = None" "vf_nr s < NR_FILE"
  shows "filp_loop mem s = None"
proof (rule ccontr)
  assume "filp_loop mem s \<noteq> None"
  then obtain y where "filp_loop mem s = Some y" by blast
  then have "\<not> (find_filp s = None \<and> vf_nr s < NR_FILE \<and> (\<forall>k. \<not> mem k))"
  proof (rule filp_loop.raw_induct[rotated, where P = "\<lambda>mem s y. \<not> (find_filp s = None \<and> vf_nr s < NR_FILE \<and> (\<forall>k. \<not> mem k))"])
    fix loop mem s y
    assume IH: "\<And>mem s y. loop mem s = Some y \<Longrightarrow> \<not> (find_filp s = None \<and> vf_nr s < NR_FILE \<and> (\<forall>k. \<not> mem k))"
      and body: "(case find_filp s of None \<Rightarrow> if vf_nr s < NR_FILE then loop mem (grow_files mem s) else Some (None, s)
        | Some a \<Rightarrow> Some (Some a, claim_filp a s)) = Some (y :: nat option \<times> vfs)"
    show "\<not> (find_filp s = None \<and> vf_nr s < NR_FILE \<and> (\<forall>k. \<not> mem k))"
    proof
      assume a: "find_filp s = None \<and> vf_nr s < NR_FILE \<and> (\<forall>k. \<not> mem k)"
      then have "loop mem (grow_files mem s) = Some y" using body by simp
      from IH[OF this] show False using a by (simp add: grow_files_fail find_filp_def)
    qed
  qed
  then show False using assms by blast
qed

section \<open>Closing\<close>

definition vfs_inv :: "vfs \<Rightarrow> bool" where
  "vfs_inv s \<longleftrightarrow> refs_inv (\<lambda>_. 0) s \<and> pipes_inv s \<and> state_inv (vf_lk s)"

lemma iput_sel [simp]:
  "vf_ring (iput x s) = vf_ring s" "vf_file (iput x s) = vf_file s" "vf_proc (iput x s) = vf_proc s" "vf_lk (iput x s) = vf_lk s"
  "refs_inv e (iput x s) = refs_inv e s"
  by (auto simp: iput_def split: option.splits)

lemma upd_pipe_sel [simp]:
  "vf_ring (upd_pipe n g s) = vf_ring s" "vf_file (upd_pipe n g s) = vf_file s" "vf_proc (upd_pipe n g s) = vf_proc s"
  "vf_lk (upd_pipe n g s) = vf_lk s" "refs_inv e (upd_pipe n g s) = refs_inv e s"
  by (simp_all add: upd_pipe_def)

lemma release_file_sel [simp]:
  "vf_ring (release_file f s) = vf_ring s" "vf_file (release_file f s) = vf_file s" "vf_proc (release_file f s) = vf_proc s"
  "vf_lk (release_file f s) = vf_lk s" "refs_inv e (release_file f s) = refs_inv e s"
  by (auto simp: release_file_def split: option.split fops.split)

lemma iput_unused: "\<not> pipe_used s n \<Longrightarrow> iput (Some n) s = s"
  by (auto simp: iput_def pipe_used_def split: option.splits)

lemma finite_ends [simp]: "finite (ends ops n s)"
  by (simp add: ends_def)

lemma unat_pred: "unat w = Suc k \<Longrightarrow> unat (w - 1) = k"
  by (metis One_nat_def diff_Suc_1 nat.distinct(1) unat_0 unat_minus_one)

text \<open>The last close of an end: its pipe loses one end and one reference.\<close>

definition drop_end :: "pipe_fops \<Rightarrow> pipe_node \<Rightarrow> pipe_node" where
  "drop_end ops nd = nd\<lparr>pn_pipe := (let p = do_release (fops_release ops) (pn_pipe nd) in if pn_count nd > 1 then p else p\<lparr>pi_base := []\<rparr>),
     pn_count := pn_count nd - 1\<rparr>"

lemma iput_release:
  assumes "is_end ops n f" "vf_pipe s n = Some nd" "pn_count nd \<noteq> 0"
  shows "vf_pipe (iput (f_inode f) (upd_file a g (upd_file b h (release_file f s)))) = (vf_pipe s)(n \<mapsto> drop_end ops nd)"
  using assms by (auto simp: iput_def release_file_def is_end_def upd_pipe_def drop_end_def Let_def)

lemma pipe_ok_release: "pipe_ok (do_release r p) = pipe_ok p"
  by (cases r) (simp_all add: pipe_ok_def pipe_read_release_def pipe_write_release_def pipe_rdwr_release_def)

lemma drop_end_ok:
  assumes k: "node_ok s n nd" and a: "a \<in> ends ops n s" "ops \<in> {read_pipe_fops, write_pipe_fops}"
    and e: "\<And>o'. ends o' n s' = ends o' n s - {a}"
  shows "node_ok s' n (drop_end ops nd)"
proof -
  have c: "card (ends o' n s) = card (ends o' n s') + of_bool (o' = ops)" for o'
  proof (cases "o' = ops")
    case True
    then show ?thesis using card.remove[OF finite_ends a(1)] by (simp add: e)
  next
    case False
    then have "a \<notin> ends o' n s" using a(1) by (auto simp: ends_def is_end_def)
    then show ?thesis using False by (simp add: e)
  qed
  note r = c[of read_pipe_fops] and w = c[of write_pipe_fops]
  let ?m = "card (ends read_pipe_fops n s') + card (ends write_pipe_fops n s')"
  have m: "unat (pn_count nd) = Suc ?m" using k a(2) by (auto simp: node_ok_def r w)
  have p: "unat (pn_count nd - 1) = ?m" by (rule unat_pred[OF m])
  have q: "pn_count nd > 1" if "pn_count nd - 1 \<noteq> 0"
  proof -
    have "?m \<noteq> 0" using that p by (metis unat_eq_0)
    then show ?thesis using m by (auto simp: word_less_nat_alt card_gt_0_iff)
  qed
  have k0: "pn_count nd \<noteq> 0" using m by auto
  have ok: "pipe_ok (pn_pipe nd)" using k k0 by (simp add: node_ok_def)
  have pe: "pn_count (drop_end ops nd) \<noteq> 0 \<Longrightarrow> pipe_ok (pn_pipe (drop_end ops nd))"
    using q ok by (simp add: drop_end_def pipe_ok_release)
  have pc: "unat (pn_count (drop_end ops nd)) = ?m" using p by (simp add: drop_end_def)
  show ?thesis
  proof (cases "ops = read_pipe_fops")
    case True
    have "unat (pi_readers (pn_pipe nd)) = Suc (card (ends read_pipe_fops n s'))" using k r True by (simp add: node_ok_def)
    from unat_pred[OF this] show ?thesis using pe pc True k w
      by (simp add: node_ok_def drop_end_def Let_def pipe_read_release_def split: if_splits)
  next
    case False
    then have o: "ops = write_pipe_fops" using a(2) by simp
    have "unat (pi_writers (pn_pipe nd)) = Suc (card (ends write_pipe_fops n s'))" using k w o by (simp add: node_ok_def)
    from unat_pred[OF this] show ?thesis using pe pc o k r
      by (simp add: node_ok_def drop_end_def Let_def pipe_write_release_def split: if_splits)
  qed
qed

text \<open>The close of the last descriptor of a file, but for the locks.\<close>

definition last_close :: "nat \<Rightarrow> vfs \<Rightarrow> vfs" where
  "last_close a s = iput (f_inode (vf_file s a)) (upd_file a (\<lambda>f. f\<lparr>f_inode := None\<rparr>) (dec_count a (release_file (vf_file s a) s)))"

lemma last_close_file:
  "f_count (vf_file s a) = 1 \<Longrightarrow> vf_file (last_close a s) = (vf_file s)(a := (vf_file s a)\<lparr>f_count := 0, f_inode := None\<rparr>)"
  by (auto simp: last_close_def dec_count_def upd_file_def)

lemma last_close_ring [simp]: "vf_ring (last_close a s) = vf_ring s" "vf_lk (last_close a s) = vf_lk s" "vf_proc (last_close a s) = vf_proc s"
  by (simp_all add: last_close_def dec_count_def)

lemma last_close_refs:
  "refs_inv e s \<Longrightarrow> a \<in> set (vf_ring s) \<Longrightarrow> f_count (vf_file s a) = 1 \<Longrightarrow> refs_inv (e(a := e a - 1)) (last_close a s)"
  using inv_dec[of e "release_file (vf_file s a) s" a] by (simp add: last_close_def inv_same_count)

lemma last_close_plain:
  assumes "pipes_inv s" "a \<in> set (vf_ring s)" "f_count (vf_file s a) = 1" "\<not> pipeish (vf_file s a)"
  shows "pipes_inv (last_close a s)"
proof (rule pipes_inv_cong[OF assms(1)])
  have u: "\<not> pipe_used s n" if "f_inode (vf_file s a) = Some n" for n
    using assms that by (auto simp: pipes_inv_def file_ok_def)
  have r: "release_file (vf_file s a) s = s"
    using assms(3,4) by (auto simp: release_file_def pipeish_def split: option.split fops.split)
  have p: "pipe_used (upd_file b g (dec_count a s)) n = pipe_used s n" for b g n by (simp add: pipe_used_def dec_count_def)
  show "vf_pipe (last_close a s) = vf_pipe s" unfolding last_close_def r
    by (cases "f_inode (vf_file s a)") (simp_all add: iput_unused p u, simp_all add: iput_def dec_count_def)
qed (use assms(4) in \<open>auto simp: last_close_file[OF assms(3)] same_end_def pipeish_def\<close>)

lemma file_ok_mono:
  assumes "file_ok s f" "\<And>n. vf_pipe s n \<noteq> None \<Longrightarrow> vf_pipe s' n \<noteq> None" "\<And>n. pipe_used s' n \<Longrightarrow> pipe_used s n"
  shows "file_ok s' f"
  unfolding file_ok_def
proof (intro conjI impI allI)
  assume "pipeish f"
  then obtain n ops where "is_end ops n f" "ops \<in> {read_pipe_fops, write_pipe_fops}" "vf_pipe s n \<noteq> None"
    using assms(1) unfolding file_ok_def by blast
  then show "\<exists>n ops. is_end ops n f \<and> ops \<in> {read_pipe_fops, write_pipe_fops} \<and> vf_pipe s' n \<noteq> None"
    using assms(2)[of n] by (intro exI conjI) assumption+
next
  fix n assume "f_count f \<noteq> 0 \<and> f_inode f = Some n \<and> pipe_used s' n"
  then show "pipeish f" using assms(1,3) by (simp add: file_ok_def)
qed

lemma last_close_end:
  assumes "pipes_inv s" "a \<in> set (vf_ring s)" "f_count (vf_file s a) = 1" "pipeish (vf_file s a)"
  shows "pipes_inv (last_close a s)"
proof -
  let ?s = "last_close a s"
  have "file_ok s (vf_file s a)" using assms(1,2) by (simp add: pipes_inv_def)
  then obtain n ops where o: "is_end ops n (vf_file s a)" "ops \<in> {read_pipe_fops, write_pipe_fops}" "vf_pipe s n \<noteq> None"
    using assms(4) unfolding file_ok_def by blast
  then obtain nd where nd: "vf_pipe s n = Some nd" by blast
  have k: "node_ok s n nd" using assms(1) nd by (simp add: pipes_inv_def)
  have m: "a \<in> ends ops n s" using assms(2) o(1) by (simp add: ends_def)
  then have "0 < card (ends ops n s)" by (auto simp: card_gt_0_iff)
  then have c: "pn_count nd \<noteq> 0" using k o(2) by (auto simp: node_ok_def)
  have pp: "vf_pipe ?s = (vf_pipe s)(n \<mapsto> drop_end ops nd)"
    unfolding last_close_def dec_count_def by (rule iput_release[OF o(1) nd c])
  have f: "vf_file ?s = (vf_file s)(a := (vf_file s a)\<lparr>f_count := 0, f_inode := None\<rparr>)" by (rule last_close_file[OF assms(3)])
  have e: "ends o' n' ?s = ends o' n' s - {a}" for o' n' by (auto simp: ends_def f is_end_def)
  have "node_ok ?s n' nd'" if "vf_pipe ?s n' = Some nd'" for n' nd'
  proof (cases "n' = n")
    case True
    then show ?thesis using that drop_end_ok[OF k m o(2), of ?s] e by (simp add: pp)
  next
    case False
    then have "a \<notin> ends o' n' s" for o' using o(1) by (auto simp: ends_def is_end_def)
    then have "ends o' n' ?s = ends o' n' s" for o' by (simp add: e)
    then show ?thesis using that False assms(1) by (simp add: pp pipes_inv_def node_ok_def)
  qed
  moreover have "file_ok ?s (vf_file ?s b)" if b: "b \<in> set (vf_ring s)" for b
  proof (cases "b = a")
    case False
    have u: "pipe_used ?s x \<Longrightarrow> pipe_used s x" for x using nd c by (auto simp: pipe_used_def pp split: if_splits)
    have "file_ok s (vf_file s b)" using assms(1) b by (simp add: pipes_inv_def)
    then have "file_ok ?s (vf_file s b)" by (rule file_ok_mono) (use u in \<open>auto simp: pp\<close>)
    then show ?thesis using False by (simp add: f)
  qed (simp add: f file_ok_def pipeish_def)
  ultimately show ?thesis by (simp add: pipes_inv_def)
qed

lemmas last_close_pipes = last_close_plain last_close_end

lemma remove_locks_some:
  assumes "state_inv (vf_lk s)"
  shows "\<exists>lk. remove_locks i fd f s = Some (s\<lparr>vf_lk := lk\<rparr>) \<and> state_inv lk"
proof (cases "\<exists>n. f_inode f = Some n \<and> S_ISREG (i_mode (lk_inode (vf_lk s) n))")
  case True
  then obtain n where n: "f_inode f = Some n" "S_ISREG (i_mode (lk_inode (vf_lk s) n))" by blast
  obtain lk where "fcntl_remove_locks (vf_lk s) i n (word_of_nat fd) = Some lk" "state_inv lk"
    using remove_locks_inv[OF assms] by blast
  then show ?thesis using n by (intro exI[of _ lk]) (simp add: remove_locks_def)
next
  case False
  then have "remove_locks i fd f s = Some (s\<lparr>vf_lk := vf_lk s\<rparr>)" by (auto simp: remove_locks_def split: option.split)
  then show ?thesis using assms by blast
qed

lemma count_one: "w \<noteq> 0 \<Longrightarrow> \<not> 1 < w \<Longrightarrow> w = (1 :: u16)"
  by (metis linorder_neqE word_less_1)

lemma close_fp_inv:
  assumes "refs_inv (\<lambda>b. of_bool (b = a)) s" "pipes_inv s" "state_inv (vf_lk s)" "a \<in> set (vf_ring s)"
  shows "\<exists>s'. close_fp i a fd s = Some s' \<and> vfs_inv s' \<and> vf_proc s' = vf_proc s"
proof -
  have "int (unat (f_count (vf_file s a))) = int (refs a s) + 1" using assms(1,4) by (simp add: refs_inv_def)
  then have c: "unat (f_count (vf_file s a)) = Suc (refs a s)" by linarith
  then have c0: "f_count (vf_file s a) \<noteq> 0" by auto
  obtain lk where lk: "remove_locks i fd (vf_file s a) s = Some (s\<lparr>vf_lk := lk\<rparr>)" "state_inv lk"
    using remove_locks_some[OF assms(3)] by blast
  let ?s = "s\<lparr>vf_lk := lk\<rparr>"
  have z: "(\<lambda>b. of_bool (b = a))(a := of_bool (a = a) - 1) = (\<lambda>_. 0 :: int)" by auto
  show ?thesis
  proof (cases "f_count (vf_file s a) > 1")
    case True
    then have "f_count (vf_file s a) - 1 \<noteq> 0" by auto
    then have "pipes_inv (dec_count a ?s)" unfolding dec_count_def
      by (intro pipes_upd_file) (use assms(2) c0 in \<open>simp_all add: same_end_def\<close>)
    moreover have "refs_inv (\<lambda>_. 0) (dec_count a ?s)" using inv_dec[of "\<lambda>b. of_bool (b = a)" ?s a] assms(1,4) c0 z by simp
    moreover have "close_fp i a fd s = Some (dec_count a ?s)" using True lk(1) c0 by (simp add: close_fp_def Let_def)
    ultimately show ?thesis using lk(2) by (simp add: vfs_inv_def dec_count_def)
  next
    case False
    then have c1: "f_count (vf_file ?s a) = 1" using c0 count_one by simp
    have "refs_inv (\<lambda>_. 0) (last_close a ?s)" using last_close_refs[of "\<lambda>b. of_bool (b = a)" ?s a] assms(1,4) c1 z by simp
    moreover have "pipes_inv (last_close a ?s)" using last_close_pipes[of ?s a] assms(2,4) c1 by auto
    moreover have "close_fp i a fd s = Some (last_close a ?s)" using False lk(1) c0 by (simp add: close_fp_def last_close_def Let_def)
    ultimately show ?thesis using lk(2) by (simp add: vfs_inv_def)
  qed
qed

lemma set_fd_sel [simp]:
  "vf_ring (set_fd i fd x s) = vf_ring s" "vf_file (set_fd i fd x s) = vf_file s" "vf_lk (set_fd i fd x s) = vf_lk s"
  "vf_pipe (set_fd i fd x s) = vf_pipe s" "pipes_inv (set_fd i fd x s) = pipes_inv s"
  "vf_ring (set_cloexec i fd b s) = vf_ring s" "vf_file (set_cloexec i fd b s) = vf_file s" "vf_lk (set_cloexec i fd b s) = vf_lk s"
  "vf_pipe (set_cloexec i fd b s) = vf_pipe s" "pipes_inv (set_cloexec i fd b s) = pipes_inv s"
  "length (vf_proc (set_fd i fd x s)) = length (vf_proc s)" "length (vf_proc (set_cloexec i fd b s)) = length (vf_proc s)"
  by (simp_all add: set_fd_def set_cloexec_def)

lemma set_fd_proc [simp]:
  "i < length (vf_proc s) \<Longrightarrow> vf_proc (set_fd i fd x s) ! i = (vf_proc s ! i)\<lparr>fp_filp := (fp_filp (vf_proc s ! i))[fd := x]\<rparr>"
  "i < length (vf_proc s) \<Longrightarrow> vf_proc (set_cloexec i fd b s) ! i = (vf_proc s ! i)\<lparr>fp_cloexec := (fp_cloexec (vf_proc s ! i))[fd := b]\<rparr>"
  by (simp_all add: set_fd_def set_cloexec_def)

lemma fd_fileD:
  assumes "fd_file i fd s = Some a"
  shows "fd < 256" "fp_filp (vf_proc s ! i) ! fd = Some a"
  using assms by (auto simp: fd_file_def split: if_splits)

lemma fd_file_ring:
  assumes "refs_inv e s" "i < length (vf_proc s)" "fd_file i fd s = Some a"
  shows "a \<in> set (vf_ring s)"
  using proc_okD[OF assms(1,2)] fd_fileD[OF assms(3)] by (auto simp: proc_ok_def) (metis nth_mem)

lemma cloexec_length: "refs_inv e s \<Longrightarrow> i < length (vf_proc s) \<Longrightarrow> length (fp_cloexec (vf_proc s ! i)) = 256"
  "refs_inv e s \<Longrightarrow> i < length (vf_proc s) \<Longrightarrow> length (fp_filp (vf_proc s ! i)) = 256"
  using proc_okD by (auto simp: proc_ok_def)

text \<open>The descriptors after a close: the one named is free and no other has changed.\<close>

definition closed_procs :: "nat \<Rightarrow> nat \<Rightarrow> vfs \<Rightarrow> fproc list" where
  "closed_procs i fd s = (vf_proc s)[i := (vf_proc s ! i)\<lparr>fp_cloexec := (fp_cloexec (vf_proc s ! i))[fd := False],
     fp_filp := (fp_filp (vf_proc s ! i))[fd := None]\<rparr>]"

lemma sys_close_inv:
  assumes "vfs_inv s" "i < length (vf_proc s)"
  shows "\<exists>r s'. sys_close i fd s = Some (r, s') \<and> vfs_inv s' \<and> vf_proc s' = closed_procs i fd s \<and>
    (r = None \<longleftrightarrow> fd_file i fd s \<noteq> None)"
proof (cases "fd < 256")
  case False
  have "length (fp_filp (vf_proc s ! i)) = 256" "length (fp_cloexec (vf_proc s ! i)) = 256"
    using cloexec_length[of "\<lambda>_. 0" s i] assms by (simp_all add: vfs_inv_def)
  then have "closed_procs i fd s = vf_proc s" using False by (simp add: closed_procs_def list_update_beyond)
  then show ?thesis using False assms by (simp add: sys_close_def fd_file_def)
next
  case True
  let ?s = "set_cloexec i fd False s"
  have r1: "refs_inv (\<lambda>_. 0) ?s" using inv_set_cloexec[of "\<lambda>_. 0" s i fd False] assms True by (simp add: vfs_inv_def)
  have f: "fd_file i fd ?s = fd_file i fd s" using assms(2) by (simp add: fd_file_def)
  have p: "vf_proc (set_fd i fd None ?s) = closed_procs i fd s"
    using assms(2) by (simp add: closed_procs_def set_fd_def set_cloexec_def upd_proc_def)
  show ?thesis
  proof (cases "fd_file i fd s")
    case None
    then have "(fp_filp (vf_proc s ! i))[fd := None] = fp_filp (vf_proc s ! i)"
      using True by (simp add: fd_file_def) (metis list_update_id)
    then have "vf_proc ?s = closed_procs i fd s" using assms(2) by (simp add: closed_procs_def set_cloexec_def upd_proc_def)
    then show ?thesis using None True f r1 assms(1) by (simp add: sys_close_def vfs_inv_def)
  next
    case (Some a)
    note a = fd_fileD[OF Some]
    have m: "a \<in> set (vf_ring s)" by (rule fd_file_ring[OF _ assms(2) Some, of "\<lambda>_. 0"]) (use assms(1) in \<open>simp add: vfs_inv_def\<close>)
    have l: "\<not> fp_cloexec (vf_proc ?s ! i) ! fd"
      using cloexec_length(1)[of "\<lambda>_. 0" s i] assms True by (simp add: vfs_inv_def)
    have "(\<lambda>b. 0 + of_bool (fp_filp (vf_proc ?s ! i) ! fd = Some b) - of_bool (None = Some b)) = (\<lambda>b. of_bool (b = a) :: int)"
      using a(2) assms(2) by auto
    then have "refs_inv (\<lambda>b. of_bool (b = a)) (set_fd i fd None ?s)"
      using inv_set_fd[OF r1, of i fd None] assms(2) True l by simp
    then obtain s' where "close_fp i a fd (set_fd i fd None ?s) = Some s'" "vfs_inv s'" "vf_proc s' = vf_proc (set_fd i fd None ?s)"
      using close_fp_inv[of a "set_fd i fd None ?s" i fd] assms(1) m by (auto simp: vfs_inv_def)
    then show ?thesis using Some True f p by (simp add: sys_close_def)
  qed
qed

section \<open>Duplicating\<close>

lemma free_fd_spec:
  "arg \<le> free_fd filp arg \<and> (\<forall>k. arg \<le> k \<and> k < free_fd filp arg \<longrightarrow> filp ! k \<noteq> None) \<and>
   (free_fd filp arg < 256 \<longrightarrow> filp ! free_fd filp arg = None) \<and> (arg \<le> 256 \<longrightarrow> free_fd filp arg \<le> 256)"
proof (induction filp arg rule: free_fd.induct)
  case (1 filp arg)
  show ?case
  proof (cases "arg < 256 \<and> filp ! arg \<noteq> None")
    case True
    then have e: "free_fd filp arg = free_fd filp (arg + 1)" by (simp add: free_fd.simps[of filp arg])
    have IH: "arg + 1 \<le> free_fd filp (arg + 1) \<and> (\<forall>k. arg + 1 \<le> k \<and> k < free_fd filp (arg + 1) \<longrightarrow> filp ! k \<noteq> None) \<and>
      (free_fd filp (arg + 1) < 256 \<longrightarrow> filp ! free_fd filp (arg + 1) = None) \<and> (arg + 1 \<le> 256 \<longrightarrow> free_fd filp (arg + 1) \<le> 256)"
      by (rule 1) (use True in simp_all)
    have "filp ! k \<noteq> None" if "arg \<le> k" "k < free_fd filp (arg + 1)" for k
      using IH True that by (cases "k = arg") auto
    then show ?thesis using IH True unfolding e by auto
  next
    case False
    then have "free_fd filp arg = arg" by (subst free_fd.simps) (simp only: NR_OPEN_256 if_False)
    then show ?thesis using False by auto
  qed
qed

lemma cloexec_free:
  "refs_inv e s \<Longrightarrow> i < length (vf_proc s) \<Longrightarrow> fd < 256 \<Longrightarrow> fp_filp (vf_proc s ! i) ! fd = None \<Longrightarrow> \<not> fp_cloexec (vf_proc s ! i) ! fd"
  using proc_okD[of e s i] by (auto simp: proc_ok_def)

text \<open>A free descriptor takes a reference that the call holds.\<close>

lemma inv_install:
  assumes "refs_inv e s" "i < length (vf_proc s)" "fd < 256" "fp_filp (vf_proc s ! i) ! fd = None" "a \<in> set (vf_ring s)"
  shows "refs_inv (e(a := e a - 1)) (set_fd i fd (Some a) s)"
proof -
  have "(\<lambda>b. e b + of_bool (fp_filp (vf_proc s ! i) ! fd = Some b) - of_bool (Some a = Some b)) = e(a := e a - 1)"
    using assms(4) by auto
  then show ?thesis using inv_set_fd[OF assms(1-3), of "Some a"] assms(5) by simp
qed

lemma inv_uninstall:
  assumes "refs_inv e s" "i < length (vf_proc s)" "fd < 256" "fp_filp (vf_proc s ! i) ! fd = Some a" "\<not> fp_cloexec (vf_proc s ! i) ! fd"
  shows "refs_inv (e(a := e a + 1)) (set_fd i fd None s)"
proof -
  have "(\<lambda>b. e b + of_bool (fp_filp (vf_proc s ! i) ! fd = Some b) - of_bool (None = Some b)) = e(a := e a + 1)"
    using assms(4) by auto
  then show ?thesis using inv_set_fd[OF assms(1-3), of None] assms(5) by simp
qed

lemma inc_count_sel [simp]:
  "vf_ring (inc_count a s) = vf_ring s" "vf_lk (inc_count a s) = vf_lk s" "vf_proc (inc_count a s) = vf_proc s" "vf_pipe (inc_count a s) = vf_pipe s"
  "vf_ring (dec_count a s) = vf_ring s" "vf_lk (dec_count a s) = vf_lk s" "vf_proc (dec_count a s) = vf_proc s" "vf_pipe (dec_count a s) = vf_pipe s"
  by (simp_all add: inc_count_def dec_count_def)

lemma pipes_inc: "pipes_inv s \<Longrightarrow> f_count (vf_file s a) \<noteq> 0 \<Longrightarrow> f_count (vf_file (inc_count a s) a) \<noteq> 0 \<Longrightarrow> pipes_inv (inc_count a s)"
  unfolding inc_count_def by (rule pipes_upd_file) (simp_all add: same_end_def)

text \<open>A file that some descriptor refers to is counted.\<close>

lemma referenced:
  assumes "refs_inv (\<lambda>_. 0) s" "i < length (vf_proc s)" "fd_file i fd s = Some a"
  shows "f_count (vf_file s a) \<noteq> 0"
proof -
  have l: "fd < length (fp_filp (vf_proc s ! i))" using fd_fileD(1)[OF assms(3)] cloexec_length(2)[OF assms(1,2)] by simp
  have "\<exists>x\<in>set (fp_filp (vf_proc s ! i)). x = Some a" using fd_fileD(2)[OF assms(3)] l nth_mem by metis
  then have "0 < cnt (\<lambda>x. x = Some a) (fp_filp (vf_proc s ! i))" by (auto simp: cnt_def filter_empty_conv)
  then have "0 < refs a s" unfolding refs_def
    using member_le_sum_list[of "cnt (\<lambda>x. x = Some a) (fp_filp (vf_proc s ! i))" "map (\<lambda>p. cnt (\<lambda>x. x = Some a) (fp_filp p)) (vf_proc s)"]
      assms(2) by (auto intro: less_le_trans)
  then show ?thesis using assms(1) fd_file_ring[OF assms] by (auto simp: refs_inv_def)
qed

lemma dupfd_inv:
  assumes "vfs_inv s" "i < length (vf_proc s)"
  shows "vfs_inv (snd (dupfd i fd arg s)) \<and> length (vf_proc (snd (dupfd i fd arg s))) = length (vf_proc s)"
proof (cases "fd_file i fd s = None \<or> 256 \<le> arg \<or> 256 \<le> free_fd (fp_filp (vf_proc s ! i)) arg")
  case True
  then show ?thesis using assms by (auto simp: dupfd_def Let_def split: option.split)
next
  case False
  let ?n = "free_fd (fp_filp (vf_proc s ! i)) arg"
  obtain a where a: "fd_file i fd s = Some a" using False by auto
  have r0: "refs_inv (\<lambda>_. 0) s" using assms(1) by (simp add: vfs_inv_def)
  let ?s = "set_cloexec i ?n False s"
  have r1: "refs_inv (\<lambda>_. 0) ?s" using inv_set_cloexec[OF r0 assms(2), of ?n False] False by simp
  have m: "a \<in> set (vf_ring s)" by (rule fd_file_ring[OF r0 assms(2) a])
  have r2: "refs_inv ((\<lambda>_. 0)(a := - 1)) (set_fd i ?n (Some a) ?s)"
    using inv_install[OF r1, of i ?n a] m assms(2) False free_fd_spec[of arg "fp_filp (vf_proc s ! i)"] by simp
  have r3: "refs_inv (\<lambda>_. 0) (inc_count a (set_fd i ?n (Some a) ?s))" "f_count (vf_file (inc_count a (set_fd i ?n (Some a) ?s)) a) \<noteq> 0"
    using inv_inc[OF r2, of a] m by (simp_all add: fun_upd_idem)
  moreover have "pipes_inv (inc_count a (set_fd i ?n (Some a) ?s))"
    by (rule pipes_inc) (use assms(1) r3(2) referenced[OF r0 assms(2) a] in \<open>simp_all add: vfs_inv_def\<close>)
  ultimately show ?thesis using False a assms by (simp add: dupfd_def Let_def vfs_inv_def)
qed

lemma length_closed_procs [simp]: "length (closed_procs i fd s) = length (vf_proc s)"
  by (simp add: closed_procs_def)

lemma sys_dup2_inv:
  assumes "vfs_inv s" "i < length (vf_proc s)"
  shows "\<exists>r s'. sys_dup2 i oldfd newfd s = Some (r, s') \<and> vfs_inv s' \<and> length (vf_proc s') = length (vf_proc s)"
proof -
  obtain r s1 where c: "sys_close i newfd s = Some (r, s1)" "vfs_inv s1" "vf_proc s1 = closed_procs i newfd s"
    using sys_close_inv[OF assms] by blast
  have "vfs_inv (snd (dupfd i oldfd newfd s1))" "length (vf_proc (snd (dupfd i oldfd newfd s1))) = length (vf_proc s)"
    using dupfd_inv[OF c(2), of i oldfd newfd] assms(2) c(3) by simp_all
  then show ?thesis using assms c(1)
    by (cases "dupfd i oldfd newfd s1") (auto simp: sys_dup2_def split: option.split)
qed

section \<open>Fork, exec and exit\<close>

lemma close_all_inv:
  assumes "vfs_inv s" "i < length (vf_proc s)"
  shows "\<exists>s'. close_all which i fds s = Some s' \<and> vfs_inv s' \<and> length (vf_proc s') = length (vf_proc s)"
  using assms
proof (induction fds arbitrary: s)
  case (Cons fd fds)
  obtain r s1 where c: "sys_close i fd s = Some (r, s1)" "vfs_inv s1" "vf_proc s1 = closed_procs i fd s"
    using sys_close_inv[OF Cons.prems] by blast
  have "\<exists>s'. close_all which i fds s1 = Some s' \<and> vfs_inv s' \<and> length (vf_proc s') = length (vf_proc s)"
    using Cons.IH[OF c(2)] Cons.prems(2) c(3) by simp
  then show ?case using Cons.IH[OF Cons.prems] c(1) by simp
qed simp

lemma exec_files_inv:
  assumes "vfs_inv s" "i < length (vf_proc s)"
  shows "\<exists>s'. exec_files i s = Some s' \<and> vfs_inv s' \<and> length (vf_proc s') = length (vf_proc s)"
proof -
  obtain s1 where c: "close_all (\<lambda>fd s. fp_cloexec (vf_proc s ! i) ! fd) i [0..<unat NR_OPEN] s = Some s1" "vfs_inv s1"
    "length (vf_proc s1) = length (vf_proc s)" using close_all_inv[OF assms] by blast
  let ?g = "\<lambda>p. p\<lparr>fp_cloexec := replicate (unat NR_OPEN) False\<rparr>"
  have r: "refs_inv (\<lambda>_. 0) s1" "i < length (vf_proc s1)" using c(2,3) assms(2) by (simp_all add: vfs_inv_def)
  have "refs_inv (\<lambda>_. 0) (upd_proc i ?g s1)"
    by (rule inv_upd_proc[OF r]) (use proc_okD[OF r] refs_update[OF r(2), of _ ?g] in \<open>simp_all add: proc_ok_def\<close>)
  then show ?thesis using c by (simp add: exec_files_def vfs_inv_def)
qed

lemma exit_files_inv:
  assumes "vfs_inv s" "i < length (vf_proc s)"
  shows "\<exists>s'. exit_files i s = Some s' \<and> vfs_inv s' \<and> length (vf_proc s') = length (vf_proc s)"
  unfolding exit_files_def by (rule close_all_inv[OF assms])

definition count_files :: "nat option list \<Rightarrow> vfs \<Rightarrow> vfs" where
  "count_files = fold (\<lambda>x. case x of None \<Rightarrow> (\<lambda>s. s) | Some a \<Rightarrow> inc_count a)"

lemma count_files_inv:
  assumes "refs_inv (\<lambda>b. - int (cnt (\<lambda>x. x = Some b) xs)) s" "pipes_inv s"
    "\<forall>a. Some a \<in> set xs \<longrightarrow> a \<in> set (vf_ring s) \<and> f_count (vf_file s a) \<noteq> 0"
  shows "refs_inv (\<lambda>_. 0) (count_files xs s) \<and> pipes_inv (count_files xs s) \<and> vf_proc (count_files xs s) = vf_proc s \<and>
    vf_lk (count_files xs s) = vf_lk s"
  using assms
proof (induction xs arbitrary: s)
  case (Cons x xs)
  show ?case
  proof (cases x)
    case None
    then show ?thesis using Cons by (simp add: count_files_def cnt_def)
  next
    case (Some a)
    let ?e = "\<lambda>b. - int (cnt (\<lambda>x. x = Some b) (x # xs))"
    have a: "a \<in> set (vf_ring s)" "f_count (vf_file s a) \<noteq> 0" using Cons.prems(3) Some by auto
    have e: "?e(a := ?e a + 1) = (\<lambda>b. - int (cnt (\<lambda>x. x = Some b) xs))" using Some by (auto simp: cnt_def)
    have i: "refs_inv (\<lambda>b. - int (cnt (\<lambda>x. x = Some b) xs)) (inc_count a s)" "f_count (vf_file (inc_count a s) a) \<noteq> 0"
      using inv_inc[OF Cons.prems(1) a(1)] unfolding e by simp_all
    have q: "pipes_inv (inc_count a s)" by (rule pipes_inc[OF Cons.prems(2) a(2) i(2)])
    have "f_count (vf_file (inc_count a s) b) \<noteq> 0" if "Some b \<in> set xs" for b
      using Cons.prems(3) that i(2) by (cases "b = a") (simp_all add: inc_count_def)
    then show ?thesis using Cons.IH[OF i(1) q] Cons.prems(3) Some by (simp add: count_files_def)
  qed
qed (simp add: count_files_def cnt_def)

lemma fork_files_inv:
  assumes "vfs_inv s" "i < length (vf_proc s)" "j < length (vf_proc s)" "\<forall>fd<256. fp_filp (vf_proc s ! j) ! fd = None"
  shows "vfs_inv (fork_files i j s)" "length (vf_proc (fork_files i j s)) = length (vf_proc s)"
proof -
  let ?xs = "fp_filp (vf_proc s ! i)" and ?s = "upd_proc j (\<lambda>_. vf_proc s ! i) s"
  have r: "refs_inv (\<lambda>_. 0) s" using assms(1) by (simp add: vfs_inv_def)
  have "length (fp_filp (vf_proc s ! j)) = 256" by (rule cloexec_length(2)[OF r assms(3)])
  then have z: "cnt (\<lambda>x. x = Some b) (fp_filp (vf_proc s ! j)) = 0" for b
    using assms(4) by (auto simp: cnt_def filter_empty_conv in_set_conv_nth)
  have out: "Some b \<notin> set ?xs" if "b \<notin> set (vf_ring s)" for b using proc_okD[OF r assms(2)] that by (auto simp: proc_ok_def)
  have "refs_inv (\<lambda>b. - int (cnt (\<lambda>x. x = Some b) ?xs)) ?s"
  proof (rule inv_upd_proc[OF r assms(3) proc_okD[OF r assms(2)]])
    show "int (refs b ?s) + - int (cnt (\<lambda>x. x = Some b) ?xs) = int (refs b s) + 0" for b
      using refs_update[OF assms(3), of b "\<lambda>_. vf_proc s ! i"] z[of b] by simp
    show "b \<notin> set (vf_ring s) \<Longrightarrow> - int (cnt (\<lambda>x. x = Some b) ?xs) = 0" for b
      using out[of b] by (auto simp: cnt_def filter_empty_conv)
  qed
  moreover have "a \<in> set (vf_ring s) \<and> f_count (vf_file s a) \<noteq> 0" if m: "Some a \<in> set ?xs" for a
  proof -
    obtain fd where "fd < 256" "?xs ! fd = Some a" using m cloexec_length(2)[OF r assms(2)] by (auto simp: in_set_conv_nth)
    then have "fd_file i fd s = Some a" by (simp add: fd_file_def)
    then show ?thesis using fd_file_ring[OF r assms(2)] referenced[OF r assms(2)] by blast
  qed
  ultimately have "refs_inv (\<lambda>_. 0) (count_files ?xs ?s) \<and> pipes_inv (count_files ?xs ?s) \<and> vf_proc (count_files ?xs ?s) = vf_proc ?s \<and>
    vf_lk (count_files ?xs ?s) = vf_lk ?s" by (intro count_files_inv) (use assms(1) in \<open>simp_all add: vfs_inv_def\<close>)
  then show "vfs_inv (fork_files i j s)" "length (vf_proc (fork_files i j s)) = length (vf_proc s)"
    using assms(1) by (simp_all add: fork_files_def count_files_def vfs_inv_def)
qed

section \<open>Opening\<close>

definition plain :: "vfs \<Rightarrow> file_struct \<Rightarrow> bool" where
  "plain s f \<longleftrightarrow> \<not> pipeish f \<and> (\<forall>n. f_inode f = Some n \<longrightarrow> f_count f = 0 \<or> \<not> pipe_used s n)"

lemma pipes_plain:
  assumes "pipes_inv s" "\<not> pipeish (vf_file s a)" "plain s (g (vf_file s a))"
  shows "pipes_inv (upd_file a g s)"
proof -
  have e: "ends ops n (upd_file a g s) = ends ops n s" for ops n
    using assms(2,3) is_end_pipeish by (auto simp: ends_def plain_def)
  have u: "pipe_used (upd_file a g s) n = pipe_used s n" for n by (simp add: pipe_used_def)
  have "file_ok (upd_file a g s) (vf_file (upd_file a g s) b)" if "b \<in> set (vf_ring s)" for b
  proof (cases "b = a")
    case True
    then show ?thesis using assms(3) by (auto simp: file_ok_def plain_def u)
  next
    case False
    have "file_ok s (vf_file s b)" using assms(1) that by (simp add: pipes_inv_def)
    then show ?thesis using False by (simp add: file_ok_def u)
  qed
  then show ?thesis using assms(1) by (simp add: pipes_inv_def node_ok_def e)
qed

text \<open>
  The names that are opened lead to no pipe: neither to a named pipe, whose opening is the subject of
  theory \<open>Fifo\<close>, nor through \<^verbatim>\<open>/proc/<pid>/fd\<close> to a pipe of \<^verbatim>\<open>sys_pipe\<close>. The latter would break the counts
  of the ends: such an open gives the file the operations \<^const>\<open>rdwr_pipe_fops\<close>, which have no open routine,
  and its release takes away a reader and a writer that were never counted.
\<close>

lemma proc_open_underflow:
  assumes "namei (open_flag flags) = Inr (n, Some (Fops_pipe rdwr_pipe_fops))" "opn (Fops_pipe rdwr_pipe_fops) = None"
    "vf_pipe s n = Some nd" "s1 = snd (open_named namei opn flags i fd a s)"
  shows "vf_pipe s1 n = Some nd \<and>
    map_option (\<lambda>nd. (pi_readers (pn_pipe nd), pi_writers (pn_pipe nd))) (vf_pipe (release_file (vf_file s1 a) s1) n) =
      Some (pi_readers (pn_pipe nd) - 1, pi_writers (pn_pipe nd) - 1)"
  using assms by (simp add: open_named_def release_file_def upd_pipe_def upd_file_def open_done_def pipe_rdwr_release_def Let_def)

definition namei_ok :: "vfs \<Rightarrow> (u32 \<Rightarrow> (nat \<times> fops option) res) \<Rightarrow> (fops \<Rightarrow> fops option res option) \<Rightarrow> bool" where
  "namei_ok s namei opn \<longleftrightarrow>
     (\<forall>flag n ops. namei flag = Inr (n, ops) \<longrightarrow> \<not> pipe_used s n \<and> (\<forall>o'. ops \<noteq> Some (Fops_pipe o'))) \<and>
     (\<forall>d ops. opn d = Some (Inr ops) \<longrightarrow> (\<forall>o'. ops \<noteq> Some (Fops_pipe o')))"

text \<open>A file just found, and put in a free descriptor.\<close>

lemma filp_specD:
  assumes "filp_spec e s (Some a) s'"
  shows "same_rest s s'" "pipes_inv s'" "a \<in> set (vf_ring s')" "refs_inv (e(a := e a + 1)) s'" "vf_file s' a = null_file\<lparr>f_count := 1\<rparr>"
  using assms by (simp_all add: filp_spec_def)

lemma give_back:
  assumes "refs_inv (\<lambda>_. 0) s" "pipes_inv s" "state_inv (vf_lk s)" "i < length (vf_proc s)" "fd < 256" "fp_filp (vf_proc s ! i) ! fd = Some a"
    "\<not> fp_cloexec (vf_proc s ! i) ! fd" "a \<in> set (vf_ring s)" "f_count (vf_file s a) = 1" "\<not> pipeish (vf_file s a)"
  shows "vfs_inv (dec_count a (set_fd i fd None s))"
proof -
  have "refs_inv ((\<lambda>_. 0)(a := 0 + 1)) (set_fd i fd None s)" by (rule inv_uninstall[OF assms(1,4-7)])
  from inv_dec[OF this, of a] have "refs_inv (\<lambda>_. 0) (dec_count a (set_fd i fd None s))"
    using assms(8,9) by (simp add: fun_upd_idem)
  moreover have "pipes_inv (dec_count a (set_fd i fd None s))" unfolding dec_count_def
    by (rule pipes_plain) (use assms in \<open>simp_all add: plain_def pipeish_def\<close>)
  ultimately show ?thesis using assms(3) by (simp add: vfs_inv_def)
qed

lemma dec_set_fd: "set_fd i fd x (dec_count a s) = dec_count a (set_fd i fd x s)"
  by (simp add: set_fd_def dec_count_def upd_file_def upd_proc_def)

lemma upd_file_comp: "upd_file a g (upd_file a h s) = upd_file a (\<lambda>f. g (h f)) s" "upd_file a (\<lambda>f. f) s = s"
  by (simp_all add: upd_file_def)

text \<open>A file in a descriptor that has no inode yet, as the open calls make it.\<close>

definition newly :: "nat \<Rightarrow> nat \<Rightarrow> nat \<Rightarrow> vfs \<Rightarrow> bool" where
  "newly i fd a s \<longleftrightarrow> vfs_inv s \<and> i < length (vf_proc s) \<and> fd < 256 \<and> fp_filp (vf_proc s ! i) ! fd = Some a \<and>
     \<not> fp_cloexec (vf_proc s ! i) ! fd \<and> a \<in> set (vf_ring s) \<and> f_count (vf_file s a) = 1 \<and> f_op (vf_file s a) = None \<and>
     f_inode (vf_file s a) = None"

lemma newly_keep:
  assumes "newly i fd a s" "\<And>f. f_count (h f) = f_count f" "plain s (h (vf_file s a))"
  shows "vfs_inv (upd_file a h s)"
proof -
  have "pipes_inv (upd_file a h s)"
    by (rule pipes_plain) (use assms(1,3) in \<open>simp_all add: newly_def vfs_inv_def pipeish_def\<close>)
  then show ?thesis using assms(1) inv_same_count[OF _ assms(2)] by (simp add: newly_def vfs_inv_def)
qed

lemma newly_drop:
  assumes "newly i fd a s" "\<And>f. f_count (h f) = f_count f" "plain s (h (vf_file s a))"
  shows "vfs_inv (dec_count a (set_fd i fd None (upd_file a h s)))"
  using newly_keep[OF assms] by (intro give_back) (use assms in \<open>simp_all add: newly_def vfs_inv_def plain_def\<close>)

lemma newly_install:
  assumes "filp_spec (\<lambda>_. 0) s0 (Some a) s" "vfs_inv s0" "i < length (vf_proc s0)" "fd < 256" "fp_filp (vf_proc s0 ! i) ! fd = None"
  shows "newly i fd a (set_fd i fd (Some a) s)"
proof -
  note p = filp_specD[OF assms(1)]
  have pr: "vf_proc s = vf_proc s0" "vf_lk s = vf_lk s0" using p(1) by (simp_all add: same_rest_def)
  have r0: "refs_inv (\<lambda>_. 0) s0" using assms(2) by (simp add: vfs_inv_def)
  have "refs_inv (\<lambda>_. 0) (set_fd i fd (Some a) s)"
    using inv_install[OF p(4) _ assms(4) _ p(3), of i] assms(3,5) by (simp add: pr fun_upd_idem)
  then show ?thesis using p(2,3,5) assms(2-5) cloexec_length(2)[OF r0 assms(3)] cloexec_free[OF r0 assms(3-5)]
    by (simp add: newly_def vfs_inv_def pr null_file_def)
qed

lemma newly_same: 
  "newly i fd a s \<Longrightarrow> (\<And>f. f_count (h f) = f_count f \<and> f_op (h f) = f_op f \<and> f_inode (h f) = f_inode f) \<Longrightarrow> newly i fd a (upd_file a h s)"
  using newly_keep[of i fd a s h] by (simp add: newly_def plain_def pipeish_def)

lemma open_named_inv:
  assumes n: "newly i fd a s" and ok: "namei_ok s namei opn"
  shows "vfs_inv (snd (open_named namei opn flags i fd a s)) \<and> length (vf_proc (snd (open_named namei opn flags i fd a s))) = length (vf_proc s)"
proof (cases "namei (open_flag flags)")
  case (Inl e)
  then show ?thesis using newly_drop[OF n, of "\<lambda>f. f"] n by (simp add: open_named_def upd_file_comp plain_def pipeish_def newly_def)
next
  case (Inr y)
  obtain m ops where y: "y = (m, ops)" by (cases y)
  let ?s = "upd_file a (\<lambda>f. f\<lparr>f_inode := Some m, f_pos := 0, f_reada := 0, f_op := ops\<rparr>) s"
  have m: "\<not> pipe_used s m" "\<And>q. ops \<noteq> Some (Fops_pipe q)" using ok Inr y by (auto simp: namei_ok_def)
  have p: "iput (Some m) ?s = ?s" by (rule iput_unused) (use m(1) in \<open>simp add: pipe_used_def\<close>)
  have d: "vfs_inv (dec_count a (set_fd i fd None ?s))"
    by (rule newly_drop[OF n]) (use m in \<open>simp_all add: plain_def pipeish_def\<close>)
  have k: "vfs_inv (upd_file a (open_done ops') ?s)" if "\<And>q. ops' \<noteq> Some (Fops_pipe q)" for ops'
    unfolding upd_file_comp(1) by (rule newly_keep[OF n]) (use m that in \<open>simp_all add: plain_def pipeish_def open_done_def\<close>)
  show ?thesis
  proof (cases "Option.bind ops opn")
    case None
    then show ?thesis using Inr y k[of ops] m(2) by (simp add: open_named_def)
  next
    case (Some z)
    have "\<And>ops' q. z = Inr ops' \<Longrightarrow> ops' \<noteq> Some (Fops_pipe q)" using ok Some by (cases ops) (auto simp: namei_ok_def)
    then show ?thesis using Inr y Some k d by (cases z) (simp_all add: open_named_def p dec_set_fd)
  qed
qed

lemma do_open_inv:
  assumes "vfs_inv s" "i < length (vf_proc s)" "namei_ok s namei opn" "do_open mem namei opn flags i s = Some (r, s')"
  shows "vfs_inv s' \<and> length (vf_proc s') = length (vf_proc s)"
proof (cases "free_fd (fp_filp (vf_proc s ! i)) 0 < 256")
  case False
  then show ?thesis using assms by (auto simp: do_open_def Let_def)
next
  case fd: True
  let ?fd = "free_fd (fp_filp (vf_proc s ! i)) 0"
  let ?s0 = "set_cloexec i ?fd False s"
  have r0: "refs_inv (\<lambda>_. 0) ?s0" using inv_set_cloexec[of "\<lambda>_. 0" s i ?fd False] assms(1,2) fd by (simp add: vfs_inv_def)
  then have v0: "vfs_inv ?s0" using assms(1) by (simp add: vfs_inv_def)
  obtain x s1 where g: "get_empty_filp mem ?s0 = Some (x, s1)"
    using assms(4) fd by (cases "get_empty_filp mem ?s0") (auto simp: do_open_def Let_def)
  have sp: "filp_spec (\<lambda>_. 0) ?s0 x s1" by (rule get_empty_filp_spec[OF g r0]) (use v0 in \<open>simp add: vfs_inv_def\<close>)
  show ?thesis
  proof (cases x)
    case None
    then have "s' = s1" using assms(4) fd g by (simp add: do_open_def Let_def)
    then show ?thesis using sp None assms(1) by (simp add: filp_spec_def vfs_inv_def same_rest_def)
  next
    case (Some a)
    let ?s2 = "upd_file a (\<lambda>f. f\<lparr>f_flags := ucast flags, f_mode := ucast ((flags + 1) AND O_ACCMODE)\<rparr>) (set_fd i ?fd (Some a) s1)"
    have n: "newly i ?fd a ?s2"
      using newly_install[OF sp[unfolded Some] v0, of i ?fd] assms(2) fd free_fd_spec[of 0 "fp_filp (vf_proc s ! i)"]
      by (intro newly_same) simp_all
    have u: "pipe_used ?s2 m = pipe_used s m" "length (vf_proc ?s2) = length (vf_proc s)" for m
      using filp_specD(1)[OF sp[unfolded Some]] by (simp_all add: same_rest_def pipe_used_def)
    have "namei_ok ?s2 namei opn" using assms(3) by (simp add: namei_ok_def u(1))
    moreover have "open_named namei opn flags i ?fd a ?s2 = (r, s')" using assms(4) fd g Some by (simp add: do_open_def Let_def)
    ultimately show ?thesis using open_named_inv[OF n, of namei opn flags] u(2) by simp
  qed
qed

section \<open>Making a pipe\<close>

text \<open>What \<^verbatim>\<open>get_empty_inode\<close> promises: an inode that nobody uses.\<close>

definition inode_free :: "vfs \<Rightarrow> nat option \<Rightarrow> bool" where
  "inode_free s ino \<longleftrightarrow> (\<forall>n. ino = Some n \<longrightarrow> \<not> pipe_used s n \<and>
     (\<forall>a\<in>set (vf_ring s). f_count (vf_file s a) \<noteq> 0 \<longrightarrow> f_inode (vf_file s a) \<noteq> Some n))"

lemma state_inv_mode [simp]:
  "state_inv (lk\<lparr>lk_inode := (lk_inode lk)(n := (lk_inode lk n)\<lparr>i_mode := m\<rparr>)\<rparr>) = state_inv lk"
  by (auto simp: state_inv_def)

lemma file_ok_end: "is_end ops n f \<Longrightarrow> ops \<in> {read_pipe_fops, write_pipe_fops} \<Longrightarrow> vf_pipe s n \<noteq> None \<Longrightarrow> file_ok s f"
  unfolding file_ok_def using is_end_pipeish by blast

lemma new_pipe_ok:
  assumes "pipes_inv s" "inode_free s (Some n)" "f0 \<in> set (vf_ring s)" "f1 \<in> set (vf_ring s)" "f0 \<noteq> f1" "length b = 4096"
    "f_count (vf_file s f0) \<noteq> 0" "f_count (vf_file s f1) \<noteq> 0" "\<not> pipeish (vf_file s f0)" "\<not> pipeish (vf_file s f1)"
    "get_pipe_inode (Some n) (Some b) s = (Some n, s')"
  shows "pipes_inv (pipe_ends n f0 f1 s')"
proof -
  let ?s = "pipe_ends n f0 f1 s'"
  have s': "vf_ring ?s = vf_ring s" "vf_file s' = vf_file s" "vf_pipe ?s m = (if m = n then vf_pipe s' n else vf_pipe s m)" for m
    using assms(11) by (auto simp: get_pipe_inode_def pipe_ends_def)
  have f: "vf_file ?s f0 = (vf_file s f0)\<lparr>f_inode := Some n, f_pos := 0, f_flags := 0, f_op := Some (Fops_pipe read_pipe_fops), f_mode := 1\<rparr>"
    "vf_file ?s f1 = (vf_file s f1)\<lparr>f_inode := Some n, f_pos := 0, f_flags := 1, f_op := Some (Fops_pipe write_pipe_fops), f_mode := 2\<rparr>"
    "\<And>a. a \<noteq> f0 \<Longrightarrow> a \<noteq> f1 \<Longrightarrow> vf_file ?s a = vf_file s a"
    using assms(5) s'(2) by (simp_all add: pipe_ends_def)
  have old: "\<not> is_end ops n (vf_file s a)" if "a \<in> set (vf_ring s)" for a ops
    using assms(2) that by (auto simp: inode_free_def is_end_def)
  have i: "is_end ops m (vf_file ?s a) = (if a = f0 then ops = read_pipe_fops \<and> m = n else if a = f1 then ops = write_pipe_fops \<and> m = n
      else is_end ops m (vf_file s a))" for ops m a
    using f(3)[of a] assms(7,8) by (auto simp: is_end_def f(1,2))
  have e: "ends read_pipe_fops n ?s = {f0}" "ends write_pipe_fops n ?s = {f1}"
    using assms(3-5) old by (auto simp: ends_def s'(1) i)
  have q: "\<not> is_end ops m (vf_file s f0)" "\<not> is_end ops m (vf_file s f1)" for ops m using assms(9,10) is_end_pipeish by blast+
  have e': "ends ops m ?s = ends ops m s" if "m \<noteq> n" for m ops
    using that q by (auto simp: ends_def s'(1) i split: if_splits)
  have "node_ok ?s m nd" if "vf_pipe ?s m = Some nd" for m nd
  proof (cases "m = n")
    case True
    then show ?thesis using that assms(6,11) e by (auto simp: s'(3) get_pipe_inode_def node_ok_def pipe_ok_def)
  next
    case False
    then show ?thesis using that assms(1) e'[OF False] by (simp add: s'(3) pipes_inv_def node_ok_def)
  qed
  moreover have "file_ok ?s (vf_file ?s a)" if a: "a \<in> set (vf_ring s)" for a
  proof (cases "a = f0 \<or> a = f1")
    case True
    have n: "vf_pipe ?s n \<noteq> None" using assms(11) by (auto simp: s'(3) get_pipe_inode_def)
    show ?thesis by (rule file_ok_end[OF _ _ n, of "if a = f0 then read_pipe_fops else write_pipe_fops"]) (use True i in auto)
  next
    case False
    have k: "file_ok s (vf_file s a)" using assms(1) a by (simp add: pipes_inv_def)
    have u: "f_inode (vf_file s a) = Some m \<Longrightarrow> f_count (vf_file s a) \<noteq> 0 \<Longrightarrow> pipe_used ?s m = pipe_used s m" for m
      using assms(2) a by (auto simp: inode_free_def pipe_used_def s'(3))
    have "vf_pipe s m \<noteq> None \<Longrightarrow> vf_pipe ?s m \<noteq> None" for m using assms(11) by (auto simp: s'(3) get_pipe_inode_def)
    then show ?thesis using k u f(3)[of a] False unfolding file_ok_def by (metis)
  qed
  ultimately show ?thesis by (simp add: pipes_inv_def s'(1))
qed

lemma drop_new:
  assumes "refs_inv e s" "pipes_inv s" "a \<in> set (vf_ring s)" "vf_file s a = null_file\<lparr>f_count := 1\<rparr>"
  shows "refs_inv (e(a := e a - 1)) (dec_count a s)" "pipes_inv (dec_count a s)"
proof -
  show "refs_inv (e(a := e a - 1)) (dec_count a s)" by (rule inv_dec[OF assms(1,3)]) (simp add: assms(4))
  show "pipes_inv (dec_count a s)" unfolding dec_count_def
    by (rule pipes_plain[OF assms(2)]) (simp_all add: assms(4) null_file_def plain_def pipeish_def)
qed

text \<open>Two new files that only the call holds.\<close>

definition two_new :: "nat \<Rightarrow> nat \<Rightarrow> vfs \<Rightarrow> bool" where
  "two_new f0 f1 s \<longleftrightarrow> refs_inv ((\<lambda>_. 0)(f0 := 1, f1 := 1)) s \<and> pipes_inv s \<and> state_inv (vf_lk s) \<and> f0 \<noteq> f1 \<and>
     f0 \<in> set (vf_ring s) \<and> f1 \<in> set (vf_ring s) \<and> vf_file s f0 = null_file\<lparr>f_count := 1\<rparr> \<and> vf_file s f1 = null_file\<lparr>f_count := 1\<rparr>"

lemma two_new_drop: "two_new f0 f1 s \<Longrightarrow> vfs_inv (dec_count f1 (dec_count f0 s))"
proof -
  assume n: "two_new f0 f1 s"
  then have 1: "refs_inv ((\<lambda>_. 0)(f1 := 1)) (dec_count f0 s)" "pipes_inv (dec_count f0 s)"
    using drop_new[of "(\<lambda>_. 0)(f0 := 1, f1 := 1)" s f0] by (simp_all add: two_new_def fun_upd_twist fun_upd_idem)
  have "vf_file (dec_count f0 s) f1 = null_file\<lparr>f_count := 1\<rparr>" "f1 \<in> set (vf_ring (dec_count f0 s))"
    using n by (auto simp: two_new_def dec_count_def)
  from drop_new[OF 1 this(2,1)] show ?thesis using n by (simp add: vfs_inv_def two_new_def fun_upd_idem)
qed

lemma set_fd_undo:
  "i < length (vf_proc s) \<Longrightarrow> fp_filp (vf_proc s ! i) ! fd = None \<Longrightarrow> set_fd i fd None (set_fd i fd x s) = s"
  by (simp add: set_fd_def upd_proc_def) (metis list_update_id fproc.surjective fproc.update_convs(1) vfs.surjective vfs.update_convs(5))

lemma set_fd_swap:
  "i < length (vf_proc s) \<Longrightarrow> fd \<noteq> fd' \<Longrightarrow> set_fd i fd x (set_fd i fd' y s) = set_fd i fd' y (set_fd i fd x s)"
  by (simp add: set_fd_def upd_proc_def list_update_swap)

lemma pipe_install_inv:
  assumes n: "two_new f0 f1 s" and i: "i < length (vf_proc s)" and ino: "inode_free s ino" and pg: "\<And>b. page = Some b \<Longrightarrow> length b = 4096"
  shows "vfs_inv (snd (pipe_install ino page i f0 f1 s)) \<and> length (vf_proc (snd (pipe_install ino page i f0 f1 s))) = length (vf_proc s)"
proof -
  let ?fd0 = "free_fd (fp_filp (vf_proc s ! i)) 0"
  let ?s1 = "set_fd i ?fd0 (Some f0) s"
  let ?fd1 = "free_fd (fp_filp (vf_proc ?s1 ! i)) (?fd0 + 1)"
  let ?s2 = "set_fd i ?fd1 (Some f1) ?s1"
  note d = two_new_drop[OF n]
  show ?thesis
  proof (cases "?fd0 < 256 \<and> ?fd1 < 256")
    case False
    have u: "?fd0 < 256 \<Longrightarrow> set_fd i ?fd0 None ?s1 = s"
      using set_fd_undo[OF i] free_fd_spec[of 0 "fp_filp (vf_proc s ! i)"] by simp
    show ?thesis using False d u by (cases "?fd0 < 256") (simp_all add: pipe_install_def Let_def)
  next
    case True
    have lt: "?fd0 < ?fd1" using free_fd_spec[of "?fd0 + 1" "fp_filp (vf_proc ?s1 ! i)"] by simp
    have z0: "fp_filp (vf_proc s ! i) ! ?fd0 = None" using True free_fd_spec[of 0 "fp_filp (vf_proc s ! i)"] by simp
    have z1: "fp_filp (vf_proc ?s1 ! i) ! ?fd1 = None" using True free_fd_spec[of "?fd0 + 1" "fp_filp (vf_proc ?s1 ! i)"] by simp
    have r: "refs_inv ((\<lambda>_. 0)(f0 := 1, f1 := 1)) s" "f0 \<in> set (vf_ring s)" "f1 \<in> set (vf_ring s)" "f0 \<noteq> f1" using n by (simp_all add: two_new_def)
    have "((\<lambda>_. 0 :: int)(f0 := 1, f1 := 1))(f0 := ((\<lambda>_. 0)(f0 := 1, f1 := 1)) f0 - 1) = (\<lambda>_. 0)(f1 := 1)" using r(4) by auto
    then have r1: "refs_inv ((\<lambda>_. 0)(f1 := 1)) ?s1" using inv_install[OF r(1) i _ z0 r(2)] True by simp
    have r2: "refs_inv (\<lambda>_. 0) ?s2" using inv_install[OF r1 _ _ z1, of f1] True i r(3) by (simp add: fun_upd_idem)
    show ?thesis
    proof (cases "\<exists>m b. ino = Some m \<and> page = Some b")
      case False
      then have g: "get_pipe_inode ino page ?s2 = (None, ?s2)" by (auto simp: get_pipe_inode_def split: option.split)
      have "set_fd i ?fd1 None (set_fd i ?fd0 None ?s2) = s"
        using set_fd_swap[of i ?s2 ?fd1 ?fd0 None None] set_fd_undo[of i ?s1 ?fd1 "Some f1"] set_fd_undo[OF i z0] i lt z1 by simp
      then show ?thesis using True g d by (simp add: pipe_install_def Let_def)
    next
      case p: True
      then obtain m b where b: "ino = Some m" "page = Some b" by blast
      obtain s3 where g: "get_pipe_inode (Some m) (Some b) ?s2 = (Some m, s3)" by (simp add: get_pipe_inode_def)
      have "pipes_inv (pipe_ends m f0 f1 s3)"
        by (rule new_pipe_ok[OF _ _ _ _ _ _ _ _ _ _ g])
          (use n ino b pg in \<open>simp_all add: two_new_def inode_free_def pipe_used_def null_file_def pipeish_def\<close>)
      moreover have "refs_inv (\<lambda>_. 0) (pipe_ends m f0 f1 s3)" unfolding pipe_ends_def
        by (intro inv_same_count) (use r2 g in \<open>auto simp: get_pipe_inode_def\<close>)
      moreover have "state_inv (vf_lk (pipe_ends m f0 f1 s3)) \<and> vf_proc (pipe_ends m f0 f1 s3) = vf_proc ?s2"
        using g n by (auto simp: pipe_ends_def get_pipe_inode_def two_new_def)
      ultimately show ?thesis using True b g by (simp add: pipe_install_def Let_def vfs_inv_def)
    qed
  qed
qed

lemma count_refs: "refs_inv e s \<Longrightarrow> a \<in> set (vf_ring s) \<Longrightarrow> int (unat (f_count (vf_file s a))) = int (refs a s) + e a"
  unfolding refs_inv_def by blast

lemma inode_free_filp:
  assumes "filp_spec e s (Some a) s'" "refs_inv e s" "inode_free s ino"
  shows "inode_free s' ino"
  unfolding inode_free_def
proof (intro allI impI conjI ballI)
  fix n assume n: "ino = Some n"
  note p = filp_specD[OF assms(1)]
  show "\<not> pipe_used s' n" using assms(3) n p(1) by (simp add: inode_free_def pipe_used_def same_rest_def)
  fix b assume b: "b \<in> set (vf_ring s')" "f_count (vf_file s' b) \<noteq> 0"
  show "f_inode (vf_file s' b) \<noteq> Some n"
  proof (cases "b = a \<or> b \<in> set (vf_ring s)")
    case True
    then show ?thesis using assms(1,3) n b p(5) by (cases "b = a") (auto simp: filp_spec_def inode_free_def null_file_def)
  next
    case False
    then have "refs b s = 0" "e b = 0" using refs_outside[OF assms(2)] assms(2) by (auto simp: refs_inv_def)
    moreover have "refs b s' = refs b s" using p(1) by (simp add: refs_def same_rest_def)
    moreover have "(e(a := e a + 1)) b = e b" using False by simp
    ultimately have "unat (f_count (vf_file s' b)) = 0" using count_refs[OF p(4) b(1)] by linarith
    then show ?thesis using b(2) unat_eq_0 by blast
  qed
qed

lemma sys_pipe_inv:
  assumes "vfs_inv s" "i < length (vf_proc s)" "inode_free s ino" "\<And>b. page = Some b \<Longrightarrow> length b = 4096"
    "sys_pipe va mem ino page i fildes s = Some (r, s')"
  shows "vfs_inv s' \<and> length (vf_proc s') = length (vf_proc s)"
proof (cases "va VERIFY_WRITE fildes 8")
  case None
  have v: "refs_inv (\<lambda>_. 0) s" "pipes_inv s" using assms(1) by (simp_all add: vfs_inv_def)
  obtain x s1 where g: "get_empty_filp mem s = Some (x, s1)"
    using assms(5) None by (cases "get_empty_filp mem s") (auto simp: sys_pipe_def)
  note sp = get_empty_filp_spec[OF g v]
  show ?thesis
  proof (cases x)
    case x: None
    then show ?thesis using sp assms(1,5) None g by (simp add: sys_pipe_def filp_spec_def vfs_inv_def same_rest_def)
  next
    case x: (Some f0)
    note p = filp_specD[OF sp[unfolded x]]
    obtain y s2 where g2: "get_empty_filp mem s1 = Some (y, s2)"
      using assms(5) None g x by (cases "get_empty_filp mem s1") (auto simp: sys_pipe_def)
    note sp2 = get_empty_filp_spec[OF g2 p(4,2)]
    have rest: "vf_proc s2 = vf_proc s" "vf_lk s2 = vf_lk s" using p(1) sp2 by (auto simp: filp_spec_def same_rest_def)
    show ?thesis
    proof (cases y)
      case y: None
      have q: "refs_inv ((\<lambda>_. 0)(f0 := 1)) s2" "pipes_inv s2" "f0 \<in> set (vf_ring s2)" "vf_file s2 f0 = null_file\<lparr>f_count := 1\<rparr>"
        using sp2 y p(3,5) by (auto simp: filp_spec_def)
      show ?thesis using drop_new[OF q] assms(1,5) None g x g2 y by (auto simp: sys_pipe_def vfs_inv_def rest fun_upd_idem)
    next
      case y: (Some f1)
      note q = filp_specD[OF sp2[unfolded y]]
      have ne: "f0 \<noteq> f1" using sp2 y p(3,5) by (auto simp: filp_spec_def)
      then have "two_new f0 f1 s2" using q sp2 y p(3,5) assms(1) rest by (auto simp: two_new_def filp_spec_def vfs_inv_def)
      moreover have "inode_free s2 ino"
        by (rule inode_free_filp[OF sp2[unfolded y] p(4) inode_free_filp[OF sp[unfolded x] v(1) assms(3)]])
      ultimately show ?thesis using pipe_install_inv[of f0 f1 s2 i ino page] assms(2,4,5) None g x g2 y rest
        by (simp add: sys_pipe_def)
    qed
  qed
qed (use assms in \<open>simp add: sys_pipe_def\<close>)

section \<open>The other calls\<close>

lemma same_end_keep: "f_count f' = f_count f \<Longrightarrow> f_inode f' = f_inode f \<Longrightarrow> f_op f' = f_op f \<Longrightarrow> same_end f f'"
  by (auto simp: same_end_def pipeish_def)

lemma sys_fcntl_inv:
  assumes "vfs_inv s" "i < length (vf_proc s)" "sys_fcntl va pid sockf i t fd cmd arg l s = Some (out, s')"
  shows "vfs_inv s' \<and> length (vf_proc s') = length (vf_proc s)"
proof (cases "fd_file i fd s")
  case None
  then show ?thesis using assms by (simp add: sys_fcntl_def)
next
  case (Some a)
  have v: "refs_inv (\<lambda>_. 0) s" "pipes_inv s" "state_inv (vf_lk s)" using assms(1) by (simp_all add: vfs_inv_def)
  have u: "vfs_inv (upd_file a g s)" if "\<And>f. f_count (g f) = f_count f \<and> f_inode (g f) = f_inode f \<and> f_op (g f) = f_op f" for g
    using inv_same_count[OF v(1), of g a] pipes_upd_file[OF v(2), of a g] same_end_keep that v(3) by (simp add: vfs_inv_def)
  have c: "vfs_inv (set_cloexec i fd b s)" for b
    using inv_set_cloexec[OF v(1) assms(2), of fd b] fd_fileD[OF Some] v by (simp add: vfs_inv_def)
  have k: "vfs_inv s2 \<and> length (vf_proc s2) = length (vf_proc s)"
    if "fcntl_locks (fcntl_setlk va (vf_lk s) cur fd' cmd' arg l) s = Some (o2, s2)" for cur fd' cmd' o2 s2
    using that setlk_inv[OF v(3), of va cur fd' cmd' arg l] v by (auto simp: fcntl_locks_def out_inv_def vfs_inv_def split: lk_out.splits)
  show ?thesis using assms(3) assms(1,2) Some u c k dupfd_inv[OF assms(1,2), of fd "unat arg"]
    by (auto simp: sys_fcntl_def Let_def split: if_splits prod.splits sum.splits option.splits)
qed

lemma pipe_read_keeps:
  assumes "pipe_ok p" "pipe_read flags count t p = Some (r, p')"
  shows "pipe_ok p' \<and> same_ends p p'"
proof (cases "pipe_read_enter flags t p")
  case Gate_go
  show ?thesis by (rule pipe_read_go[OF assms(1) Gate_go, of count]) (use assms(2) in auto)
qed (use assms in \<open>auto simp: pipe_read_def\<close>)

lemma pipe_write_keeps:
  assumes "pipe_ok p" "pipe_write flags buf k p = Some (r, k', p')"
  shows "pipe_ok p' \<and> same_ends p p'"
proof (cases "pi_readers p = 0")
  case False
  define free :: u32 where "free = (if int (length buf) \<le> uint PIPE_BUF then word_of_int (int (length buf)) else 1)"
  have "free \<noteq> 0 \<or> buf = []" using free_word_0[of "length buf"] by (auto simp: free_def kconst)
  moreover have "pipe_write_loop flags free buf 0 k p = Some (r, k', p')" using assms(2) False by (simp add: pipe_write_def free_def)
  ultimately show ?thesis using pipe_write_loop_spec[OF assms(1) order_refl, of free buf flags k] by auto
qed (use assms in \<open>simp add: pipe_write_def\<close>)

lemma put_pipe_inv:
  assumes "vfs_inv s" "vf_pipe s n = Some nd" "pipe_ok p" "same_ends (pn_pipe nd) p"
  shows "vfs_inv (put_pipe n p s)"
proof -
  let ?s = "put_pipe n p s"
  have e: "ends ops m ?s = ends ops m s" for ops m by (simp add: ends_def put_pipe_def)
  have w: "vf_pipe ?s = (vf_pipe s)(n \<mapsto> nd\<lparr>pn_pipe := p\<rparr>)" using assms(2) by (simp add: put_pipe_def upd_pipe_def)
  have "node_ok ?s m nd'" if "vf_pipe ?s m = Some nd'" for m nd'
  proof (cases "m = n")
    case True
    have "node_ok s n nd" using assms(1,2) by (simp add: vfs_inv_def pipes_inv_def)
    then show ?thesis using that True assms(3,4) by (auto simp: w node_ok_def e same_ends_def)
  next
    case False
    then have "node_ok s m nd'" using that assms(1) by (simp add: vfs_inv_def pipes_inv_def w)
    then show ?thesis by (simp add: node_ok_def e)
  qed
  moreover have "file_ok ?s f = file_ok s f" for f
  proof -
    have "pipe_used ?s m = pipe_used s m" "(vf_pipe ?s m = None) = (vf_pipe s m = None)" for m using assms(2) by (auto simp: pipe_used_def w)
    then show ?thesis by (simp add: file_ok_def)
  qed
  ultimately have "pipes_inv ?s" using assms(1) by (simp add: pipes_inv_def vfs_inv_def put_pipe_def)
  then show ?thesis using assms(1) by (simp add: vfs_inv_def put_pipe_def)
qed

lemma live_end:
  assumes "vfs_inv s" "i < length (vf_proc s)" "fd_file i fd s = Some a" "f_op (vf_file s a) = Some (Fops_pipe ops)"
  obtains n nd where "f_inode (vf_file s a) = Some n" "vf_pipe s n = Some nd" "pipe_ok (pn_pipe nd)" "a \<in> ends ops n s"
    "ops \<in> {read_pipe_fops, write_pipe_fops}" "node_ok s n nd"
proof -
  have v: "refs_inv (\<lambda>_. 0) s" "pipes_inv s" using assms(1) by (simp_all add: vfs_inv_def)
  have a: "a \<in> set (vf_ring s)" "f_count (vf_file s a) \<noteq> 0"
    using fd_file_ring[OF v(1) assms(2,3)] referenced[OF v(1) assms(2,3)] by auto
  have "file_ok s (vf_file s a)" "pipeish (vf_file s a)" using v(2) a assms(4) by (auto simp: pipes_inv_def pipeish_def)
  then obtain n ops' where o: "is_end ops' n (vf_file s a)" "ops' \<in> {read_pipe_fops, write_pipe_fops}" "vf_pipe s n \<noteq> None"
    unfolding file_ok_def by blast
  have "ops' = ops" using o(1) assms(4) by (simp add: is_end_def)
  note o = o[unfolded this]
  obtain nd where nd: "vf_pipe s n = Some nd" using o(3) by blast
  have k: "node_ok s n nd" using v(2) nd by (simp add: pipes_inv_def)
  have m: "a \<in> ends ops n s" using a(1) o(1) by (simp add: ends_def)
  then have "0 < card (ends ops n s)" by (auto simp: card_gt_0_iff)
  then have "unat (pn_count nd) \<noteq> 0" using k o(2) by (auto simp: node_ok_def)
  then have "pipe_ok (pn_pipe nd)" using k by (auto simp: node_ok_def)
  then show ?thesis using that o nd k m by (simp add: is_end_def)
qed

lemma sys_read_inv:
  assumes "vfs_inv s" "i < length (vf_proc s)" "sys_read va dev i t fd buf count s = Some (r, s')"
  shows "vfs_inv s' \<and> length (vf_proc s') = length (vf_proc s)"
proof (cases "\<exists>a ops. fd_file i fd s = Some a \<and> f_op (vf_file s a) = Some (Fops_pipe ops)")
  case True
  then obtain a ops where a: "fd_file i fd s = Some a" "f_op (vf_file s a) = Some (Fops_pipe ops)" by blast
  obtain n nd where n: "f_inode (vf_file s a) = Some n" "vf_pipe s n = Some nd" "pipe_ok (pn_pipe nd)" "ops \<in> {read_pipe_fops, write_pipe_fops}"
    by (rule live_end[OF assms(1,2) a])
  have "vfs_inv (put_pipe n p' s)" if "pipe_read flags c t (pn_pipe nd) = Some (x, p')" for flags c x p'
    using put_pipe_inv[OF assms(1) n(2)] pipe_read_keeps[OF n(3) that] by simp
  then show ?thesis using assms a n
    by (auto simp: sys_read_def Let_def file_pipe_read_def put_pipe_def split: if_splits option.splits)
qed (use assms in \<open>auto simp: sys_read_def Let_def split: if_splits option.splits fops.splits\<close>)

lemma sys_write_inv:
  assumes "vfs_inv s" "i < length (vf_proc s)" "sys_write va dev i k fd buf buf0 s = Some (r, k', s')"
  shows "vfs_inv s' \<and> length (vf_proc s') = length (vf_proc s)"
proof (cases "\<exists>a ops. fd_file i fd s = Some a \<and> f_op (vf_file s a) = Some (Fops_pipe ops)")
  case True
  then obtain a ops where a: "fd_file i fd s = Some a" "f_op (vf_file s a) = Some (Fops_pipe ops)" by blast
  obtain n nd where n: "f_inode (vf_file s a) = Some n" "vf_pipe s n = Some nd" "pipe_ok (pn_pipe nd)"
    by (rule live_end[OF assms(1,2) a])
  have "vfs_inv (put_pipe n p' s)" if "pipe_write flags buf0 k (pn_pipe nd) = Some (x, k2, p')" for flags x k2 p'
    using put_pipe_inv[OF assms(1) n(2)] pipe_write_keeps[OF n(3) that] by simp
  then show ?thesis using assms a n
    by (auto simp: sys_write_def Let_def put_pipe_def split: if_splits option.splits)
qed (use assms in \<open>auto simp: sys_write_def Let_def split: if_splits option.splits fops.splits\<close>)

section \<open>The system\<close>

text \<open>
  Processes make calls in any order. The second component holds the sleeping calls for record locks. The
  names that are opened lead to no pipe, as said above; the condition of \<open>pipe\<close> is what the inode layer promises.
\<close>

inductive vfs_step :: "vfs \<times> lk_pending \<Rightarrow> vfs \<times> lk_pending \<Rightarrow> bool" where
  close: "i < length (vf_proc s) \<Longrightarrow> sys_close i fd s = Some (r, s') \<Longrightarrow> vfs_step (s, P) (s', P)"
| dup: "i < length (vf_proc s) \<Longrightarrow> dupfd i fd arg s = (r, s') \<Longrightarrow> vfs_step (s, P) (s', P)"
| dup2: "i < length (vf_proc s) \<Longrightarrow> sys_dup2 i oldfd newfd s = Some (r, s') \<Longrightarrow> vfs_step (s, P) (s', P)"
| fcntl: "i < length (vf_proc s) \<Longrightarrow> sys_fcntl va pid sockf i t fd cmd arg l s = Some (out, s') \<Longrightarrow> out \<noteq> Fc_sleep \<Longrightarrow>
    vfs_step (s, P) (s', P)"
| locks: "lk_step va (vf_lk s, P) (lk, P') \<Longrightarrow> vfs_step (s, P) (s\<lparr>vf_lk := lk\<rparr>, P')"
| opened: "i < length (vf_proc s) \<Longrightarrow> namei_ok s namei opn \<Longrightarrow> do_open mem namei opn flags i s = Some (r, s') \<Longrightarrow> vfs_step (s, P) (s', P)"
| piped: "i < length (vf_proc s) \<Longrightarrow> inode_free s ino \<Longrightarrow> (\<And>b. page = Some b \<Longrightarrow> length b = 4096) \<Longrightarrow>
    sys_pipe va mem ino page i fildes s = Some (r', s') \<Longrightarrow> vfs_step (s, P) (s', P)"
| reads: "i < length (vf_proc s) \<Longrightarrow> sys_read va rdev i t fd buf count s = Some (rr, s') \<Longrightarrow> vfs_step (s, P) (s', P)"
| writes: "i < length (vf_proc s) \<Longrightarrow> sys_write va wdev i k fd buf buf0 s = Some (rw, k', s') \<Longrightarrow> vfs_step (s, P) (s', P)"
| forks: "i < length (vf_proc s) \<Longrightarrow> j < length (vf_proc s) \<Longrightarrow> \<forall>fd<256. fp_filp (vf_proc s ! j) ! fd = None \<Longrightarrow>
    vfs_step (s, P) (fork_files i j s, P)"
| execs: "i < length (vf_proc s) \<Longrightarrow> exec_files i s = Some s' \<Longrightarrow> vfs_step (s, P) (s', P)"
| exits: "i < length (vf_proc s) \<Longrightarrow> exit_files i s = Some s' \<Longrightarrow> vfs_step (s, P) (s', P)"

definition vfs_boot :: "vfs \<times> lk_pending \<Rightarrow> bool" where
  "vfs_boot x \<longleftrightarrow> (\<exists>s N. x = (file_table_init s, []) \<and> vf_nr s = 0 \<and> N \<le> 128 \<and>
     vf_proc s = replicate N \<lparr>fp_filp = replicate 256 None, fp_cloexec = replicate 256 False\<rparr> \<and> (\<forall>n. vf_pipe s n = None) \<and> lk_init (vf_lk s, []))"

definition sys_inv :: "vfs \<times> lk_pending \<Rightarrow> bool" where
  "sys_inv x \<longleftrightarrow> vfs_inv (fst x) \<and> (\<forall>(t, ino, fd, cmd, fl)\<in>set (snd x). request_ok t fd fl)"

lemma vfs_step_inv: "vfs_step x y \<Longrightarrow> sys_inv x \<Longrightarrow> sys_inv y"
proof (induction rule: vfs_step.induct)
  case (close i s fd r s' P)
  then show ?case using sys_close_inv[of s i fd] by (auto simp: sys_inv_def)
next
  case (dup i s fd arg r s' P)
  then show ?case using dupfd_inv[of s i fd arg] by (auto simp: sys_inv_def)
next
  case (dup2 i s oldfd newfd r s' P)
  then show ?case using sys_dup2_inv[of s i oldfd newfd] by (auto simp: sys_inv_def)
next
  case (fcntl i s va pid sockf t fd cmd arg l out s' P)
  then show ?case using sys_fcntl_inv[of s i va pid sockf t fd cmd arg l out s'] by (auto simp: sys_inv_def)
next
  case (locks va s P lk P')
  then have "lk_inv (lk, P')" using lk_step_inv[of "(vf_lk s, P)" va "(lk, P')"] by (simp add: sys_inv_def lk_inv_def vfs_inv_def)
  then show ?case using locks by (simp add: sys_inv_def vfs_inv_def lk_inv_def)
next
  case (opened i s namei opn mem flags r s' P)
  then show ?case using do_open_inv[of s i namei opn mem flags r s'] by (auto simp: sys_inv_def)
next
  case (piped i s ino page va mem fildes r' s' P)
  then show ?case using sys_pipe_inv[of s i ino page va mem fildes r' s'] by (auto simp: sys_inv_def)
next
  case (reads i s va rdev t fd buf count rr s' P)
  then show ?case using sys_read_inv[of s i va rdev t fd buf count rr s'] by (auto simp: sys_inv_def)
next
  case (writes i s va wdev k fd buf buf0 rw k' s' P)
  then show ?case using sys_write_inv[of s i va wdev k fd buf buf0 rw k' s'] by (auto simp: sys_inv_def)
next
  case (forks i s j P)
  then show ?case using fork_files_inv[of s i j] by (auto simp: sys_inv_def)
next
  case (execs i s s' P)
  then show ?case using exec_files_inv[of s i] by (auto simp: sys_inv_def)
next
  case (exits i s s' P)
  then show ?case using exit_files_inv[of s i] by (auto simp: sys_inv_def)
qed

interpretation files: invariant_system vfs_boot vfs_step sys_inv
proof unfold_locales
  fix x assume "vfs_boot x"
  then obtain s N where x: "x = (file_table_init s, [])" "vf_nr s = 0" "N \<le> 128"
    "vf_proc s = replicate N \<lparr>fp_filp = replicate 256 None, fp_cloexec = replicate 256 False\<rparr>" "\<forall>n. vf_pipe s n = None" "lk_init (vf_lk s, [])"
    by (auto simp: vfs_boot_def)
  have "refs_inv (\<lambda>_. 0) (file_table_init s)" using x by (auto simp: refs_inv_def file_table_init_def proc_ok_def)
  moreover have "pipes_inv (file_table_init s)" using x by (simp add: pipes_inv_def file_table_init_def)
  ultimately show "sys_inv x" using lk_init_inv[OF x(6)] by (simp add: x(1) sys_inv_def vfs_inv_def lk_inv_def file_table_init_def)
qed (rule vfs_step_inv)

section \<open>What the system guarantees\<close>

lemma refs_pos:
  assumes "refs_inv e s" "refs b s \<noteq> 0"
  shows "\<exists>j fd. j < length (vf_proc s) \<and> fd_file j fd s = Some b"
proof -
  obtain p where p: "p \<in> set (vf_proc s)" "cnt (\<lambda>x. x = Some b) (fp_filp p) \<noteq> 0"
    using assms(2) by (auto simp: refs_def)
  then obtain j where j: "j < length (vf_proc s)" "vf_proc s ! j = p" by (auto simp: in_set_conv_nth)
  obtain fd where "fd < length (fp_filp p)" "fp_filp p ! fd = Some b" using cnt_pos[of "\<lambda>x. x = Some b" "fp_filp p"] p(2) by auto
  then show ?thesis using j cloexec_length(2)[OF assms(1) j(1)] by (intro exI[of _ j] exI[of _ fd]) (simp add: fd_file_def)
qed

lemma reach_vfs: "reach vfs_boot vfs_step (s, P) \<Longrightarrow> vfs_inv s"
  using files.reach_inv by (fastforce simp: sys_inv_def)

lemma count_iff:
  assumes "vfs_inv s" "a \<in> set (vf_ring s)"
  shows "unat (f_count (vf_file s a)) = refs a s \<and> (f_count (vf_file s a) \<noteq> 0 \<longleftrightarrow> (\<exists>i fd. i < length (vf_proc s) \<and> fd_file i fd s = Some a))"
proof -
  have v: "refs_inv (\<lambda>_. 0) s" using assms(1) by (simp add: vfs_inv_def)
  have c: "unat (f_count (vf_file s a)) = refs a s" using count_refs[OF v assms(2)] by linarith
  have "\<exists>i fd. i < length (vf_proc s) \<and> fd_file i fd s = Some a" if "f_count (vf_file s a) \<noteq> 0"
    using refs_pos[OF v, of a] that c by (metis unat_eq_0)
  then show ?thesis using c referenced[OF v] by blast
qed

text \<open>
  C3. Over any sequence of opens (of names that lead to no pipe), closes, duplications, forks, execs and exits by any processes, the count of a
  file is the number of descriptors that refer to it, in all processes; so a file is free for reuse exactly when no
  descriptor refers to it, and no descriptor refers to a file that is not in the table.
\<close>

theorem file_refcounts:
  assumes "reach vfs_boot vfs_step (s, P)"
  shows "(a \<in> set (vf_ring s) \<longrightarrow> unat (f_count (vf_file s a)) = refs a s \<and>
      (f_count (vf_file s a) \<noteq> 0 \<longleftrightarrow> (\<exists>i fd. i < length (vf_proc s) \<and> fd_file i fd s = Some a))) \<and>
    (i < length (vf_proc s) \<and> fd_file i fd s = Some a \<longrightarrow> a \<in> set (vf_ring s))"
  using count_iff[OF reach_vfs[OF assms], of a] fd_file_ring[of "\<lambda>_. 0" s i fd a] reach_vfs[OF assms] by (auto simp: vfs_inv_def)

lemma no_writer_iff:
  assumes "vfs_inv s" "vf_pipe s n = Some nd"
  shows "pi_writers (pn_pipe nd) = 0 \<longleftrightarrow>
    \<not> (\<exists>j fd b. j < length (vf_proc s) \<and> fd_file j fd s = Some b \<and> is_end write_pipe_fops n (vf_file s b))"
proof -
  have v: "refs_inv (\<lambda>_. 0) s" "node_ok s n nd" using assms by (simp_all add: vfs_inv_def pipes_inv_def)
  have "pi_writers (pn_pipe nd) = 0 \<longleftrightarrow> card (ends write_pipe_fops n s) = 0" using v(2) by (metis node_ok_def unat_eq_0)
  also have "\<dots> \<longleftrightarrow> (\<forall>b\<in>set (vf_ring s). \<not> is_end write_pipe_fops n (vf_file s b))" by (auto simp: ends_def)
  also have "\<dots> \<longleftrightarrow> \<not> (\<exists>j fd b. j < length (vf_proc s) \<and> fd_file j fd s = Some b \<and> is_end write_pipe_fops n (vf_file s b))"
  proof (intro iffI notI ballI)
    assume a: "\<forall>b\<in>set (vf_ring s). \<not> is_end write_pipe_fops n (vf_file s b)"
      and "\<exists>j fd b. j < length (vf_proc s) \<and> fd_file j fd s = Some b \<and> is_end write_pipe_fops n (vf_file s b)"
    then show False using fd_file_ring[OF v(1)] by blast
  next
    fix b assume a: "\<not> (\<exists>j fd b. j < length (vf_proc s) \<and> fd_file j fd s = Some b \<and> is_end write_pipe_fops n (vf_file s b))"
      and b: "b \<in> set (vf_ring s)" "is_end write_pipe_fops n (vf_file s b)"
    have "f_count (vf_file s b) \<noteq> 0" using b(2) by (simp add: is_end_def)
    then show False using count_iff[OF assms(1) b(1)] a b(2) by blast
  qed
  finally show ?thesis .
qed

text \<open>
  C6. A read of an empty pipe reports end of file exactly when no process holds a descriptor of the writing
  end any more, whatever dups, forks, execs and exits the descriptors went through; only a read that may not
  block can find the pipe locked instead and is then refused with \<^verbatim>\<open>EAGAIN\<close>. While there is such a descriptor,
  a read that may not block is refused with \<^verbatim>\<open>EAGAIN\<close>, and any other sleeps, or is interrupted when a signal is
  pending. The processes open no pipe by a name, which \<^verbatim>\<open>/proc/<pid>/fd\<close> would allow.
\<close>

theorem pipe_end_of_file:
  assumes "reach vfs_boot vfs_step (s, P)" "i < length (vf_proc s)" "fd_file i fd s = Some a" "is_end read_pipe_fops n (vf_file s a)"
    "f_mode (vf_file s a) AND 1 \<noteq> 0" "vf_pipe s n = Some nd" "pi_len (pn_pipe nd) = 0"
    "count \<noteq> 0" "va VERIFY_WRITE buf count = None"
    "has_writer \<longleftrightarrow> (\<exists>j fd b. j < length (vf_proc s) \<and> fd_file j fd s = Some b \<and> is_end write_pipe_fops n (vf_file s b))"
  shows "map_option fst (sys_read va dev i t fd buf count s) =
    Some (if nonblock (ucast (f_flags (vf_file s a)))
          then Some (if has_writer \<or> pi_lock (pn_pipe nd) \<noteq> 0 then Inl EAGAIN else Inr [])
          else if \<not> has_writer then Some (Inr [])
          else if signal_pending t then Some (Inl ERESTARTSYS)
          else None)"
proof -
  have w: "has_writer \<longleftrightarrow> pi_writers (pn_pipe nd) \<noteq> 0"
    using no_writer_iff[OF reach_vfs[OF assms(1)] assms(6)] assms(10) by blast
  have "pipe_read (ucast (f_flags (vf_file s a))) (sint count) t (pn_pipe nd) =
      Some (if nonblock (ucast (f_flags (vf_file s a)))
            then Some (if has_writer \<or> pi_lock (pn_pipe nd) \<noteq> 0 then Inl EAGAIN else Inr [])
            else if \<not> has_writer then Some (Inr [])
            else if signal_pending t then Some (Inl ERESTARTSYS)
            else None, pn_pipe nd)"
    using assms(7) unfolding w by (auto simp: pipe_read_def pipe_read_enter_def PIPE_EMPTY_def)
  then show ?thesis using assms(2-9) by (simp add: sys_read_def Let_def is_end_def file_pipe_read_def)
qed

text \<open>
  C32. With memory at hand a free file is always found in the end, unless the table has reached its limit and
  every file of it is in use.
\<close>

theorem get_empty_filp_ends:
  assumes "reach vfs_boot vfs_step (s, P)" "\<And>k. mem k"
  shows "\<exists>r s'. get_empty_filp mem s = Some (r, s') \<and>
    (case r of Some a \<Rightarrow> f_count (vf_file s' a) = 1 \<and> a \<in> set (vf_ring s')
     | None \<Rightarrow> NR_FILE \<le> vf_nr s' \<and> filter (\<lambda>a. f_count (vf_file s' a) = 0) (vf_ring s') = [])"
proof -
  have v: "refs_inv (\<lambda>_. 0) s" "pipes_inv s" using reach_vfs[OF assms(1)] by (simp_all add: vfs_inv_def)
  obtain r s' where g: "get_empty_filp mem s = Some (r, s')"
    "r = None \<longrightarrow> NR_FILE \<le> vf_nr s' \<and> (\<forall>a\<in>set (vf_ring s'). f_count (vf_file s' a) \<noteq> 0)"
    using filp_loop_ends[of mem, OF assms(2) v] filp_loop_ends[of mem, OF assms(2) grow_files_inv(1,2)[OF v, of mem]]
    unfolding get_empty_filp_def by (cases "vf_ring s = []") (simp_all, blast+)
  then show ?thesis using get_empty_filp_spec[OF g(1) v]
    by (intro exI[of _ r] exI[of _ s']) (auto simp: filp_spec_def null_file_def filter_empty_conv split: option.split)
qed

lemma fd_file_upd:
  "i < length (vf_proc s) \<Longrightarrow> length (fp_filp (vf_proc s ! i)) = 256 \<Longrightarrow> fd < 256 \<Longrightarrow>
   fd_file j fd' (set_fd i fd x s) = (if j = i \<and> fd' = fd then x else fd_file j fd' s)"
  by (auto simp: fd_file_def set_fd_def upd_proc_def nth_list_update)

lemma fd_file_inc [simp]: "fd_file j fd' (inc_count a s) = fd_file j fd' s" "fd_file j fd' (upd_file a g s) = fd_file j fd' s"
  by (simp_all add: fd_file_def)

lemma fd_file_cloexec [simp]: "fd_file j fd' (set_cloexec i fd b s) = fd_file j fd' s"
proof (cases "i < length (vf_proc s) \<and> j = i")
  case True
  then show ?thesis by (simp add: fd_file_def)
next
  case False
  then have "vf_proc (set_cloexec i fd b s) ! j = vf_proc s ! j" by (auto simp: set_cloexec_def upd_proc_def list_update_beyond)
  then show ?thesis by (simp add: fd_file_def)
qed

text \<open>
  C30. \<^verbatim>\<open>dup2\<close> makes the new descriptor refer to the file of the old one, whatever it
  referred to before; it is not closed on exec, and no other descriptor of any process changes.
\<close>

theorem dup2_exact:
  assumes "reach vfs_boot vfs_step (s, P)" "i < length (vf_proc s)" "fd_file i oldfd s = Some a" "newfd < 256" "newfd \<noteq> oldfd"
  shows "\<exists>s'. sys_dup2 i oldfd newfd s = Some (Inr newfd, s') \<and>
    (\<forall>j fd. fd_file j fd s' = (if j = i \<and> fd = newfd then Some a else fd_file j fd s)) \<and>
    \<not> fp_cloexec (vf_proc s' ! i) ! newfd"
proof -
  have v: "vfs_inv s" "refs_inv (\<lambda>_. 0) s" using reach_vfs[OF assms(1)] by (simp_all add: vfs_inv_def)
  obtain r s1 where c: "sys_close i newfd s = Some (r, s1)" "vfs_inv s1" "vf_proc s1 = closed_procs i newfd s"
    using sys_close_inv[OF v(1) assms(2)] by blast
  have l: "length (fp_filp (vf_proc s ! i)) = 256" "length (fp_cloexec (vf_proc s ! i)) = 256" by (rule cloexec_length[OF v(2) assms(2)])+
  have i1: "i < length (vf_proc s1)" using c(3) assms(2) by simp
  have f1: "fd_file j fd s1 = (if j = i \<and> fd = newfd then None else fd_file j fd s)" for j fd
    using assms(2,4) l by (auto simp: fd_file_def c(3) closed_procs_def nth_list_update)
  have p1: "vf_proc s1 ! i = (vf_proc s ! i)\<lparr>fp_cloexec := (fp_cloexec (vf_proc s ! i))[newfd := False], fp_filp := (fp_filp (vf_proc s ! i))[newfd := None]\<rparr>"
    using c(3) assms(2) by (simp add: closed_procs_def)
  have e: "free_fd (fp_filp (vf_proc s1 ! i)) newfd = newfd" using assms(4) l by (simp add: free_fd.simps p1)
  let ?s = "inc_count a (set_fd i newfd (Some a) (set_cloexec i newfd False s1))"
  have "dupfd i oldfd newfd s1 = (Inr newfd, ?s)" using f1[of i oldfd] assms(3-5) e by (simp add: dupfd_def)
  then have "sys_dup2 i oldfd newfd s = Some (Inr newfd, ?s)" using assms(3-5) c(1) by (simp add: sys_dup2_def)
  moreover have "fd_file j fd ?s = (if j = i \<and> fd = newfd then Some a else fd_file j fd s)" for j fd
    using fd_file_upd[of i "set_cloexec i newfd False s1" newfd j fd "Some a"] i1 p1 l assms(4) f1[of j fd] by simp
  moreover have "\<not> fp_cloexec (vf_proc ?s ! i) ! newfd" using i1 p1 l assms(4) by simp
  ultimately show ?thesis by blast
qed

section \<open>An example\<close>

text \<open>Two processes; the first makes a pipe and sets \<^verbatim>\<open>O_NONBLOCK\<close> on the reading end.\<close>

definition example_proc :: fproc where
  "example_proc = \<lparr>fp_filp = replicate 256 None, fp_cloexec = replicate 256 False\<rparr>"

definition example_vfs :: vfs where
  "example_vfs = \<lparr>vf_ring = [], vf_file = (\<lambda>_. null_file), vf_nr = 0, vf_allocs = 0, vf_proc = [example_proc, example_proc],
     vf_lk = \<lparr>lk_inode = (\<lambda>_. \<lparr>i_mode = 0, i_size = 0, i_flock = []\<rparr>), file_lock_free_list = replicate NR_FILE_LOCKS blank_lock, lk_woken = []\<rparr>,
     vf_pipe = (\<lambda>_. None)\<rparr>"

definition example_pair :: vfs where
  "example_pair = example_vfs\<lparr>vf_ring := rev [0..<126] @ [127, 126], vf_nr := 128, vf_allocs := 1,
     vf_file := (\<lambda>_. null_file)(127 := null_file\<lparr>f_count := 1\<rparr>, 126 := null_file\<lparr>f_count := 1\<rparr>)\<rparr>"

definition example_piped :: vfs where
  "example_piped = snd (pipe_install (Some 9) (Some (replicate 4096 0)) 0 127 126 example_pair)"

definition example_nonblock :: vfs where
  "example_nonblock = upd_file 127 (\<lambda>f. f\<lparr>f_flags := 0x800\<rparr>) example_piped"

lemma example_boot: "vfs_boot (example_vfs, [])"
proof -
  have "example_vfs = file_table_init example_vfs" by (simp add: file_table_init_def example_vfs_def)
  moreover have "[example_proc, example_proc] = replicate 2 example_proc" by (simp add: numeral_2_eq_2)
  ultimately show ?thesis unfolding vfs_boot_def
    by (intro exI[of _ example_vfs] exI[of _ 2]) (simp add: example_vfs_def example_proc_def lk_init_def)
qed

lemma rev_upt_Suc: "rev [0..<Suc n] = n # rev [0..<n]"
  by simp

lemma example_filp:
  "get_empty_filp (\<lambda>_. True) example_vfs = Some (Some 127, example_pair\<lparr>vf_ring := rev [0..<127] @ [127], vf_file := (\<lambda>_. null_file)(127 := null_file\<lparr>f_count := 1\<rparr>)\<rparr>)"
proof -
  let ?g = "grow_files (\<lambda>_. True) example_vfs"
  have g: "?g = example_vfs\<lparr>vf_allocs := 1, vf_nr := 128, vf_file := (\<lambda>_. null_file), vf_ring := 127 # rev [0..<127]\<rparr>"
    using rev_upt_Suc[of 127] by (simp add: grow_files_ok example_vfs_def cong: if_cong)
  have f: "find_filp ?g = Some 127" by (simp add: find_filp_def g null_file_def)
  have "filp_loop (\<lambda>_. True) ?g = Some (Some 127, claim_filp 127 ?g)" by (subst filp_loop.simps) (simp add: f)
  moreover have "claim_filp 127 ?g = example_pair\<lparr>vf_ring := rev [0..<127] @ [127], vf_file := (\<lambda>_. null_file)(127 := null_file\<lparr>f_count := 1\<rparr>)\<rparr>"
    unfolding claim_filp_eq g by (simp add: example_pair_def example_vfs_def remove1_idem)
  ultimately show ?thesis by (simp add: get_empty_filp_def example_vfs_def[THEN arg_cong[where f = vf_ring]])
qed

lemma example_filp2:
  "get_empty_filp (\<lambda>_. True) (example_pair\<lparr>vf_ring := rev [0..<127] @ [127], vf_file := (\<lambda>_. null_file)(127 := null_file\<lparr>f_count := 1\<rparr>)\<rparr>) =
   Some (Some 126, example_pair)"
proof -
  let ?s = "example_pair\<lparr>vf_ring := rev [0..<127] @ [127], vf_file := (\<lambda>_. null_file)(127 := null_file\<lparr>f_count := 1\<rparr>)\<rparr>"
  have r: "rev [0..<127] = 126 # rev [0..<126]" using rev_upt_Suc[of 126] by simp
  have f: "find_filp ?s = Some 126" by (simp add: find_filp_def r example_pair_def null_file_def)
  have "filp_loop (\<lambda>_. True) ?s = Some (Some 126, claim_filp 126 ?s)" by (subst filp_loop.simps) (simp add: f)
  moreover have "claim_filp 126 ?s = example_pair" by (simp add: claim_filp_eq r example_pair_def remove1_idem remove1_append)
  ultimately show ?thesis by (simp add: get_empty_filp_def)
qed

lemma example_install:
  "pipe_install (Some 9) (Some (replicate 4096 0)) 0 127 126 example_pair =
   (Inr (0, 1), pipe_ends 9 127 126 (snd (get_pipe_inode (Some 9) (Some (replicate 4096 0))
      (set_fd 0 1 (Some 126) (set_fd 0 0 (Some 127) example_pair)))))"
proof -
  have p: "vf_proc example_pair ! 0 = example_proc" "0 < length (vf_proc example_pair)" by (simp_all add: example_pair_def example_vfs_def)
  have a: "free_fd (fp_filp (vf_proc example_pair ! 0)) 0 = 0" unfolding p(1) by (subst free_fd.simps) (simp add: example_proc_def)
  have b: "free_fd (fp_filp (vf_proc (set_fd 0 0 (Some 127) example_pair) ! 0)) (Suc 0) = 1"
    using p by (subst free_fd.simps) (simp add: example_proc_def)
  show ?thesis by (simp add: pipe_install_def Let_def a b get_pipe_inode_def del: set_fd_proc)
qed

lemma example_piped_sel:
  "fd_file 0 0 example_piped = Some 127" "fd_file 0 1 example_piped = Some 126" "length (vf_proc example_piped) = 2"
  "vf_file example_piped 127 = null_file\<lparr>f_count := 1, f_inode := Some 9, f_op := Some (Fops_pipe read_pipe_fops), f_mode := 1\<rparr>"
  "is_end write_pipe_fops 9 (vf_file example_piped 126)" "127 \<in> set (vf_ring example_piped)"
  "vf_pipe example_piped 9 = Some \<lparr>pn_pipe = \<lparr>pi_base = replicate 4096 0, pi_start = 0, pi_len = 0, pi_lock = 0, pi_rd_openers = 0,
     pi_wr_openers = 0, pi_readers = 1, pi_writers = 1\<rparr>, pn_count = 2\<rparr>"
  unfolding example_piped_def example_install
  by (simp_all add: pipe_ends_def get_pipe_inode_def example_pair_def example_vfs_def example_proc_def null_file_def is_end_def fd_file_def
        set_fd_def upd_proc_def)

lemma example_piped_reach: "reach vfs_boot vfs_step (example_piped, [])"
proof (rule reach_step)
  show "reach vfs_boot vfs_step (example_vfs, [])" by (rule reach_init) (rule example_boot)
  have "sys_pipe (\<lambda>_ _ _. None) (\<lambda>_. True) (Some 9) (Some (replicate 4096 0)) 0 0 example_vfs = Some (Inr (0, 1), example_piped)"
    unfolding example_piped_def by (simp add: sys_pipe_def example_filp example_filp2 example_install)
  then show "vfs_step (example_vfs, []) (example_piped, [])"
    by (rule piped[rotated 3]) (simp_all add: example_vfs_def inode_free_def pipe_used_def)
qed

lemma example_nonblock_reach: "reach vfs_boot vfs_step (example_nonblock, [])"
proof (rule reach_step[OF example_piped_reach])
  have "sys_fcntl (\<lambda>_ _ _. None) (\<lambda>_. 0) (\<lambda>_ _ _. Inl EINVAL) 0 INIT_TASK 0 F_SETFL 0x800 undefined example_piped = Some (Fc_ret (Inr 0), example_nonblock)"
    by (simp add: sys_fcntl_def example_piped_sel Let_def kconst example_nonblock_def upd_file_def null_file_def)
  then show "vfs_step (example_piped, []) (example_nonblock, [])" by (rule fcntl[rotated]) (simp_all add: example_piped_sel)
qed

theorem file_refcounts_witness: "unat (f_count (vf_file example_piped 127)) = refs 127 example_piped"
  using file_refcounts[OF example_piped_reach, of 127 0 0] example_piped_sel(6) by simp

theorem pipe_end_of_file_witness:
  "map_option fst (sys_read (\<lambda>_ _ _. None) (\<lambda>_. None) 0 INIT_TASK 0 0 4 example_nonblock) = Some (Some (Inl EAGAIN)) \<and>
   map_option fst (sys_read (\<lambda>_ _ _. None) (\<lambda>_. None) 0 INIT_TASK 0 0 4 example_piped) = Some None"
proof
  let ?w = "\<lambda>s. \<exists>j fd b. j < length (vf_proc s) \<and> fd_file j fd s = Some b \<and> is_end write_pipe_fops 9 (vf_file s b)"
  have f: "fd_file j fd example_nonblock = fd_file j fd example_piped" for j fd by (simp add: example_nonblock_def fd_file_def)
  have "?w example_nonblock"
    by (rule exI[of _ 0], rule exI[of _ 1], rule exI[of _ 126]) (simp add: f example_piped_sel example_piped_sel(2)[simplified] example_nonblock_def)
  then show "map_option fst (sys_read (\<lambda>_ _ _. None) (\<lambda>_. None) 0 INIT_TASK 0 0 4 example_nonblock) = Some (Some (Inl EAGAIN))"
    using pipe_end_of_file[OF example_nonblock_reach, where a = 127 and nd = "the (vf_pipe example_piped 9)" and i = 0 and fd = 0 and n = 9
        and has_writer = True and count = 4 and buf = 0 and va = "\<lambda>_ _ _. None"]
    by (simp add: f example_piped_sel example_nonblock_def is_end_def null_file_def nonblock_def kconst)
  have "?w example_piped"
    by (rule exI[of _ 0], rule exI[of _ 1], rule exI[of _ 126]) (simp add: example_piped_sel example_piped_sel(2)[simplified])
  then show "map_option fst (sys_read (\<lambda>_ _ _. None) (\<lambda>_. None) 0 INIT_TASK 0 0 4 example_piped) = Some None"
    using pipe_end_of_file[OF example_piped_reach, where a = 127 and nd = "the (vf_pipe example_piped 9)" and i = 0 and fd = 0 and n = 9
        and has_writer = True and count = 4 and buf = 0 and va = "\<lambda>_ _ _. None" and t = INIT_TASK]
    by (simp add: example_piped_sel is_end_def null_file_def nonblock_def kconst signal_pending_def INIT_TASK_def)
qed

theorem get_empty_filp_ends_witness: "\<exists>r s'. get_empty_filp (\<lambda>_. True) example_piped = Some (r, s')"
  using get_empty_filp_ends[OF example_piped_reach, of "\<lambda>_. True"] by blast

theorem dup2_exact_witness: "\<exists>s'. sys_dup2 0 0 5 example_piped = Some (Inr 5, s') \<and> fd_file 0 5 s' = Some 127 \<and> fd_file 0 1 s' = Some 126"
  using dup2_exact[OF example_piped_reach, of 0 0 127 5] by (auto simp: example_piped_sel example_piped_sel(2)[simplified])

end
