(* ===== verification/Spec2Isabelle.thy ===== *)
theory Spec2Isabelle
  imports Ioport Lock_Map Lock_System Sys_Cred Utsname Signal Timer_List Semaphore Mktime Dma Sched Ipc_Sem File_Refs
begin

text \<open>
  A verification of parts of the Linux 1.0.9 kernel under \<^verbatim>\<open>src/linux/\<close>.

  \<^bold>\<open>The program and its parts.\<close> A monolithic kernel for the i386. System calls run in the context of
  the calling task, are not preempted, and give up the processor only where they sleep on a wait queue; interrupts
  may come in between. The modelled parts are tasks with their credentials, groups and signals; scheduling, wait
  queues, kernel semaphores, timers and the clock; System V message queues and semaphores; and open files with
  pipes, named pipes and record locks. They meet in the task table (\<^verbatim>\<open>struct task_struct\<close>), in the wait
  queues every sleeping call uses, and in the files that descriptors, pipes and locks share.

  \<^bold>\<open>Conventions.\<close> A C integer is a word of its width (\<open>u8\<close>, \<open>u16\<close>, \<open>u32\<close>), or an integer with the
  wrap-around written out (\<open>wrap32\<close>) where it is signed; a \<^verbatim>\<open>struct\<close> is a record, a pointer into a table an
  index, a linked list the list of its elements in link order. \<open>Wait_Queue\<close> and the undo structures of
  \<open>Ipc_Sem\<close> keep explicit stores of addresses, since the claims depend on the links. A call returns
  \<open>Inl e\<close> for \<^verbatim>\<open>-e\<close>. What the code takes from parts outside the model is a parameter: \<open>va\<close> is
  \<^verbatim>\<open>verify_area\<close>, and allocators, name lookup and device routines are functions or values the operation
  is applied to. A call that sleeps is split where it sleeps, so that other steps can be interleaved there; the
  systems built from such pieces are inductive step relations, and the locale \<open>invariant_system\<close> of
  \<open>Kernel_Prelude\<close> gives the invariants of their reachable states. It is interpreted for locks (\<open>lks\<close>),
  credentials (\<open>creds\<close>), sessions, signals (\<open>sigs\<close>), kernel semaphores (\<open>sems\<close>), DMA channels, clocks,
  message queues (\<open>msgs\<close>), semaphore arrays (\<open>semvs\<close>), pipes, named pipes (\<open>fifos\<close>) and files.

  \<^bold>\<open>Theories, sources and results.\<close>
  \<^item> \<open>Kernel_Prelude\<close>, \<open>Errno\<close>, \<open>Uaccess\<close>, \<open>Task\<close>: shared types and lemmas, \<^verbatim>\<open>errno.h\<close>,
    \<^verbatim>\<open>verify_area\<close>, the task structure, the array \<^verbatim>\<open>task[]\<close> and the ring of tasks (\<^verbatim>\<open>sched.h\<close>).
  \<^item> \<open>Sys_Cred\<close>, \<open>Sys_Proc\<close>, \<open>Utsname\<close> (\<^verbatim>\<open>kernel/sys.c\<close>): ids, groups and limits; priorities,
    process groups and sessions; host and domain names. Unprivileged tasks stay within the ids they
    started with; a session leader stays one; priorities are set for exactly the selected tasks; names read back.
  \<^item> \<open>Signal\<close> (\<^verbatim>\<open>kernel/signal.c\<close>, the sending part of \<^verbatim>\<open>kernel/exit.c\<close>): SIGKILL and SIGSTOP can be
    neither blocked nor caught nor ignored, a signal only reaches tasks its sender may signal, and a group signal
    reaches exactly the group.
  \<^item> \<open>Wait_Queue\<close>, \<open>Semaphore\<close>, \<open>Sched\<close> (\<^verbatim>\<open>kernel/sched.c\<close>, \<^verbatim>\<open>sched.h\<close>): the pointer ring of a queue
    refines a list; \<^verbatim>\<open>down\<close> admits no more tasks than the count, and no wake-up is lost although
    interrupts may call \<^verbatim>\<open>up\<close> between any two steps; \<^verbatim>\<open>wake_up\<close> makes exactly
    the sleepers of its queue runnable; \<^verbatim>\<open>schedule\<close> takes a runnable task of the largest counter, and over any
    sequence of timer interrupts and calls of it a runnable task runs within a bounded number of interrupts.
  \<^item> \<open>Timer_List\<close>, \<open>Itimer\<close>, \<open>Clock\<close>, \<open>Mktime\<close> (\<^verbatim>\<open>kernel/sched.c\<close>, \<^verbatim>\<open>itimer.c\<close>, \<^verbatim>\<open>time.c\<close>, \<^verbatim>\<open>mktime.c\<close>):
    the list of relative ticks refines a queue of absolute deadlines (locale \<open>deadline_queue\<close>, interpreted as
    \<open>tq\<close>) and each timer runs when the ticks that are not lost reach its deadline, and not before;
    interval timers read back what was set; the microseconds of the clock leave their range only by a
    \<^verbatim>\<open>settimeofday\<close> that sets them so and come back by themselves, an interrupt moves the clock forward by
    about a tick, and a one-shot adjustment is added exactly; \<^verbatim>\<open>kernel_mktime\<close> agrees with the Gregorian calendar.
  \<^item> \<open>Ioport\<close>, \<open>Dma\<close> (\<^verbatim>\<open>kernel/ioport.c\<close>, \<^verbatim>\<open>kernel/dma.c\<close>): the word-wise bitmap operations agree
    with sets of ports and stay inside their arrays; a DMA channel has one owner.
  \<^item> \<open>Ipc_Msg\<close>, \<open>Ipc_Sem\<close> (\<^verbatim>\<open>ipc/msg.c\<close>, \<^verbatim>\<open>ipc/sem.c\<close>, \<^verbatim>\<open>ipcperms\<close> of \<^verbatim>\<open>ipc/util.c\<close>): calls are
    split at their allocations and waits (the lists of calls in progress are the second component of the
    step relations). The byte and message counts are those of the queues as long as they fit 16 bits, a receive takes
    the message its type asks for; the limits on semaphores hold with those reserved by callers that
    allocate; the operations of a \<^verbatim>\<open>semop\<close> on distinct semaphores happen all or none, and exit undoes them.
  \<^item> \<open>File_Locks\<close>, \<open>Lock_Table\<close>, \<open>Lock_Map\<close>, \<open>Lock_System\<close> (\<^verbatim>\<open>fs/locks.c\<close>): a granted request changes the
    bytes it names and no other; locks of different owners never conflict, over any interleaving with sleeping
    calls; no entry of the table is lost and no call panics.
  \<^item> \<open>Pipe\<close>, \<open>Fifo\<close> (\<^verbatim>\<open>fs/pipe.c\<close>, \<^verbatim>\<open>fs/fifo.c\<close>): the ring is a queue of bytes, reads and writes of many
    processes lose, duplicate and reorder nothing, also when others run during a copy; a write of at most
    \<^verbatim>\<open>PIPE_BUF\<close> bytes is atomic; non-blocking calls get \<^verbatim>\<open>EAGAIN\<close> exactly when the pipe is locked or select does
    not report it ready, or has too little room; the counts of an interleaving of opens of a named pipe are exact.
  \<^item> \<open>File_Table\<close>, \<open>File_Refs\<close> (\<^verbatim>\<open>fs/file_table.c\<close>, \<^verbatim>\<open>fs/fcntl.c\<close>, and the parts of \<^verbatim>\<open>fs/open.c\<close>,
    \<^verbatim>\<open>fs/read_write.c\<close>, \<^verbatim>\<open>fs/inode.c\<close>, \<^verbatim>\<open>kernel/fork.c\<close>, \<^verbatim>\<open>fs/exec.c\<close> and \<^verbatim>\<open>kernel/exit.c\<close> that work on
    descriptors): these call the definitions of the lock and pipe theories. A file's count is the number of
    its descriptors in all processes, a pipe's counts are its open ends (as long as no name, such as one of the
    process file system, leads to a pipe), so end of file is reported exactly when no descriptor of the writing end is left.

  Where the code leaves defined behaviour (an index beyond an array, a pointer to freed memory) the definitions stop
  with a result of their own, \<^verbatim>\<open>Semop_beyond\<close> or \<^const>\<open>None\<close>, and say nothing about what follows.

  Theorems named as errors, and the lemmas the manifest's findings name, prove behaviour that the code does not mean
  to have: an underflow of a semaphore, a write beyond an array, a loop that never ends, counts that are not taken back.

  \<^bold>\<open>Bounds and loops.\<close> No loop has fuel. Loops over lists are structural; others are functions with
  termination proofs, or partial functions whose value is \<^const>\<open>None\<close> when they do not end, and for these
  the theorems prove that they return (\<open>pipe_read_exact\<close>, \<open>wait_queue_ring\<close>, \<open>schedule_chooses\<close>,
  \<open>get_empty_filp_ends\<close>). The limits are those of the source: 256 descriptors, 128 tasks, 1024 files,
  64 record locks, pages of 4096 bytes. With 128 tasks of 256 descriptors a 16-bit count of a file cannot wrap.

  \<^bold>\<open>Not modelled.\<close> Memory management, traps, interrupt dispatch, boot and assembly: they act on the paging
  and interrupt hardware. Drivers for devices, the floating point emulator, the sound and SCSI layers: their behaviour is that
  of the hardware. The buffer cache, the file systems and name lookup: they depend on block devices; the file calls
  take their answers as parameters. The network protocols. Fork, exec and exit beyond signals and descriptors: they
  copy and destroy address spaces. The Rust sources beside the kernel and the build and boot scripts. The
  manifest lists every part with its reason.
\<close>

end
